(* ===== verification/Prelude.thy ===== *)
theory Prelude
  imports Complex_Main "HOL-Library.Word"
begin

text \<open>
  Shared vocabulary of the development: the integer types of the C sources at their width,
  the outcome of running a piece of C (a value, a Lua error that unwinds the call, or undefined
  behaviour), byte strings, and the list and word lemmas that the components use.

  The collections: \<open>c_sem\<close> holds the equations that run the outcome monad and the C
  conversions, \<open>lua_api\<close> (filled in LuaApi) the equations of the Lua calls. A component proof
  starts from \<open>simp add: c_sem lua_api\<close>.
\<close>

unbundle bit_operations_syntax

named_theorems c_sem \<open>equations that evaluate C outcomes and conversions\<close>
named_theorems lua_api \<open>equations that evaluate calls of the Lua API\<close>

section \<open>Machine types\<close>

type_synonym byte = "8 word"
type_synonym uint32 = "32 word"
type_synonym size_t = "64 word"

text \<open>
  A C \<open>int\<close> is an HOL integer in \<open>[-2^31, 2^31)\<close>: a value stored in an \<open>int\<close> variable goes
  through \<open>cast_int\<close>, the two's complement conversion of the supported compilers.
\<close>

definition cast_int :: "int \<Rightarrow> int" where
  "cast_int x = signed_take_bit 31 x"

lemma cast_int_id: "- (2 ^ 31) \<le> x \<Longrightarrow> x < 2 ^ 31 \<Longrightarrow> cast_int x = x"
  by (simp add: cast_int_def signed_take_bit_int_eq_self_iff)

lemma cast_int_of_nat: "k < 2 ^ 31 \<Longrightarrow> cast_int (int k) = int k"
  by (rule cast_int_id) auto

lemma cast_int_range: "- (2 ^ 31) \<le> cast_int x \<and> cast_int x < 2 ^ 31"
  using signed_take_bit_int_greater_eq_minus_exp [of 31 x] signed_take_bit_int_less_exp [of 31 x]
  by (simp add: cast_int_def)

text \<open>
  Reading an unsigned 64-bit count as \<open>lua_Integer\<close>: the two's complement value.
\<close>

definition size_to_integer :: "size_t \<Rightarrow> int" where
  "size_to_integer w = sint w"

lemma size_to_integer_small: "unat w < 2 ^ 63 \<Longrightarrow> size_to_integer w = int (unat w)"
proof -
  assume w: "unat w < 2 ^ 63"
  then have "uint w < 2 ^ 63" by (metis of_nat_less_iff of_nat_numeral of_nat_power uint_nat)
  moreover have "- (2 ^ 63) \<le> uint w" by (rule order.trans [OF _ uint_ge_0]) simp
  ultimately have "signed_take_bit 63 (uint w) = uint w"
    by (simp add: signed_take_bit_int_eq_self_iff)
  then show ?thesis by (simp add: size_to_integer_def sint_uint)
qed

section \<open>Outcomes of C code\<close>

text \<open>
  Undefined behaviour is a value of the model, tagged by its cause, so that a theorem that a
  call returns \<open>Ret\<close> also says that the call is free of it.
\<close>

datatype ub =
    DivByZero          \<comment> \<open>\<open>x % 0\<close>\<close>
  | OutOfBounds        \<comment> \<open>access outside an object\<close>
  | BadShift           \<comment> \<open>shift by at least the width of the type\<close>
  | CastOutOfRange     \<comment> \<open>conversion of a number to a C integer type that cannot hold it\<close>
  | IntOverflow        \<comment> \<open>signed arithmetic outside the type\<close>
  | NullDeref          \<comment> \<open>use of a null pointer\<close>
  | UseAfterFree       \<comment> \<open>use of a pointer to released storage\<close>

datatype lua_error =
    TypeError nat              \<comment> \<open>an argument of the wrong type, by its index\<close>
  | ArgError nat string        \<comment> \<open>\<open>luaL_argerror\<close>: index and message\<close>
  | RuntimeError "byte list"   \<comment> \<open>\<open>lua_error\<close>/\<open>luaL_error\<close> with a message\<close>
  | OutOfMemory                \<comment> \<open>an allocation failed\<close>

datatype 'a cres = Ret 'a | Raise lua_error | Undef ub

fun cbind :: "'a cres \<Rightarrow> ('a \<Rightarrow> 'b cres) \<Rightarrow> 'b cres" where
  "cbind (Ret x) f = f x"
| "cbind (Raise e) f = Raise e"
| "cbind (Undef u) f = Undef u"

lemmas [c_sem] = cbind.simps

lemma cbind_eq_Ret: "cbind m f = Ret y \<longleftrightarrow> (\<exists>x. m = Ret x \<and> f x = Ret y)"
  by (cases m) auto

lemma cbind_eq_Undef: "cbind m f = Undef u \<longleftrightarrow> m = Undef u \<or> (\<exists>x. m = Ret x \<and> f x = Undef u)"
  by (cases m) auto

lemma cbind_assoc: "cbind (cbind m f) g = cbind m (\<lambda>x. cbind (f x) g)"
  by (cases m) auto

lemma cbind_Ret: "cbind m Ret = m"
  by (cases m) auto

fun is_ret :: "'a cres \<Rightarrow> bool" where
  "is_ret (Ret x) = True"
| "is_ret (Raise e) = False"
| "is_ret (Undef u) = False"

fun is_undef :: "'a cres \<Rightarrow> bool" where
  "is_undef (Ret x) = False"
| "is_undef (Raise e) = False"
| "is_undef (Undef u) = True"

text \<open>\<open>outcome Q U m\<close>: a result of \<open>m\<close> satisfies \<open>Q\<close> and its undefined behaviour, if any, is one of
  \<open>U\<close>. The rules follow the sequencing of the code.\<close>

fun outcome :: "('a \<Rightarrow> bool) \<Rightarrow> (ub \<Rightarrow> bool) \<Rightarrow> 'a cres \<Rightarrow> bool" where
  "outcome Q U (Ret x) = Q x"
| "outcome Q U (Raise e) = True"
| "outcome Q U (Undef u) = U u"

lemma outcome_bind: "outcome (\<lambda>x. outcome Q U (f x)) U m \<Longrightarrow> outcome Q U (cbind m f)"
  by (cases m) auto

lemma outcome_conseq: "outcome Q U m \<Longrightarrow> (\<And>x. m = Ret x \<Longrightarrow> Q x \<Longrightarrow> Q' x) \<Longrightarrow> outcome Q' U m"
  by (cases m) auto

lemma outcome_Ret: "m = Ret x \<Longrightarrow> Q x \<Longrightarrow> outcome Q U m"
  by simp

lemma outcomeD:
  "outcome Q U m \<Longrightarrow> m = Ret x \<Longrightarrow> Q x"
  "outcome Q U m \<Longrightarrow> m = Undef u \<Longrightarrow> U u"
  by auto

section \<open>Byte strings\<close>

text \<open>A string literal of the sources as bytes; \<open>cstr\<close> is what C reads of a Lua string: up to
  the first NUL, which every Lua string has after its last byte.\<close>

definition bs :: "string \<Rightarrow> byte list" where
  "bs s = map (\<lambda>c. of_nat (of_char c)) s"

definition cstr :: "byte list \<Rightarrow> byte list" where
  "cstr s = takeWhile (\<lambda>c. c \<noteq> 0) s"

lemma of_char_byte_inject [simp]:
  "(of_nat (of_char c) :: byte) = of_nat (of_char d) \<longleftrightarrow> c = d"
proof
  assume "(of_nat (of_char c) :: byte) = of_nat (of_char d)"
  then have "unat (of_nat (of_char c) :: byte) = unat (of_nat (of_char d) :: byte)" by simp
  then have "(of_char c :: nat) mod 256 = of_char d mod 256" by (simp add: unat_of_nat)
  then show "c = d" by simp
qed simp

lemma bs_inject [simp]: "bs s = bs t \<longleftrightarrow> s = t"
  unfolding bs_def by (rule inj_map_eq_map) (simp add: inj_def)

lemma length_bs [simp]: "length (bs s) = length s"
  by (simp add: bs_def)

lemma cstr_id: "0 \<notin> set s \<Longrightarrow> cstr s = s"
  by (auto simp: cstr_def takeWhile_eq_all_conv)

lemma length_cstr_le: "length (cstr s) \<le> length s"
  by (simp add: cstr_def length_takeWhile_le)

lemma zero_notin_cstr: "0 \<notin> set (cstr s)"
  unfolding cstr_def by (auto dest: set_takeWhileD)

lemma cstr_length_eq: "length (cstr s) = length s \<longleftrightarrow> 0 \<notin> set s"
proof
  assume "length (cstr s) = length s"
  then have "cstr s = s"
    unfolding cstr_def by (metis takeWhile_eq_take take_all_iff order.refl)
  then show "0 \<notin> set s" using zero_notin_cstr by metis
qed (simp add: cstr_id)

lemma zero_notin_bs: "CHR 0x00 \<notin> set s \<Longrightarrow> 0 \<notin> set (bs s)"
proof
  assume "CHR 0x00 \<notin> set s" "0 \<in> set (bs s)"
  then obtain c where "c \<in> set s" "(of_nat (of_char c) :: byte) = of_nat (of_char (CHR 0x00))"
    by (auto simp: bs_def)
  with \<open>CHR 0x00 \<notin> set s\<close> show False by (simp only: of_char_byte_inject)
qed

text \<open>Reading a range of an array: defined only inside the array.\<close>

definition mem_slice :: "'a list \<Rightarrow> nat \<Rightarrow> nat \<Rightarrow> 'a list cres" where
  "mem_slice xs i n = (if i + n \<le> length xs then Ret (take n (drop i xs)) else Undef OutOfBounds)"

definition mem_at :: "'a list \<Rightarrow> nat \<Rightarrow> 'a cres" where
  "mem_at xs i = (if i < length xs then Ret (xs ! i) else Undef OutOfBounds)"

lemma outcome_mem_at: "i < length xs \<Longrightarrow> Q (xs ! i) \<Longrightarrow> outcome Q U (mem_at xs i)"
  by (simp add: mem_at_def)

text \<open>No object is larger than \<open>PTRDIFF_MAX\<close> bytes; a Lua string is an object.\<close>

definition fits_object :: "'a list \<Rightarrow> bool" where
  "fits_object xs \<longleftrightarrow> length xs < 2 ^ 63"

section \<open>Words and naturals\<close>

lemma unat_add_small:
  "unat (a :: 'a::len word) + unat b < 2 ^ LENGTH('a) \<Longrightarrow> unat (a + b) = unat a + unat b"
  by (simp add: unat_add_lem)

lemma unat_of_nat_small:
  "n < 2 ^ LENGTH('a) \<Longrightarrow> unat (of_nat n :: 'a::len word) = n"
  by (simp add: unat_of_nat)

lemma unat_word_of_int:
  assumes "0 \<le> n" "n < 2 ^ LENGTH('a)"
  shows "unat (word_of_int n :: 'a::len word) = nat n"
proof -
  have "uint (word_of_int n :: 'a word) = n" using assms by (simp add: uint_word_of_int)
  then show ?thesis by (metis nat_uint_eq)
qed

lemma unat_take_bit: "unat (take_bit n w) = unat w mod 2 ^ n"
  unfolding unsigned_take_bit_eq by (rule take_bit_eq_mod)

lemma unat_push_bit:
  fixes w :: "'a::len word"
  assumes "unat w * 2 ^ n < 2 ^ LENGTH('a)"
  shows "unat (push_bit n w) = unat w * 2 ^ n"
proof -
  have "unat (push_bit n w) = take_bit LENGTH('a) (unat w * 2 ^ n)"
    unfolding unsigned_push_bit_eq by (simp add: push_bit_eq_mult)
  with assms show ?thesis by (simp add: take_bit_eq_mod)
qed

lemma unat_drop_bit: "unat (drop_bit n w) = unat w div 2 ^ n"
  by (metis drop_bit_eq_div unat_drop_bit_eq)

lemma unat_byte [simp]: "unat (x :: byte) < 256"
  using unsigned_less [of x, where ?'a = nat] by simp

lemma unat_ucast_byte [simp]: "unat (ucast (x :: byte) :: uint32) = unat x"
proof -
  have "unat x < 2 ^ LENGTH(32)" by (rule less_trans [OF unat_byte]) simp
  then show ?thesis by (simp add: unsigned_ucast_eq take_bit_eq_mod)
qed

lemma add_mod_neq:
  fixes r i k n :: nat
  assumes "i < k" and "k - i < n"
  shows "(r + i) mod n \<noteq> (r + k) mod n"
proof
  assume "(r + i) mod n = (r + k) mod n"
  moreover have "r + i \<le> r + k" using assms(1) by simp
  ultimately have "n dvd (r + k) - (r + i)" by (metis mod_eq_dvd_iff_nat)
  then have "n dvd k - i" by simp
  with assms show False by (auto dest: dvd_imp_le)
qed

lemma mod_once: "(a :: nat) < n \<Longrightarrow> b \<le> n \<Longrightarrow> (a + b) mod n = (if a + b < n then a + b else a + b - n)"
  by (simp add: mod_if)

section \<open>Words in memory\<close>

text \<open>A 32-bit word and its four bytes, on a little-endian machine.\<close>

definition quad_of_bytes :: "byte \<Rightarrow> byte \<Rightarrow> byte \<Rightarrow> byte \<Rightarrow> uint32" where
  "quad_of_bytes a b c d =
     (ucast a OR push_bit 8 (ucast b) OR push_bit 16 (ucast c) OR push_bit 24 (ucast d))"

definition bytes_of_quad :: "uint32 \<Rightarrow> byte list" where
  "bytes_of_quad w = [ucast w, ucast (drop_bit 8 w), ucast (drop_bit 16 w), ucast (drop_bit 24 w)]"

lemma byte_bit_high: "8 \<le> n \<Longrightarrow> \<not> bit (a :: byte) n"
  using bit_imp_le_length [of a n] by auto

lemma bit_quad_of_bytes:
  "bit (quad_of_bytes a b c d) n \<longleftrightarrow>
    (if n < 8 then bit a n else if n < 16 then bit b (n - 8)
     else if n < 24 then bit c (n - 16) else bit d (n - 24))"
  using byte_bit_high [of n a] byte_bit_high [of "n - 8" b] byte_bit_high [of "n - 16" c]
    byte_bit_high [of "n - 24" d]
  by (cases "n < 8"; cases "n < 16"; cases "n < 24"; cases "n < 32")
    (auto simp add: quad_of_bytes_def bit_simps)

lemma bytes_of_quad_of_bytes: "bytes_of_quad (quad_of_bytes a b c d) = [a, b, c, d]"
  unfolding bytes_of_quad_def
  by (auto intro!: bit_word_eqI simp: bit_quad_of_bytes bit_unsigned_iff bit_drop_bit_eq)

section \<open>Sequences of operations\<close>

text \<open>Running a list of operations on a state; the first error or undefined behaviour ends the
  run. \<open>spec_run\<close> is the same for a specification that cannot fail.\<close>

fun run_ops :: "('op \<Rightarrow> 's \<Rightarrow> ('r \<times> 's) cres) \<Rightarrow> 'op list \<Rightarrow> 's \<Rightarrow> ('r list \<times> 's) cres" where
  "run_ops step [] s = Ret ([], s)"
| "run_ops step (x # xs) s =
     cbind (step x s) (\<lambda>(r, s'). cbind (run_ops step xs s') (\<lambda>(rs, s''). Ret (r # rs, s'')))"

fun spec_run :: "('op \<Rightarrow> 's \<Rightarrow> 'r \<times> 's) \<Rightarrow> 'op list \<Rightarrow> 's \<Rightarrow> 'r list \<times> 's" where
  "spec_run step [] s = ([], s)"
| "spec_run step (x # xs) s =
     (let (r, s') = step x s; (rs, s'') = spec_run step xs s' in (r # rs, s''))"

text \<open>A forward simulation of single steps lifts to runs.\<close>

lemma run_ops_simulation:
  assumes step: "\<And>x s. I s \<Longrightarrow> P x \<Longrightarrow>
      \<exists>s'. f x s = Ret (fst (g x (view s)), s') \<and> I s' \<and> view s' = snd (g x (view s))"
    and "I s" and "\<forall>x \<in> set xs. P x"
  shows "\<exists>s'. run_ops f xs s = Ret (fst (spec_run g xs (view s)), s') \<and> I s' \<and>
      view s' = snd (spec_run g xs (view s))"
  using assms(2,3)
proof (induction xs arbitrary: s)
  case (Cons x xs)
  from step [of s x] Cons.prems obtain s1
    where s1: "f x s = Ret (fst (g x (view s)), s1)" "I s1" "view s1 = snd (g x (view s))" by auto
  from Cons.IH [of s1] s1(2) Cons.prems obtain s2
    where "run_ops f xs s1 = Ret (fst (spec_run g xs (view s1)), s2)" "I s2"
      "view s2 = snd (spec_run g xs (view s1))" by auto
  with s1 show ?case by (auto simp: case_prod_beta Let_def)
qed simp

text \<open>An invariant of the steps is one of the runs.\<close>

lemma run_ops_outcome:
  assumes step: "\<And>x s. I s \<Longrightarrow> outcome (\<lambda>(r, s'). I s') U (f x s)"
  shows "I s \<Longrightarrow> outcome (\<lambda>(rs, s'). I s') U (run_ops f xs s)"
proof (induction xs arbitrary: s)
  case (Cons x xs)
  have rest: "outcome (\<lambda>(rs, s'). I s') U (cbind (run_ops f xs s1) (\<lambda>(rs, s''). Ret (r # rs, s'')))"
    if "I s1" for r s1
    using Cons.IH [OF that] by (intro outcome_bind) (auto elim: outcome_conseq)
  show ?case
    unfolding run_ops.simps
    by (rule outcome_bind, rule outcome_conseq [OF step [OF Cons.prems]]) (auto intro: rest)
qed simp

end
