(* ===== verification/LuaApi.thy ===== *)
theory LuaApi
  imports Prelude
begin

text \<open>
  The part of the Lua 5.1 C API that the sources call. A C function gets its arguments as the
  list \<open>L\<close> (index 1 first) and pushes a list of results. Numbers are exact rationals (a
  \<open>lua_Number\<close> without rounding, infinities and NaN); \<open>lua_Integer\<close> is \<open>ptrdiff_t\<close>, 64 bits.
  The runtime's conversions between strings and numbers and the C library's \<open>strerror\<close> are
  fields of the record \<open>host\<close>, an argument of every operation that uses them.
\<close>

record host =
  str2num :: "byte list \<Rightarrow> rat option"   \<comment> \<open>\<open>lua_str2number\<close>\<close>
  num2str :: "rat \<Rightarrow> byte list"          \<comment> \<open>\<open>lua_number2str\<close>\<close>
  strerror :: "int \<Rightarrow> byte list"         \<comment> \<open>\<open>strerror(3)\<close>\<close>
  ptr2str :: "nat \<Rightarrow> byte list"          \<comment> \<open>\<open>%p\<close> of \<open>lua_pushfstring\<close>\<close>

datatype lua_value =
    LNil
  | LBool bool
  | LNumber rat
  | LString "byte list"
  | LTable "(lua_value \<times> lua_value) list"
  | LFunction nat
  | LCFunction string      \<comment> \<open>a C function, by its name in the sources\<close>
  | LUserdata string nat   \<comment> \<open>its metatable's name and its address\<close>

type_synonym lua_args = "lua_value list"

section \<open>Reading arguments\<close>

text \<open>\<open>None\<close> is \<open>LUA_TNONE\<close>: no argument at that index.\<close>

definition lua_arg :: "lua_args \<Rightarrow> nat \<Rightarrow> lua_value option" where
  [lua_api]: "lua_arg L i = (if 1 \<le> i \<and> i \<le> length L then Some (L ! (i - 1)) else None)"

fun lua_toboolean :: "lua_value option \<Rightarrow> bool" where
  "lua_toboolean None = False"
| "lua_toboolean (Some LNil) = False"
| "lua_toboolean (Some (LBool b)) = b"
| "lua_toboolean (Some v) = True"

definition lua_isnoneornil :: "lua_value option \<Rightarrow> bool" where
  [lua_api]: "lua_isnoneornil v \<longleftrightarrow> v = None \<or> v = Some LNil"

fun lua_isstring :: "lua_value option \<Rightarrow> bool" where
  "lua_isstring (Some (LString s)) = True"
| "lua_isstring (Some (LNumber q)) = True"
| "lua_isstring v = False"

fun lua_isfunction :: "lua_value \<Rightarrow> bool" where
  "lua_isfunction (LFunction f) = True"
| "lua_isfunction (LCFunction f) = True"
| "lua_isfunction v = False"

fun lua_tonumber_opt :: "host \<Rightarrow> lua_value option \<Rightarrow> rat option" where
  "lua_tonumber_opt H (Some (LNumber q)) = Some q"
| "lua_tonumber_opt H (Some (LString s)) = str2num H s"
| "lua_tonumber_opt H v = None"

definition lua_isnumber :: "host \<Rightarrow> lua_value option \<Rightarrow> bool" where
  [lua_api]: "lua_isnumber H v \<longleftrightarrow> lua_tonumber_opt H v \<noteq> None"

definition lua_tonumber :: "host \<Rightarrow> lua_value option \<Rightarrow> rat" where
  [lua_api]: "lua_tonumber H v = (case lua_tonumber_opt H v of Some q \<Rightarrow> q | None \<Rightarrow> 0)"

fun lua_tostring :: "host \<Rightarrow> lua_value option \<Rightarrow> byte list option" where
  "lua_tostring H (Some (LString s)) = Some s"
| "lua_tostring H (Some (LNumber q)) = Some (num2str H q)"
| "lua_tostring H v = None"

text \<open>Truncation of a number towards zero, and its conversion to a C integer type.\<close>

definition truncate_number :: "rat \<Rightarrow> int" where
  "truncate_number q = (if 0 \<le> q then \<lfloor>q\<rfloor> else \<lceil>q\<rceil>)"

definition number_to_integer :: "rat \<Rightarrow> int cres" where
  [lua_api]: "number_to_integer q =
    (let i = truncate_number q
     in if - (2 ^ 63) \<le> i \<and> i < 2 ^ 63 then Ret i else Undef CastOutOfRange)"

definition number_to_int :: "rat \<Rightarrow> int cres" where
  [lua_api]: "number_to_int q =
    (let i = truncate_number q
     in if - (2 ^ 31) \<le> i \<and> i < 2 ^ 31 then Ret i else Undef CastOutOfRange)"

lemma truncate_of_int [simp, lua_api]: "truncate_number (of_int i) = i"
  by (simp add: truncate_number_def)

lemma truncate_of_nat [simp, lua_api]: "truncate_number (of_nat n) = int n"
  by (simp add: truncate_number_def)

lemma truncate_numeral [simp, lua_api]: "truncate_number (numeral k) = numeral k"
  by (simp add: truncate_number_def)

lemma truncate_neg_numeral [simp, lua_api]: "truncate_number (- numeral k) = - numeral k"
  by (simp add: truncate_number_def)

lemma truncate_zero [simp, lua_api]: "truncate_number 0 = 0"
  by (simp add: truncate_number_def)

lemma truncate_one [simp, lua_api]: "truncate_number 1 = 1"
  by (simp add: truncate_number_def)

lemma truncate_neg_one [simp, lua_api]: "truncate_number (- 1) = - 1"
  using truncate_of_int [of "- 1"] by simp

section \<open>Checked arguments\<close>

definition luaL_checknumber :: "host \<Rightarrow> lua_args \<Rightarrow> nat \<Rightarrow> rat cres" where
  [lua_api]: "luaL_checknumber H L i =
    (case lua_tonumber_opt H (lua_arg L i) of Some q \<Rightarrow> Ret q | None \<Rightarrow> Raise (TypeError i))"

definition luaL_checkinteger :: "host \<Rightarrow> lua_args \<Rightarrow> nat \<Rightarrow> int cres" where
  [lua_api]: "luaL_checkinteger H L i = cbind (luaL_checknumber H L i) number_to_integer"

definition luaL_optinteger :: "host \<Rightarrow> lua_args \<Rightarrow> nat \<Rightarrow> int \<Rightarrow> int cres" where
  [lua_api]: "luaL_optinteger H L i d =
    (if lua_isnoneornil (lua_arg L i) then Ret d else luaL_checkinteger H L i)"

definition luaL_checklstring :: "host \<Rightarrow> lua_args \<Rightarrow> nat \<Rightarrow> byte list cres" where
  [lua_api]: "luaL_checklstring H L i =
    (case lua_tostring H (lua_arg L i) of Some s \<Rightarrow> Ret s | None \<Rightarrow> Raise (TypeError i))"

definition luaL_checkstring :: "host \<Rightarrow> lua_args \<Rightarrow> nat \<Rightarrow> byte list cres" where
  [lua_api]: "luaL_checkstring H L i = cbind (luaL_checklstring H L i) (\<lambda>s. Ret (cstr s))"

definition luaL_checkany :: "lua_args \<Rightarrow> nat \<Rightarrow> unit cres" where
  [lua_api]: "luaL_checkany L i =
    (if lua_arg L i = None then Raise (ArgError i ''value expected'') else Ret ())"

definition luaL_argcheck :: "bool \<Rightarrow> nat \<Rightarrow> string \<Rightarrow> unit cres" where
  [lua_api]: "luaL_argcheck c i msg = (if c then Ret () else Raise (ArgError i msg))"

definition luaL_checkudata :: "lua_args \<Rightarrow> nat \<Rightarrow> string \<Rightarrow> nat cres" where
  [lua_api]: "luaL_checkudata L i tname =
    (case lua_arg L i of
       Some (LUserdata t p) \<Rightarrow> if t = tname then Ret p else Raise (TypeError i)
     | _ \<Rightarrow> Raise (TypeError i))"

text \<open>\<open>luaL_checkoption\<close> with a default: the index of the argument in the list of names.\<close>

fun option_index :: "string list \<Rightarrow> byte list \<Rightarrow> nat \<Rightarrow> nat option" where
  "option_index [] s k = None"
| "option_index (x # xs) s k = (if bs x = s then Some k else option_index xs s (Suc k))"

definition luaL_checkoption :: "host \<Rightarrow> lua_args \<Rightarrow> nat \<Rightarrow> string \<Rightarrow> string list \<Rightarrow> nat cres" where
  [lua_api]: "luaL_checkoption H L i d names =
    cbind (if lua_isnoneornil (lua_arg L i) then Ret (bs d) else luaL_checkstring H L i)
      (\<lambda>s. case option_index names s 0 of
             Some k \<Rightarrow> Ret k
           | None \<Rightarrow> Raise (ArgError i ''invalid option''))"

lemma option_index_Some:
  "option_index names s k = Some j \<Longrightarrow> k \<le> j \<and> j - k < length names \<and> bs (names ! (j - k)) = s"
proof (induction names s k rule: option_index.induct)
  case (2 x xs s k)
  show ?case
  proof (cases "bs x = s")
    case False
    with 2 have "Suc k \<le> j \<and> j - Suc k < length xs \<and> bs (xs ! (j - Suc k)) = s" by simp
    then show ?thesis by (auto simp: nth_Cons' Suc_diff_le)
  qed (use 2 in auto)
qed simp

lemma luaL_checkoption_range:
  "luaL_checkoption H L i d names = Ret k \<Longrightarrow> k < length names"
  using option_index_Some [where k = 0]
  by (fastforce simp: luaL_checkoption_def cbind_eq_Ret split: option.splits)

lemma option_index_nth:
  "distinct names \<Longrightarrow> i < length names \<Longrightarrow> option_index names (bs (names ! i)) k = Some (k + i)"
proof (induction names arbitrary: i k)
  case (Cons x xs)
  show ?case
  proof (cases i)
    case (Suc j)
    with Cons.prems have "x \<noteq> xs ! j" by auto
    with Suc Cons show ?thesis by simp
  qed simp
qed simp

text \<open>An option given by its name.\<close>

lemma checkoption_named:
  assumes "distinct names" and "i < length names" and "CHR 0x00 \<notin> set (names ! i)"
    and "lua_arg L n = Some (LString (bs (names ! i)))"
  shows "luaL_checkoption H L n d names = Ret i"
  using option_index_nth [OF assms(1,2), of 0] cstr_id [OF zero_notin_bs [OF assms(3)]] assms(4)
  by (simp add: luaL_checkoption_def lua_isnoneornil_def luaL_checkstring_def luaL_checklstring_def)

text \<open>The argument checks have no undefined behaviour, except that a number may be out of range.\<close>

lemma outcome_checks:
  "(\<And>x. Q x) \<Longrightarrow> outcome Q U (luaL_checkudata L i t)"
  "(\<And>x. Q' x) \<Longrightarrow> outcome Q' U (luaL_checknumber H L i)"
  "(\<And>x. Q'' x) \<Longrightarrow> outcome Q'' U (luaL_checklstring H L i)"
  "(c \<Longrightarrow> R ()) \<Longrightarrow> outcome R U (luaL_argcheck c i msg)"
  by (simp_all add: lua_api split: option.splits lua_value.splits)

lemma outcome_conversions:
  "(\<And>x. Q x) \<Longrightarrow> U CastOutOfRange \<Longrightarrow> outcome Q U (number_to_int q)"
  "(\<And>x. Q x) \<Longrightarrow> U CastOutOfRange \<Longrightarrow> outcome Q U (number_to_integer q)"
  "(\<And>x. Q x) \<Longrightarrow> U CastOutOfRange \<Longrightarrow> outcome Q U (luaL_checkinteger H L i)"
  by (simp_all add: lua_api Let_def split: option.splits)

lemma outcome_checkoption:
  "(\<And>k. k < length names \<Longrightarrow> Q k) \<Longrightarrow> outcome Q U (luaL_checkoption H L i d names)"
  using luaL_checkoption_range [of H L i d names]
  by (cases "luaL_checkoption H L i d names")
    (auto simp: luaL_checkoption_def cbind_eq_Undef lua_api split: if_splits option.splits)

lemma outcome_checkstring: "(\<And>x. Q x) \<Longrightarrow> outcome Q U (luaL_checkstring H L i)"
  by (simp add: lua_api split: option.splits)

lemmas outcome_rules = outcome_bind outcome_checks outcome_conversions

text \<open>Errors returned the Lua way: \<open>nil\<close>, a message and an error number.\<close>

definition push_errno :: "host \<Rightarrow> int \<Rightarrow> lua_value list" where
  "push_errno H e = [LNil, LString (strerror H e), LNumber (of_int e)]"

section \<open>Error numbers of the supported platform\<close>

definition EPERM :: int where "EPERM = 1"
definition ENOENT :: int where "ENOENT = 2"
definition EINTR :: int where "EINTR = 4"
definition EBADF :: int where "EBADF = 9"
definition ENOMEM :: int where "ENOMEM = 12"
definition EEXIST :: int where "EEXIST = 17"
definition EINVAL :: int where "EINVAL = 22"
definition ENOSPC :: int where "ENOSPC = 28"
definition ENOSYS :: int where "ENOSYS = 38"
definition EOPNOTSUPP :: int where "EOPNOTSUPP = 95"
definition EAFNOSUPPORT :: int where "EAFNOSUPPORT = 97"

lemmas errno_defs =
  EPERM_def ENOENT_def EINTR_def EBADF_def ENOMEM_def EEXIST_def EINVAL_def ENOSPC_def
  ENOSYS_def EOPNOTSUPP_def EAFNOSUPPORT_def

text \<open>A host for concrete runs: no string reads as a number, and numbers and errors print as
  the empty string.\<close>

definition plain_host :: host where
  "plain_host = \<lparr>str2num = (\<lambda>_. None), num2str = (\<lambda>_. []), strerror = (\<lambda>_. []), ptr2str = (\<lambda>_. [])\<rparr>"

end
