(* ===== verification/Ringbuffer.thy ===== *)
theory Ringbuffer
  imports LuaApi
begin

text \<open>
  \<open>util-src/ringbuffer.c\<close>: a bounded byte queue in one allocation. The positions and lengths are
  64-bit words, so the wrap-around of \<open>size_t\<close> is the code's. The abstraction \<open>rb_content\<close> reads
  the queued bytes off the ring; \<open>rb_wf\<close> is the invariant between calls. The locale
  \<open>bounded_queue\<close> is the contract of a bounded byte queue, interpreted by the ring's operations.
\<close>

record ringbuffer =
  rpos :: size_t          \<comment> \<open>read position\<close>
  wpos :: size_t          \<comment> \<open>write position\<close>
  alen :: size_t          \<comment> \<open>allocated size\<close>
  blen :: size_t          \<comment> \<open>current content size\<close>
  buffer :: "byte list"   \<comment> \<open>the allocation behind the header\<close>

definition ringbuffer_mt :: string where
  "ringbuffer_mt = ''ringbuffer_mt''"

section \<open>Single bytes\<close>

text \<open>The index \<open>p % b->alen\<close> into \<open>b->buffer\<close>.\<close>

definition rb_index :: "ringbuffer \<Rightarrow> size_t \<Rightarrow> nat cres" where
  "rb_index b p =
    (if alen b = 0 then Undef DivByZero
     else if unat (p mod alen b) < length (buffer b) then Ret (unat (p mod alen b))
     else Undef OutOfBounds)"

definition readchar :: "ringbuffer \<Rightarrow> (byte \<times> ringbuffer) cres" where
  "readchar b = cbind (rb_index b (rpos b)) (\<lambda>i.
     Ret (buffer b ! i, b\<lparr>blen := blen b - 1, rpos := rpos b + 1\<rparr>))"

definition writechar :: "ringbuffer \<Rightarrow> byte \<Rightarrow> ringbuffer cres" where
  "writechar b c = cbind (rb_index b (wpos b)) (\<lambda>i.
     Ret (b\<lparr>blen := blen b + 1, wpos := wpos b + 1, buffer := (buffer b)[i := c]\<rparr>))"

definition modpos :: "ringbuffer \<Rightarrow> ringbuffer cres" where
  "modpos b =
    (if alen b = 0 then Undef DivByZero
     else Ret (b\<lparr>rpos := rpos b mod alen b, wpos := wpos b mod alen b\<rparr>))"

section \<open>Searching\<close>

text \<open>The inner loop of \<open>find\<close>: the bytes after the first one, \<open>s[j]\<close> against the ring.\<close>

fun find_rest :: "ringbuffer \<Rightarrow> size_t \<Rightarrow> byte list \<Rightarrow> size_t \<Rightarrow> bool cres" where
  "find_rest b i [] j = Ret True"
| "find_rest b i (c # cs) j =
     cbind (rb_index b (rpos b + i + j)) (\<lambda>k.
       if buffer b ! k \<noteq> c then Ret False else find_rest b i cs (j + 1))"

text \<open>One round of the outer loop: does the needle match at offset \<open>i\<close>? The first byte of an
  empty needle is its terminating NUL.\<close>

definition find_at :: "ringbuffer \<Rightarrow> byte list \<Rightarrow> size_t \<Rightarrow> bool cres" where
  "find_at b s i =
     cbind (rb_index b (rpos b + i)) (\<lambda>k.
       if buffer b ! k = (case s of [] \<Rightarrow> 0 | c # _ \<Rightarrow> c) then find_rest b i (tl s) 1
       else Ret False)"

text \<open>The outer loop. Its bound \<open>b->blen - l\<close> is unsigned and may wrap, so the loop is a partial
  function: \<open>None\<close> is a call that does not return.\<close>

partial_function (option) find_loop :: "ringbuffer \<Rightarrow> byte list \<Rightarrow> size_t \<Rightarrow> int cres option" where
  "find_loop b s i =
    (if i \<le> blen b - of_nat (length s)
     then (case find_at b s i of
             Ret m \<Rightarrow>
               if m then Some (Ret (cast_int (uint (i + of_nat (length s)))))
               else find_loop b s (i + 1)
           | Raise e \<Rightarrow> Some (Raise e)
           | Undef u \<Rightarrow> Some (Undef u))
     else Some (Ret 0))"

definition find :: "ringbuffer \<Rightarrow> byte list \<Rightarrow> int cres option" where
  "find b s = (if rpos b = wpos b then Some (Ret 0) else find_loop b s 0)"

section \<open>Lua methods\<close>

definition rb_find :: "host \<Rightarrow> lua_args \<Rightarrow> ringbuffer \<Rightarrow> (lua_value list \<times> ringbuffer) cres option" where
  "rb_find H L b =
    (case cbind (luaL_checkudata L 1 ringbuffer_mt) (\<lambda>_. luaL_checklstring H L 2) of
       Ret s \<Rightarrow>
         map_option (\<lambda>r. cbind r (\<lambda>n.
             let m = (word_of_int n :: size_t) in
             if m > 0 then Ret ([LNumber (of_int (size_to_integer m))], b) else Ret ([], b)))
           (find b s)
     | Raise e \<Rightarrow> Some (Raise e)
     | Undef u \<Rightarrow> Some (Undef u))"

definition rb_discard :: "host \<Rightarrow> lua_args \<Rightarrow> ringbuffer \<Rightarrow> (lua_value list \<times> ringbuffer) cres" where
  "rb_discard H L b =
    cbind (luaL_checkudata L 1 ringbuffer_mt) (\<lambda>_.
    cbind (luaL_checkinteger H L 2) (\<lambda>n.
      let r = (word_of_int n :: size_t) in
      if r > blen b then Ret ([LBool False], b)
      else cbind (modpos (b\<lparr>blen := blen b - r, rpos := rpos b + r\<rparr>)) (\<lambda>b'.
        Ret ([LBool True], b'))))"

definition rb_read :: "host \<Rightarrow> lua_args \<Rightarrow> ringbuffer \<Rightarrow> (lua_value list \<times> ringbuffer) cres" where
  "rb_read H L b =
    cbind (luaL_checkudata L 1 ringbuffer_mt) (\<lambda>_.
    cbind (luaL_checkinteger H L 2) (\<lambda>n.
      let r = (word_of_int n :: size_t); peek = lua_toboolean (lua_arg L 3) in
      if r > blen b then Ret ([LNil], b)
      else
        cbind
          (if rpos b + r > alen b
           then cbind (mem_slice (buffer b) (unat (rpos b)) (unat (alen b - rpos b))) (\<lambda>s1.
                cbind (mem_slice (buffer b) 0 (unat (r - (alen b - rpos b)))) (\<lambda>s2.
                  Ret (s1 @ s2)))
           else mem_slice (buffer b) (unat (rpos b)) (unat r))
          (\<lambda>s.
            if peek then Ret ([LString s], b)
            else cbind (modpos (b\<lparr>blen := blen b - r, rpos := rpos b + r\<rparr>)) (\<lambda>b'.
              Ret ([LString s], b')))))"

definition rb_readuntil ::
  "host \<Rightarrow> lua_args \<Rightarrow> ringbuffer \<Rightarrow> (lua_value list \<times> ringbuffer) cres option" where
  "rb_readuntil H L b =
    (case cbind (luaL_checkudata L 1 ringbuffer_mt) (\<lambda>_. luaL_checklstring H L 2) of
       Ret s \<Rightarrow>
         map_option (\<lambda>r. cbind r (\<lambda>n.
             let m = (word_of_int n :: size_t) in
             if m > 0 then rb_read H (take 1 L @ [LNumber (of_int (size_to_integer m))]) b
             else Ret ([], b)))
           (find b s)
     | Raise e \<Rightarrow> Some (Raise e)
     | Undef u \<Rightarrow> Some (Undef u))"

fun write_loop :: "ringbuffer \<Rightarrow> byte list \<Rightarrow> ringbuffer cres" where
  "write_loop b [] = Ret b"
| "write_loop b (c # cs) = cbind (writechar b c) (\<lambda>b'. write_loop b' cs)"

definition rb_write :: "host \<Rightarrow> lua_args \<Rightarrow> ringbuffer \<Rightarrow> (lua_value list \<times> ringbuffer) cres" where
  "rb_write H L b =
    cbind (luaL_checkudata L 1 ringbuffer_mt) (\<lambda>_.
    cbind (luaL_checklstring H L 2) (\<lambda>s.
      let l = (of_nat (length s) :: size_t) in
      if l + blen b > alen b then Ret ([LNil], b)
      else
        cbind (write_loop b s) (\<lambda>b1.
        cbind (modpos b1) (\<lambda>b2.
          Ret ([LNumber (of_int (size_to_integer l))], b2)))))"

text \<open>The directives \<open>%d\<close> of \<open>rb_tostring\<close> read an \<open>int\<close> where a \<open>size_t\<close> is passed: on the supported
  platform the low 32 bits.\<close>

definition rb_tostring :: "host \<Rightarrow> lua_args \<Rightarrow> ringbuffer \<Rightarrow> (lua_value list \<times> ringbuffer) cres" where
  "rb_tostring H L b = cbind (luaL_checkudata L 1 ringbuffer_mt) (\<lambda>p.
     let d = (\<lambda>w. num2str H (of_int (cast_int (uint w)))) in
     Ret ([LString (bs ''ringbuffer: '' @ ptr2str H p @ bs '' '' @ d (blen b) @ bs ''/'' @ d (alen b))], b))"

definition rb_length :: "lua_args \<Rightarrow> ringbuffer \<Rightarrow> (lua_value list \<times> ringbuffer) cres" where
  "rb_length L b = cbind (luaL_checkudata L 1 ringbuffer_mt) (\<lambda>_.
     Ret ([LNumber (of_int (size_to_integer (blen b)))], b))"

definition rb_size :: "lua_args \<Rightarrow> ringbuffer \<Rightarrow> (lua_value list \<times> ringbuffer) cres" where
  "rb_size L b = cbind (luaL_checkudata L 1 ringbuffer_mt) (\<lambda>_.
     Ret ([LNumber (of_int (size_to_integer (alen b)))], b))"

definition rb_free :: "lua_args \<Rightarrow> ringbuffer \<Rightarrow> (lua_value list \<times> ringbuffer) cres" where
  "rb_free L b = cbind (luaL_checkudata L 1 ringbuffer_mt) (\<lambda>_.
     Ret ([LNumber (of_int (size_to_integer (alen b - blen b)))], b))"

text \<open>
  \<open>rb_new\<close>: the allocator (\<open>alloc n\<close>: can it hand out \<open>n\<close> bytes?), the page size and the initial
  contents of fresh memory are parameters, and so is the address \<open>p\<close> of the new userdata, which has no
  metatable at first. The header takes 32 bytes of the allocation; storing the header fields into a
  shorter one is out of bounds.
\<close>

definition no_metatable :: string where "no_metatable = []"

definition header_size :: size_t where
  "header_size = 32"

definition lua_setmetatable :: "string \<Rightarrow> lua_value \<Rightarrow> lua_value" where
  "lua_setmetatable mt v = (case v of LUserdata _ p \<Rightarrow> LUserdata mt p | _ \<Rightarrow> v)"

definition rb_new :: "host \<Rightarrow> int \<Rightarrow> (nat \<Rightarrow> bool) \<Rightarrow> (nat \<Rightarrow> byte) \<Rightarrow> nat \<Rightarrow> lua_args \<Rightarrow> (lua_value list \<times> ringbuffer) cres" where
  "rb_new H pagesize alloc junk p L =
    cbind (luaL_optinteger H L 1 pagesize) (\<lambda>n.
      let size = (word_of_int n :: size_t); total = unat (header_size + size) in
      if \<not> alloc total then Raise OutOfMemory
      else
        let ud = LUserdata no_metatable p in
        if total < unat header_size then Undef OutOfBounds
        else
          let b = \<lparr>rpos = 0, wpos = 0, alen = size, blen = 0,
                   buffer = map junk [0..<total - unat header_size]\<rparr>
          in Ret ([lua_setmetatable ringbuffer_mt ud], b))"

section \<open>Invariant and abstraction\<close>

definition rb_wf :: "ringbuffer \<Rightarrow> bool" where
  "rb_wf b \<longleftrightarrow>
     0 < unat (alen b) \<and> unat (alen b) < 2 ^ 63 \<and> length (buffer b) = unat (alen b) \<and>
     unat (rpos b) < unat (alen b) \<and> unat (blen b) \<le> unat (alen b) \<and>
     unat (wpos b) = (unat (rpos b) + unat (blen b)) mod unat (alen b)"

definition ring_slice :: "'a list \<Rightarrow> nat \<Rightarrow> nat \<Rightarrow> 'a list" where
  "ring_slice xs r n = map (\<lambda>i. xs ! ((r + i) mod length xs)) [0..<n]"

definition rb_content :: "ringbuffer \<Rightarrow> byte list" where
  "rb_content b = ring_slice (buffer b) (unat (rpos b)) (unat (blen b))"

lemma length_ring_slice [simp]: "length (ring_slice xs r n) = n"
  by (simp add: ring_slice_def)

lemma nth_ring_slice [simp]: "i < n \<Longrightarrow> ring_slice xs r n ! i = xs ! ((r + i) mod length xs)"
  by (simp add: ring_slice_def)

lemma take_ring_slice: "m \<le> n \<Longrightarrow> take m (ring_slice xs r n) = ring_slice xs r m"
  by (rule nth_equalityI) auto

lemma drop_ring_slice:
  "m \<le> n \<Longrightarrow> drop m (ring_slice xs r n) = ring_slice xs ((r + m) mod length xs) (n - m)"
  by (rule nth_equalityI) (auto simp: mod_add_left_eq add.assoc)

lemma ring_slice_straight:
  "r + n \<le> length xs \<Longrightarrow> ring_slice xs r n = take n (drop r xs)"
  by (rule nth_equalityI) auto

lemma ring_slice_wrapped:
  assumes "r < length xs" "length xs < r + n" "n \<le> length xs"
  shows "ring_slice xs r n = drop r xs @ take (n - (length xs - r)) xs"
proof (rule nth_equalityI)
  fix i assume "i < length (ring_slice xs r n)"
  then have i: "i < n" by simp
  with assms mod_once [of r "length xs" i]
  show "ring_slice xs r n ! i = (drop r xs @ take (n - (length xs - r)) xs) ! i"
    by (auto simp: nth_append add.commute)
qed (use assms in auto)

lemma ring_slice_update:
  assumes "n < length xs"
  shows "ring_slice (xs[(r + n) mod length xs := c]) r (Suc n) = ring_slice xs r n @ [c]"
proof (rule nth_equalityI)
  fix i assume "i < length (ring_slice (xs[(r + n) mod length xs := c]) r (Suc n))"
  then consider "i < n" | "i = n" by fastforce
  then show "ring_slice (xs[(r + n) mod length xs := c]) r (Suc n) ! i = (ring_slice xs r n @ [c]) ! i"
  proof cases
    case 1
    with assms have "(r + i) mod length xs \<noteq> (r + n) mod length xs" by (intro add_mod_neq) auto
    with 1 show ?thesis by (simp add: nth_append)
  next
    case 2
    from assms have "(r + n) mod length xs < length xs" by (intro mod_less_divisor) auto
    with 2 show ?thesis by (simp add: nth_append)
  qed
qed simp

section \<open>The operations keep the invariant and implement a queue\<close>

lemma rb_index_wf: "rb_wf b \<Longrightarrow> rb_index b p = Ret (unat p mod unat (alen b))"
  unfolding rb_wf_def rb_index_def by (auto simp: unat_mod_distrib unat_eq_zero)

text \<open>Between the bytes of one write the position may run past the end of the ring.\<close>

definition write_inv :: "ringbuffer \<Rightarrow> bool" where
  "write_inv b \<longleftrightarrow>
     0 < unat (alen b) \<and> unat (alen b) < 2 ^ 63 \<and> length (buffer b) = unat (alen b) \<and>
     unat (rpos b) < unat (alen b) \<and> unat (blen b) \<le> unat (alen b) \<and>
     unat (wpos b) mod unat (alen b) = (unat (rpos b) + unat (blen b)) mod unat (alen b)"

lemma writechar_ok:
  assumes "write_inv b" "unat (blen b) < unat (alen b)" "unat (wpos b) < 2 ^ 64 - 1"
  shows "\<exists>b'. writechar b c = Ret b' \<and> write_inv b' \<and> rb_content b' = rb_content b @ [c] \<and>
    alen b' = alen b \<and> rpos b' = rpos b \<and> unat (blen b') = Suc (unat (blen b)) \<and>
    unat (wpos b') = Suc (unat (wpos b))"
proof -
  have b1: "unat (blen b + 1) = Suc (unat (blen b))"
    using assms by (subst unat_add_small) (auto simp: write_inv_def)
  have w1: "unat (wpos b + 1) = Suc (unat (wpos b))"
    using assms by (subst unat_add_small) auto
  have idx: "rb_index b (wpos b) = Ret ((unat (rpos b) + unat (blen b)) mod length (buffer b))"
    using assms(1) by (auto simp: write_inv_def rb_index_def unat_mod_distrib unat_eq_zero)
  have "Suc (unat (wpos b)) mod unat (alen b) = Suc (unat (rpos b) + unat (blen b)) mod unat (alen b)"
    using assms(1) unfolding write_inv_def by (metis mod_Suc_eq)
  with assms b1 w1 idx show ?thesis
    using ring_slice_update [of "unat (blen b)" "buffer b" "unat (rpos b)" c]
    by (auto simp: writechar_def write_inv_def rb_content_def)
qed

lemma write_loop_ok:
  assumes "write_inv b" "unat (blen b) + length s \<le> unat (alen b)" "unat (wpos b) + length s < 2 ^ 64"
  shows "\<exists>b'. write_loop b s = Ret b' \<and> write_inv b' \<and> rb_content b' = rb_content b @ s \<and>
    alen b' = alen b \<and> rpos b' = rpos b"
  using assms
proof (induction s arbitrary: b)
  case (Cons c s)
  from Cons.prems writechar_ok [of b c] obtain b1 where b1:
    "writechar b c = Ret b1" "write_inv b1" "rb_content b1 = rb_content b @ [c]" "alen b1 = alen b"
    "rpos b1 = rpos b" "unat (blen b1) = Suc (unat (blen b))" "unat (wpos b1) = Suc (unat (wpos b))"
    by auto
  with Cons.IH [of b1] Cons.prems show ?case by auto
qed auto

lemma modpos_write_inv:
  assumes "write_inv b"
  shows "\<exists>b'. modpos b = Ret b' \<and> rb_wf b' \<and> rb_content b' = rb_content b \<and> alen b' = alen b"
proof -
  from assms have a: "alen b \<noteq> 0" and r: "rpos b mod alen b = rpos b"
    by (auto simp: write_inv_def word_less_nat_alt mod_word_less)
  from assms show ?thesis
    by (auto simp: modpos_def a r rb_wf_def rb_content_def write_inv_def unat_mod_distrib)
qed

lemma wf_write_inv: "rb_wf b \<Longrightarrow> write_inv b"
  by (auto simp: rb_wf_def write_inv_def)

text \<open>Advancing the read position, as \<open>rb_read\<close> and \<open>rb_discard\<close> do.\<close>

lemma advance_ok:
  assumes "rb_wf b" "r \<le> blen b"
  shows "\<exists>b'. modpos (b\<lparr>blen := blen b - r, rpos := rpos b + r\<rparr>) = Ret b' \<and> rb_wf b' \<and>
    rb_content b' = drop (unat r) (rb_content b) \<and> alen b' = alen b"
proof -
  from assms(2) have r: "unat r \<le> unat (blen b)" by (simp add: word_le_nat_alt)
  have sum: "unat (rpos b + r) = unat (rpos b) + unat r"
    using assms r by (subst unat_add_small) (auto simp: rb_wf_def)
  have diff: "unat (blen b - r) = unat (blen b) - unat r"
    using assms(2) by (rule unat_sub)
  have w: "wpos b mod alen b = wpos b"
    using assms(1) by (auto simp: rb_wf_def word_less_nat_alt mod_word_less)
  have "((unat (rpos b) + unat r) mod unat (alen b) + (unat (blen b) - unat r)) mod unat (alen b) =
      (unat (rpos b) + unat (blen b)) mod unat (alen b)"
    using r unfolding mod_add_left_eq by simp
  then have end_eq: "((unat (rpos b) + unat r) mod unat (alen b) + unat (blen b) - unat r) mod
      unat (alen b) = (unat (rpos b) + unat (blen b)) mod unat (alen b)"
    using r by simp
  have "unat (wpos b) = (unat (rpos b) + unat (blen b)) mod unat (alen b)" "alen b \<noteq> 0"
    using assms(1) by (auto simp: rb_wf_def)
  with assms(1) r show ?thesis
    by (auto simp: modpos_def rb_wf_def rb_content_def unat_mod_distrib sum diff w end_eq drop_ring_slice)
qed

lemma read_slice:
  assumes "rb_wf b" "r \<le> blen b"
  shows "(if rpos b + r > alen b
           then cbind (mem_slice (buffer b) (unat (rpos b)) (unat (alen b - rpos b))) (\<lambda>s1.
                cbind (mem_slice (buffer b) 0 (unat (r - (alen b - rpos b)))) (\<lambda>s2. Ret (s1 @ s2)))
           else mem_slice (buffer b) (unat (rpos b)) (unat r)) = Ret (take (unat r) (rb_content b))"
proof -
  from assms(2) have r: "unat r \<le> unat (blen b)" by (simp add: word_le_nat_alt)
  have sum: "unat (rpos b + r) = unat (rpos b) + unat r"
    using assms r by (subst unat_add_small) (auto simp: rb_wf_def)
  have gap: "unat (alen b - rpos b) = unat (alen b) - unat (rpos b)"
    using assms(1) by (intro unat_sub) (simp add: rb_wf_def word_le_nat_alt)
  have tk: "take (unat r) (rb_content b) = ring_slice (buffer b) (unat (rpos b)) (unat r)"
    using r by (simp add: rb_content_def take_ring_slice)
  have wf: "length (buffer b) = unat (alen b)" "unat (rpos b) < unat (alen b)"
    "unat (blen b) \<le> unat (alen b)" using assms(1) by (auto simp: rb_wf_def)
  show ?thesis
  proof (cases "rpos b + r > alen b")
    case True
    then have w: "unat (alen b) < unat (rpos b) + unat r" by (simp add: word_less_nat_alt sum)
    have rest: "unat (r - (alen b - rpos b)) = unat r - (unat (alen b) - unat (rpos b))"
      using w by (subst unat_sub) (auto simp: gap word_le_nat_alt)
    from w wf r True show ?thesis
      by (simp add: tk mem_slice_def gap rest ring_slice_wrapped)
  next
    case False
    then have "unat (rpos b) + unat r \<le> unat (alen b)" by (simp add: word_less_nat_alt sum not_less)
    with wf False show ?thesis by (simp add: tk mem_slice_def ring_slice_straight)
  qed
qed


section \<open>Creation\<close>

lemma rb_new_ok:
  assumes "luaL_optinteger H L 1 pagesize = Ret n" "0 < n" "n < 2 ^ 63" "alloc (32 + nat n)"
  shows "\<exists>b. rb_new H pagesize alloc junk p L = Ret ([LUserdata ringbuffer_mt p], b) \<and> rb_wf b \<and> rb_content b = [] \<and>
    unat (alen b) = nat n"
proof -
  have u: "unat (word_of_int n :: size_t) = nat n"
    using assms(2,3) by (simp add: unat_word_of_int)
  have t: "unat (32 + (word_of_int n :: size_t)) = 32 + nat n"
    using assms(2,3) by (subst unat_add_small) (auto simp: u)
  have "(word_of_int n :: size_t) \<noteq> 0" using u assms(2) by (metis unat_0 zero_less_nat_eq less_irrefl)
  then show ?thesis
    using assms by (auto simp: rb_new_def lua_setmetatable_def t u rb_wf_def rb_content_def ring_slice_def header_size_def
        Let_def nat_less_iff)
qed

section \<open>The contract of a bounded byte queue\<close>

datatype queue_op = QWrite "byte list" | QRead nat bool | QDiscard nat

text \<open>The abstract queue: a list of bytes of bounded length.\<close>

fun queue_spec :: "nat \<Rightarrow> queue_op \<Rightarrow> byte list \<Rightarrow> lua_value list \<times> byte list" where
  "queue_spec cap (QWrite s) xs =
     (if length xs + length s \<le> cap then ([LNumber (of_nat (length s))], xs @ s) else ([LNil], xs))"
| "queue_spec cap (QRead n peek) xs =
     (if n \<le> length xs then ([LString (take n xs)], if peek then xs else drop n xs)
      else ([LNil], xs))"
| "queue_spec cap (QDiscard n) xs =
     (if n \<le> length xs then ([LBool True], drop n xs) else ([LBool False], xs))"

fun queue_op_fits :: "queue_op \<Rightarrow> bool" where
  "queue_op_fits (QWrite s) = fits_object s"
| "queue_op_fits (QRead n peek) = (n < 2 ^ 63)"
| "queue_op_fits (QDiscard n) = (n < 2 ^ 63)"

locale bounded_queue =
  fixes invar :: "'q \<Rightarrow> bool"
    and content :: "'q \<Rightarrow> byte list"
    and capacity :: "'q \<Rightarrow> nat"
    and step :: "queue_op \<Rightarrow> 'q \<Rightarrow> (lua_value list \<times> 'q) cres"
  assumes bounded: "invar q \<Longrightarrow> length (content q) \<le> capacity q"
    and step_refines: "invar q \<Longrightarrow> queue_op_fits x \<Longrightarrow>
      \<exists>q'. step x q = Ret (fst (queue_spec (capacity q) x (content q)), q') \<and> invar q' \<and>
        content q' = snd (queue_spec (capacity q) x (content q)) \<and> capacity q' = capacity q"
begin

lemma run_refines:
  assumes "invar q" "\<forall>x \<in> set xs. queue_op_fits x"
  shows "\<exists>q'. run_ops step xs q = Ret (fst (spec_run (queue_spec (capacity q)) xs (content q)), q') \<and>
    invar q' \<and> content q' = snd (spec_run (queue_spec (capacity q)) xs (content q)) \<and>
    capacity q' = capacity q"
proof -
  have "\<exists>q'. run_ops step xs q = Ret (fst (spec_run (queue_spec (capacity q)) xs (content q)), q') \<and>
      (invar q' \<and> capacity q' = capacity q) \<and>
      content q' = snd (spec_run (queue_spec (capacity q)) xs (content q))"
  proof (rule run_ops_simulation [where P = queue_op_fits and I = "\<lambda>p. invar p \<and> capacity p = capacity q"])
    fix x p assume "invar p \<and> capacity p = capacity q" "queue_op_fits x"
    then show "\<exists>q'. step x p = Ret (fst (queue_spec (capacity q) x (content p)), q') \<and>
        (invar q' \<and> capacity q' = capacity q) \<and> content q' = snd (queue_spec (capacity q) x (content p))"
      using step_refines [of p x] by auto
  qed (use assms in auto)
  then show ?thesis by blast
qed

text \<open>First in, first out: what was written in two pieces is read back as one string.\<close>

lemma write_write_read:
  assumes "invar q" "content q = []" "length s + length t \<le> capacity q" "fits_object (s @ t)"
  shows "\<exists>q'. run_ops step [QWrite s, QWrite t, QRead (length s + length t) False] q =
      Ret ([[LNumber (of_nat (length s))], [LNumber (of_nat (length t))], [LString (s @ t)]], q') \<and>
    invar q' \<and> content q' = []"
  using run_refines [of q "[QWrite s, QWrite t, QRead (length s + length t) False]"] assms
  by (auto simp: fits_object_def)

end

text \<open>The ring's methods as queue operations, called on the userdata that holds the ring.\<close>

fun rb_step :: "host \<Rightarrow> queue_op \<Rightarrow> ringbuffer \<Rightarrow> (lua_value list \<times> ringbuffer) cres" where
  "rb_step H (QWrite s) b = rb_write H [LUserdata ringbuffer_mt 0, LString s] b"
| "rb_step H (QRead n peek) b = rb_read H [LUserdata ringbuffer_mt 0, LNumber (of_nat n), LBool peek] b"
| "rb_step H (QDiscard n) b = rb_discard H [LUserdata ringbuffer_mt 0, LNumber (of_nat n)] b"

definition rb_capacity :: "ringbuffer \<Rightarrow> nat" where
  "rb_capacity b = unat (alen b)"

lemma length_rb_content [simp]: "length (rb_content b) = unat (blen b)"
  by (simp add: rb_content_def)

lemma rb_write_refines:
  assumes "rb_wf b" "fits_object s"
  shows "\<exists>b'. rb_step H (QWrite s) b = Ret (fst (queue_spec (rb_capacity b) (QWrite s) (rb_content b)), b') \<and>
    rb_wf b' \<and> rb_content b' = snd (queue_spec (rb_capacity b) (QWrite s) (rb_content b)) \<and>
    rb_capacity b' = rb_capacity b"
proof -
  let ?l = "of_nat (length s) :: size_t"
  have l: "unat ?l = length s" using assms(2) by (simp add: fits_object_def unat_of_nat_small)
  have sum: "unat (?l + blen b) = length s + unat (blen b)"
    using assms by (subst unat_add_small) (auto simp: l rb_wf_def fits_object_def)
  show ?thesis
  proof (cases "unat (blen b) + length s \<le> unat (alen b)")
    case False
    then have "?l + blen b > alen b" by (simp add: word_less_nat_alt sum)
    with False assms(1) show ?thesis by (simp add: rb_write_def lua_api rb_capacity_def Let_def)
  next
    case True
    then have guard: "\<not> ?l + blen b > alen b" by (simp add: word_less_nat_alt sum)
    from assms(1) have "unat (wpos b) < unat (alen b)" "unat (alen b) < 2 ^ 63"
      by (simp_all add: rb_wf_def)
    with True have "unat (wpos b) + length s < 2 ^ 64" by simp
    with write_loop_ok [OF wf_write_inv [OF assms(1)] True] obtain b1 where
      b1: "write_loop b s = Ret b1" "write_inv b1" "rb_content b1 = rb_content b @ s" "alen b1 = alen b"
      by blast
    with modpos_write_inv [of b1] obtain b2 where
      b2: "modpos b1 = Ret b2" "rb_wf b2" "rb_content b2 = rb_content b1" "alen b2 = alen b1" by blast
    have "size_to_integer ?l = int (length s)"
      using assms(2) l by (simp add: size_to_integer_small fits_object_def)
    with guard True b1 b2 show ?thesis
      by (simp add: rb_write_def lua_api rb_capacity_def Let_def)
  qed
qed

lemma count_arg:
  assumes "n < 2 ^ 63"
  shows "luaL_checkinteger H (u # LNumber (of_nat n) # L) 2 = Ret (int n)"
    and "unat (word_of_int (int n) :: size_t) = n"
  using assms by (auto simp: lua_api c_sem unat_of_nat_small)

lemma rb_read_refines:
  assumes "rb_wf b" "n < 2 ^ 63"
  shows "\<exists>b'. rb_step H (QRead n peek) b =
      Ret (fst (queue_spec (rb_capacity b) (QRead n peek) (rb_content b)), b') \<and> rb_wf b' \<and>
    rb_content b' = snd (queue_spec (rb_capacity b) (QRead n peek) (rb_content b)) \<and>
    rb_capacity b' = rb_capacity b"
proof -
  let ?r = "word_of_int (int n) :: size_t"
  note r = count_arg [OF assms(2)]
  show ?thesis
  proof (cases "n \<le> unat (blen b)")
    case False
    then have "?r > blen b" using r(2) by (simp add: word_less_nat_alt)
    with False assms(1) r show ?thesis
      by (simp add: rb_read_def lua_arg_def luaL_checkudata_def Let_def)
  next
    case True
    then have g: "?r \<le> blen b" using r(2) by (simp add: word_le_nat_alt)
    then have g': "\<not> ?r > blen b" by simp
    from advance_ok [OF assms(1) g] obtain b' where
      "modpos (b\<lparr>blen := blen b - ?r, rpos := rpos b + ?r\<rparr>) = Ret b'" "rb_wf b'"
      "rb_content b' = drop (unat ?r) (rb_content b)" "alen b' = alen b" by blast
    with True g' assms(1) r read_slice [OF assms(1) g] show ?thesis
      by (cases peek) (simp_all add: rb_read_def lua_arg_def luaL_checkudata_def Let_def rb_capacity_def)
  qed
qed

lemma rb_discard_refines:
  assumes "rb_wf b" "n < 2 ^ 63"
  shows "\<exists>b'. rb_step H (QDiscard n) b =
      Ret (fst (queue_spec (rb_capacity b) (QDiscard n) (rb_content b)), b') \<and> rb_wf b' \<and>
    rb_content b' = snd (queue_spec (rb_capacity b) (QDiscard n) (rb_content b)) \<and>
    rb_capacity b' = rb_capacity b"
proof -
  let ?r = "word_of_int (int n) :: size_t"
  note r = count_arg [OF assms(2)]
  show ?thesis
  proof (cases "n \<le> unat (blen b)")
    case False
    then have "?r > blen b" using r(2) by (simp add: word_less_nat_alt)
    with False assms(1) r show ?thesis
      by (simp add: rb_discard_def lua_arg_def luaL_checkudata_def Let_def)
  next
    case True
    then have g: "?r \<le> blen b" using r(2) by (simp add: word_le_nat_alt)
    then have g': "\<not> ?r > blen b" by simp
    from advance_ok [OF assms(1) g] obtain b' where
      "modpos (b\<lparr>blen := blen b - ?r, rpos := rpos b + ?r\<rparr>) = Ret b'" "rb_wf b'"
      "rb_content b' = drop (unat ?r) (rb_content b)" "alen b' = alen b" by blast
    with True g' assms(1) r show ?thesis
      by (simp add: rb_discard_def lua_arg_def luaL_checkudata_def Let_def rb_capacity_def)
  qed
qed

interpretation ring: bounded_queue rb_wf rb_content rb_capacity "rb_step H" for H
proof unfold_locales
  fix b assume "rb_wf b"
  then show "length (rb_content b) \<le> rb_capacity b" by (simp add: rb_wf_def rb_capacity_def)
next
  fix b x assume "rb_wf b" "queue_op_fits x"
  then show "\<exists>b'. rb_step H x b = Ret (fst (queue_spec (rb_capacity b) x (rb_content b)), b') \<and> rb_wf b' \<and>
      rb_content b' = snd (queue_spec (rb_capacity b) x (rb_content b)) \<and> rb_capacity b' = rb_capacity b"
    by (cases x) (auto dest: rb_write_refines rb_read_refines rb_discard_refines simp del: rb_step.simps queue_spec.simps)
qed

end
