(* ===== verification/RingbufferSearch.thy ===== *)
theory RingbufferSearch
  imports Ringbuffer
begin

text \<open>
  Searching in a ring (\<open>find\<close>, \<open>rb_find\<close>, \<open>rb_readuntil\<close> of \<open>util-src/ringbuffer.c\<close>) against the
  first occurrence of the needle in the queued bytes, the inputs where the search goes wrong, and
  the properties of the ring buffer as a whole.
\<close>

section \<open>Reference search\<close>

definition occurs_at :: "'a list \<Rightarrow> 'a list \<Rightarrow> nat \<Rightarrow> bool" where
  "occurs_at xs s i \<longleftrightarrow> i + length s \<le> length xs \<and> take (length s) (drop i xs) = s"

definition first_occurrence :: "'a list \<Rightarrow> 'a list \<Rightarrow> nat option" where
  "first_occurrence xs s = List.find (occurs_at xs s) [0..<Suc (length xs)]"

lemma rb_content_nth:
  "rb_wf b \<Longrightarrow> i < unat (blen b) \<Longrightarrow>
   rb_content b ! i = buffer b ! ((unat (rpos b) + i) mod unat (alen b))"
  by (simp add: rb_content_def rb_wf_def)

lemma unat_pos_sum:
  assumes "rb_wf b" "unat i + unat j \<le> unat (blen b)"
  shows "unat (rpos b + i + j) = unat (rpos b) + unat i + unat j"
    "unat (rpos b + i) = unat (rpos b) + unat i"
proof -
  have lim: "unat (rpos b) + unat i + unat j < 2 ^ 64"
    using assms by (auto simp: rb_wf_def)
  then show s: "unat (rpos b + i) = unat (rpos b) + unat i"
    by (intro unat_add_small) auto
  from lim s show "unat (rpos b + i + j) = unat (rpos b) + unat i + unat j"
    by (subst unat_add_small) auto
qed

lemma find_rest_spec:
  assumes "rb_wf b" "unat i + unat j + length cs \<le> unat (blen b)"
  shows "find_rest b i cs j = Ret (take (length cs) (drop (unat i + unat j) (rb_content b)) = cs)"
  using assms(2)
proof (induction cs arbitrary: j)
  case (Cons c cs)
  have lt: "unat i + unat j < unat (blen b)" using Cons.prems by simp
  then have dr: "drop (unat i + unat j) (rb_content b) =
      rb_content b ! (unat i + unat j) # drop (Suc (unat i + unat j)) (rb_content b)"
    by (simp add: Cons_nth_drop_Suc)
  have at: "rb_index b (rpos b + i + j) = Ret ((unat (rpos b) + (unat i + unat j)) mod unat (alen b))"
    unfolding rb_index_wf [OF assms(1)] unat_pos_sum(1) [OF assms(1) less_imp_le [OF lt]]
    by (simp add: add.assoc)
  have "unat (blen b) < 2 ^ 63" using assms(1) by (auto simp: rb_wf_def)
  then have j1: "unat (j + 1) = Suc (unat j)" using lt by (subst unat_add_small) auto
  with Cons lt show ?case
    by (simp add: at dr rb_content_nth [OF assms(1) lt])
qed simp

lemma find_at_spec:
  assumes "rb_wf b" "s \<noteq> []" "unat i + length s \<le> unat (blen b)"
  shows "find_at b s i = Ret (occurs_at (rb_content b) s (unat i))"
proof -
  obtain c cs where s: "s = c # cs" using assms(2) by (cases s) auto
  have lt: "unat i < unat (blen b)" using assms(3) s by simp
  then have dr: "drop (unat i) (rb_content b) = rb_content b ! unat i # drop (Suc (unat i)) (rb_content b)"
    by (simp add: Cons_nth_drop_Suc)
  have at: "rb_index b (rpos b + i) = Ret ((unat (rpos b) + unat i) mod unat (alen b))"
    using lt assms(1) unat_pos_sum(2) [OF assms(1), of i 0] by (simp add: rb_index_wf)
  from find_rest_spec [OF assms(1), of i 1 cs] assms(3) s
  have "find_rest b i cs 1 = Ret (take (length cs) (drop (Suc (unat i)) (rb_content b)) = cs)" by simp
  with s assms(3) show ?thesis
    by (auto simp: find_at_def at occurs_at_def dr rb_content_nth [OF assms(1) lt])
qed

definition find_result :: "nat option \<Rightarrow> nat \<Rightarrow> int" where
  "find_result p l = (case p of Some i \<Rightarrow> int (i + l) | None \<Rightarrow> 0)"

lemma find_loop_spec:
  assumes "rb_wf b" "s \<noteq> []" "length s \<le> unat (blen b)" "unat (alen b) < 2 ^ 31"
    and "n = Suc (unat (blen b) - length s) - unat i" "unat i \<le> Suc (unat (blen b) - length s)"
  shows "find_loop b s i = Some (Ret (find_result
    (List.find (occurs_at (rb_content b) s) [unat i..<Suc (unat (blen b) - length s)]) (length s)))"
  using assms(5,6)
proof (induction n arbitrary: i)
  let ?l = "of_nat (length s) :: size_t"
  have small: "unat (blen b) < 2 ^ 31" using assms(1,4) by (auto simp: rb_wf_def)
  have l: "unat ?l = length s" using assms(3) small by (intro unat_of_nat_small) auto
  have bnd: "unat (blen b - ?l) = unat (blen b) - length s"
    using assms(3) by (subst unat_sub) (auto simp: l word_le_nat_alt)
  note facts = small l bnd
  {
    case 0
    then have "\<not> i \<le> blen b - ?l" by (simp add: word_le_nat_alt facts)
    with 0 show ?case by (subst find_loop.simps) (simp add: find_result_def)
  next
    case (Suc n)
    then have i: "unat i \<le> unat (blen b) - length s" by simp
    then have le: "i \<le> blen b - ?l" by (simp add: word_le_nat_alt facts)
    have at: "find_at b s i = Ret (occurs_at (rb_content b) s (unat i))"
      using i assms by (intro find_at_spec) auto
    have i1: "unat (i + 1) = Suc (unat i)" using i facts by (subst unat_add_small) auto
    have il: "unat (i + ?l) = unat i + length s" using i facts assms(3) by (subst unat_add_small) auto
    have "uint (i + ?l) = int (unat i + length s)" by (metis il uint_nat)
    moreover have "unat i + length s < 2 ^ 31" using i small assms(3) by simp
    ultimately have "cast_int (uint (i + ?l)) = int (unat i + length s)"
      by (simp only: cast_int_of_nat)
    moreover have "[unat i..<Suc (unat (blen b) - length s)] =
        unat i # [Suc (unat i)..<Suc (unat (blen b) - length s)]"
      using i by (intro upt_conv_Cons) simp
    moreover have "find_loop b s (i + 1) = Some (Ret (find_result
        (List.find (occurs_at (rb_content b) s) [Suc (unat i)..<Suc (unat (blen b) - length s)]) (length s)))"
      using Suc i1 by (subst Suc.IH) auto
    ultimately show ?case
      by (subst find_loop.simps) (simp add: le at find_result_def)
  }
qed

lemma find_append:
  "List.find p (xs @ ys) = (case List.find p xs of Some x \<Rightarrow> Some x | None \<Rightarrow> List.find p ys)"
  by (induction xs) auto

lemma find_upto:
  assumes "\<And>i. p i \<Longrightarrow> i < k" "k \<le> n"
  shows "List.find p [0..<n] = List.find p [0..<k]"
proof -
  have "[0..<n] = [0..<k] @ [k..<n]" using assms(2) by (metis le0 le_Suc_ex upt_add_eq_append)
  moreover have "List.find p [k..<n] = None" using assms(1) by (fastforce simp: find_None_iff)
  ultimately show ?thesis by (auto simp: find_append split: option.splits)
qed


lemma rb_positions_differ:
  assumes "rb_wf b" "0 < unat (blen b)" "unat (blen b) < unat (alen b)"
  shows "rpos b \<noteq> wpos b"
proof
  assume "rpos b = wpos b"
  then have "(unat (rpos b) + 0) mod unat (alen b) = (unat (rpos b) + unat (blen b)) mod unat (alen b)"
    using assms(1) by (simp add: rb_wf_def)
  moreover have "(unat (rpos b) + 0) mod unat (alen b) \<noteq> (unat (rpos b) + unat (blen b)) mod unat (alen b)"
    using assms(2,3) by (intro add_mod_neq) auto
  ultimately show False by contradiction
qed

lemma find_correct:
  assumes "rb_wf b" "s \<noteq> []" "length s \<le> unat (blen b) \<or> blen b = 0"
    "unat (blen b) < unat (alen b)" "unat (alen b) < 2 ^ 31"
  shows "find b s = Some (Ret (find_result (first_occurrence (rb_content b) s) (length s)))"
proof (cases "blen b = 0")
  case True
  then have "first_occurrence (rb_content b) s = None"
    using assms(2) by (simp add: first_occurrence_def occurs_at_def)
  moreover have "rpos b = wpos b"
    using True assms(1) by (auto simp: rb_wf_def word_unat_eq_iff)
  ultimately show ?thesis by (simp add: find_def find_result_def)
next
  case False
  let ?k = "Suc (unat (blen b) - length s)"
  from False assms(3) have len: "length s \<le> unat (blen b)" by simp
  have "0 < unat (blen b)" using False by (simp add: unat_gt_0)
  then have "rpos b \<noteq> wpos b" using assms by (intro rb_positions_differ)
  moreover have "List.find (occurs_at (rb_content b) s) [0..<Suc (unat (blen b))] =
      List.find (occurs_at (rb_content b) s) [0..<?k]"
    by (rule find_upto) (use len assms(2) in \<open>auto simp: occurs_at_def\<close>)
  moreover have "find_loop b s 0 =
      Some (Ret (find_result (List.find (occurs_at (rb_content b) s) [0..<?k]) (length s)))"
    using find_loop_spec [OF assms(1,2) len assms(5), of ?k 0] by simp
  ultimately show ?thesis by (simp add: find_def first_occurrence_def)
qed

text \<open>A full ring has equal positions, which \<open>find\<close> takes for an empty one.\<close>

lemma find_full:
  assumes "rb_wf b" "blen b = alen b"
  shows "find b s = Some (Ret 0)"
proof -
  have "rpos b = wpos b" using assms by (auto simp: rb_wf_def word_unat_eq_iff)
  then show ?thesis by (simp add: find_def)
qed

lemma find_loop_diverges:
  assumes bound: "blen b - of_nat (length s) = - 1"
    and never: "\<And>i. find_at b s i = Ret False"
  shows "find_loop b s i = None"
proof (cases "find_loop b s i")
  case (Some r)
  have "b' = b \<and> s' = s \<longrightarrow> False" if "find_loop b' s' i' = Some r" for b' s' i'
  proof (rule find_loop.raw_induct [where P = "\<lambda>b' s' i' r. b' = b \<and> s' = s \<longrightarrow> False", OF _ that])
    fix f :: "ringbuffer \<Rightarrow> byte list \<Rightarrow> size_t \<Rightarrow> int cres option" and b' s' i' r'
    assume IH: "\<And>b' s' i' r. f b' s' i' = Some r \<Longrightarrow> b' = b \<and> s' = s \<longrightarrow> False"
    assume eq: "(if i' \<le> blen b' - of_nat (length s')
     then (case find_at b' s' i' of
             Ret m \<Rightarrow>
               if m then Some (Ret (cast_int (uint (i' + of_nat (length s')))))
               else f b' s' (i' + 1)
           | Raise e \<Rightarrow> Some (Raise e)
           | Undef u \<Rightarrow> Some (Undef u))
     else Some (Ret 0)) = Some r'"
    show "b' = b \<and> s' = s \<longrightarrow> False"
    proof
      assume "b' = b \<and> s' = s"
      with eq bound never have "f b s (i' + 1) = Some r'" by simp
      then show False using IH by blast
    qed
  qed
  with Some show ?thesis by blast
qed simp

lemma find_at_no_first_byte:
  assumes "rb_wf b" "c \<notin> set (buffer b)"
  shows "find_at b (c # cs) i = Ret False"
proof -
  have "unat (rpos b + i) mod unat (alen b) < length (buffer b)"
    using assms(1) by (auto simp: rb_wf_def)
  then have "buffer b ! (unat (rpos b + i) mod unat (alen b)) \<noteq> c" using assms(2) nth_mem by metis
  then show ?thesis by (simp add: find_at_def rb_index_wf [OF assms(1)])
qed

lemma find_long_needle_diverges:
  assumes "rb_wf b" "0 < unat (blen b)" "unat (blen b) < unat (alen b)"
    and "length cs = unat (blen b)" "c \<notin> set (buffer b)"
  shows "find b (c # cs) = None"
proof -
  have "of_nat (length (c # cs)) = blen b + (1 :: size_t)"
    using assms(4) by (simp add: add.commute)
  then have "blen b - of_nat (length (c # cs)) = - 1" by simp
  moreover have "rpos b \<noteq> wpos b" using assms(1-3) by (rule rb_positions_differ)
  ultimately show ?thesis
    using find_loop_diverges find_at_no_first_byte [OF assms(1,5)] by (simp add: find_def)
qed

section \<open>Properties\<close>

text \<open>C1: a ring made by \<open>rb_new\<close> with a positive size behaves, under every sequence of writes,
  reads, peeks and discards, as a bounded byte queue of that size: each call returns what the
  queue returns, none has undefined behaviour, and the well-formedness invariant holds after.\<close>

theorem ringbuffer_is_queue:
  assumes "luaL_optinteger H L 1 pagesize = Ret n" "0 < n" "n < 2 ^ 63" "alloc (32 + nat n)"
    and "\<forall>x \<in> set xs. queue_op_fits x"
  shows "\<exists>b b'. rb_new H pagesize alloc junk p L = Ret ([LUserdata ringbuffer_mt p], b) \<and>
    run_ops (rb_step H) xs b = Ret (fst (spec_run (queue_spec (nat n)) xs []), b') \<and>
    rb_wf b' \<and> rb_content b' = snd (spec_run (queue_spec (nat n)) xs [])"
proof -
  from rb_new_ok [where alloc = alloc and junk = junk and p = p, OF assms(1-4)] obtain b where
    b: "rb_new H pagesize alloc junk p L = Ret ([LUserdata ringbuffer_mt p], b)" "rb_wf b" "rb_content b = []" "rb_capacity b = nat n"
    by (auto simp: rb_capacity_def)
  with ring.run_refines [OF b(2) assms(5), of H] show ?thesis by auto
qed

theorem ringbuffer_is_queue_witness:
  "\<exists>b b'. rb_new plain_host 4096 (\<lambda>_. True) (\<lambda>_. 0) 7 [LNumber 4] = Ret ([LUserdata ringbuffer_mt 7], b) \<and>
    run_ops (rb_step plain_host) [QWrite [1, 2, 3], QRead 2 False, QWrite [4, 5], QWrite [6, 7], QRead 3 True] b =
      Ret ([[LNumber 3], [LString [1, 2]], [LNumber 2], [LNil], [LString [3, 4, 5]]], b') \<and>
    rb_wf b' \<and> rb_content b' = [3, 4, 5]"
  using ringbuffer_is_queue [of plain_host "[LNumber 4]" 4096 4 "\<lambda>_. True"
      "[QWrite [1, 2, 3], QRead 2 False, QWrite [4, 5], QWrite [6, 7], QRead 3 True]" "\<lambda>_. 0" 7]
  by (simp add: lua_api c_sem plain_host_def fits_object_def)

text \<open>C7: on a ring that is not full and holds at least as many bytes as the needle has (or none
  at all), \<open>find\<close> returns, and the result is the end of the first occurrence of the needle in the
  queued bytes, or 0 when there is none.\<close>

theorem ringbuffer_find:
  assumes "rb_wf b" "s \<noteq> []" "length s \<le> unat (blen b) \<or> blen b = 0"
    "unat (blen b) < unat (alen b)" "unat (alen b) < 2 ^ 31"
  shows "find b s = Some (Ret (case first_occurrence (rb_content b) s of
      Some i \<Rightarrow> int (i + length s) | None \<Rightarrow> 0))"
  using find_correct [OF assms] by (simp add: find_result_def)

definition example_ring :: ringbuffer where
  "example_ring = \<lparr>rpos = 2, wpos = 1, alen = 4, blen = 3, buffer = [30, 99, 10, 20]\<rparr>"

lemma example_ring_wf: "rb_wf example_ring" "rb_content example_ring = [10, 20, 30]"
  by (simp_all add: rb_wf_def rb_content_def ring_slice_def example_ring_def upt_rec)

lemma first_occurrence_example: "first_occurrence [10, 20, 30 :: byte] [20, 30] = Some 1"
  by (simp add: first_occurrence_def occurs_at_def upt_rec)

theorem ringbuffer_find_witness: "find example_ring [20, 30] = Some (Ret 3)"
  using ringbuffer_find [OF example_ring_wf(1), of "[20, 30]"]
  by (simp add: example_ring_wf(2) first_occurrence_example) (simp add: example_ring_def)


text \<open>C8: under the same conditions \<open>rb_readuntil\<close> takes the queued bytes up to and including the
  first occurrence of the needle out of the ring; without an occurrence it returns nothing and
  leaves the ring as it is.\<close>

theorem ringbuffer_readuntil:
  assumes "rb_wf b" "s \<noteq> []" "length s \<le> unat (blen b) \<or> blen b = 0"
    "unat (blen b) < unat (alen b)" "unat (alen b) < 2 ^ 31"
  shows "case first_occurrence (rb_content b) s of
      Some i \<Rightarrow> \<exists>b'. rb_readuntil H [LUserdata ringbuffer_mt p, LString s] b =
          Some (Ret ([LString (take (i + length s) (rb_content b))], b')) \<and> rb_wf b' \<and>
          rb_content b' = drop (i + length s) (rb_content b)
    | None \<Rightarrow> rb_readuntil H [LUserdata ringbuffer_mt p, LString s] b = Some (Ret ([], b))"
proof (cases "first_occurrence (rb_content b) s")
  case None
  with find_correct [OF assms] show ?thesis
    by (simp add: find_result_def rb_readuntil_def lua_api c_sem)
next
  case (Some i)
  then have occ: "i + length s \<le> unat (blen b)"
    by (auto simp: first_occurrence_def find_Some_iff occurs_at_def)
  let ?n = "i + length s"
  have n: "?n < 2 ^ 31" "0 < ?n" using occ assms(1,2,5) by (auto simp: rb_wf_def)
  then have u: "unat (word_of_int (int ?n) :: size_t) = ?n" by (subst unat_word_of_int) auto
  then have m: "(word_of_int (int ?n) :: size_t) > 0" "size_to_integer (word_of_int (int ?n)) = int ?n"
    using n by (auto simp: size_to_integer_small word_less_nat_alt simp del: of_int_of_nat_eq of_nat_add)
  have "rb_readuntil H [LUserdata ringbuffer_mt p, LString s] b =
      Some (rb_read H [LUserdata ringbuffer_mt p, LNumber (of_nat ?n)] b)"
    using find_correct [OF assms] Some m
    by (simp add: find_result_def rb_readuntil_def lua_api c_sem)
  also have "rb_read H [LUserdata ringbuffer_mt p, LNumber (of_nat ?n)] b = rb_step H (QRead ?n False) b"
    by (simp add: rb_read_def lua_api c_sem)
  finally show ?thesis
    using rb_read_refines [OF assms(1), of ?n H False] n occ Some by auto
qed

theorem ringbuffer_readuntil_witness:
  "\<exists>b'. rb_readuntil plain_host [LUserdata ringbuffer_mt 0, LString [20]] example_ring =
      Some (Ret ([LString [10, 20]], b')) \<and> rb_wf b' \<and> rb_content b' = [30]"
proof -
  have "first_occurrence (rb_content example_ring) [20] = Some 1"
    by (simp add: example_ring_wf(2) first_occurrence_def occurs_at_def upt_rec)
  with ringbuffer_readuntil [OF example_ring_wf(1), of "[20]" plain_host 0] show ?thesis
    by (simp add: example_ring_wf(2)) (simp add: example_ring_def)
qed

text \<open>C26: a full ring is searched as if it were empty: whatever the needle, \<open>rb_find\<close> returns
  nothing and \<open>rb_readuntil\<close> reads nothing, also when the queued bytes contain the needle.\<close>

theorem ringbuffer_full_not_searched:
  assumes "rb_wf b" "blen b = alen b"
  shows "rb_find H [LUserdata ringbuffer_mt p, LString s] b = Some (Ret ([], b)) \<and>
    rb_readuntil H [LUserdata ringbuffer_mt p, LString s] b = Some (Ret ([], b))"
  using find_full [OF assms] by (simp add: rb_find_def rb_readuntil_def lua_api c_sem)

definition full_ring :: ringbuffer where
  "full_ring = \<lparr>rpos = 2, wpos = 2, alen = 4, blen = 4, buffer = [30, 40, 10, 20]\<rparr>"

theorem ringbuffer_full_not_searched_witness:
  "rb_content full_ring = [10, 20, 30, 40] \<and>
   rb_find plain_host [LUserdata ringbuffer_mt 0, LString [20, 30]] full_ring = Some (Ret ([], full_ring)) \<and>
   rb_readuntil plain_host [LUserdata ringbuffer_mt 0, LString [20, 30]] full_ring = Some (Ret ([], full_ring))"
proof -
  have "rb_wf full_ring" "blen full_ring = alen full_ring"
    by (simp_all add: full_ring_def rb_wf_def)
  from ringbuffer_full_not_searched [OF this, of plain_host 0 "[20, 30]"] show ?thesis
    by (simp add: full_ring_def rb_content_def ring_slice_def upt_rec)
qed

text \<open>C25: the bound \<open>b->blen - l\<close> of the search wraps when the needle is longer than the queued
  bytes: with one byte more, and a first byte that is nowhere in the allocation, the search
  never returns.\<close>

theorem ringbuffer_find_diverges:
  assumes "rb_wf b" "0 < unat (blen b)" "unat (blen b) < unat (alen b)"
    and "length cs = unat (blen b)" "c \<notin> set (buffer b)"
  shows "rb_find H [LUserdata ringbuffer_mt p, LString (c # cs)] b = None"
  using find_long_needle_diverges [OF assms] by (simp add: rb_find_def lua_api c_sem)

theorem ringbuffer_find_diverges_witness:
  "rb_find plain_host [LUserdata ringbuffer_mt 0, LString [1, 2, 3, 4]] example_ring = None"
  by (rule ringbuffer_find_diverges [OF example_ring_wf(1)]) (simp_all add: example_ring_def)

text \<open>\<open>rb_new\<close> takes a size of 0, and then writing even the empty string divides by zero; a
  negative size down to -32 wraps in the allocation's size, and storing the header runs past the
  allocation.\<close>

theorem ringbuffer_bad_size:
  assumes "n \<le> 0" "- 32 \<le> n" "\<And>k. alloc k"
  shows "case rb_new H pagesize alloc junk p [LNumber (of_int n)] of
      Ret (r, b) \<Rightarrow> n = 0 \<and> rb_write H [LUserdata ringbuffer_mt p, LString []] b = Undef DivByZero
    | Raise e \<Rightarrow> False
    | Undef u \<Rightarrow> n < 0 \<and> u = OutOfBounds"
proof (cases "n = 0")
  case True
  then show ?thesis using assms(3)
    by (simp add: rb_new_def lua_api c_sem header_size_def rb_write_def modpos_def)
next
  case False
  have "32 + (word_of_int n :: size_t) = word_of_int (32 + n)" by simp
  then have "unat (32 + (word_of_int n :: size_t)) = nat (32 + n)"
    using assms(1,2) False by (simp only:) (rule unat_word_of_int, auto)
  then show ?thesis using assms False
    by (simp add: rb_new_def lua_api c_sem header_size_def Let_def)
qed

theorem ringbuffer_bad_size_witness:
  "rb_new plain_host 4096 (\<lambda>_. True) (\<lambda>_. 0) 0 [LNumber (of_int (- 1))] = Undef OutOfBounds"
  using ringbuffer_bad_size [where n = "- 1" and alloc = "\<lambda>_. True" and H = plain_host and
      pagesize = 4096 and junk = "\<lambda>_. 0" and p = 0]
  by (auto split: cres.splits)

end
