(* ===== verification/Base64.thy ===== *)
theory Base64
  imports LuaApi
begin

text \<open>
  The base64 part of \<open>util-src/encodings.c\<close>. The encoder packs three bytes into one integer and
  takes it apart by division; the reference is the bit-level description of RFC 4648. The decoder
  reads the NUL-terminated string byte by byte with up to three pending sextets.
\<close>

section \<open>The encoder\<close>

definition code64 :: "byte list" where
  "code64 = bs ''ABCDEFGHIJKLMNOPQRSTUVWXYZabcdefghijklmnopqrstuvwxyz0123456789+/''"

definition equals_sign :: byte where
  "equals_sign = 61"

text \<open>The loop that fills \<open>s[3]\<close> down to \<open>s[0]\<close> from the least significant sextet.\<close>

fun fill_sextets :: "nat \<Rightarrow> nat \<Rightarrow> byte list \<Rightarrow> byte list" where
  "fill_sextets 0 tuple s = s"
| "fill_sextets (Suc k) tuple s = fill_sextets k (tuple div 64) (s[k := code64 ! (tuple mod 64)])"

text \<open>The integer is an \<open>unsigned long\<close>; three 32-bit arguments cannot overflow it.\<close>

definition base64_encode :: "nat \<Rightarrow> nat \<Rightarrow> nat \<Rightarrow> nat \<Rightarrow> byte list" where
  "base64_encode c1 c2 c3 n =
    (let tuple = c3 + 256 * (c2 + 256 * c1);
         s = fill_sextets 4 tuple (replicate 4 0)
     in foldl (\<lambda>s i. s[i := equals_sign]) s [n + 1..<4])"

text \<open>The loop over whole groups: \<open>n\<close> rounds from the pointer \<open>s\<close>; it returns the pointer after
  the last group. Running off the string is out of bounds.\<close>

fun encode_groups :: "nat \<Rightarrow> byte list \<Rightarrow> byte list \<Rightarrow> (byte list \<times> byte list) cres" where
  "encode_groups 0 s out = Ret (s, out)"
| "encode_groups (Suc n) (a # b # c # s) out =
     encode_groups n s (out @ base64_encode (unat a) (unat b) (unat c) 3)"
| "encode_groups (Suc n) s out = Undef OutOfBounds"

text \<open>The number of groups is an \<open>int\<close>; a negative count runs off the string.\<close>

definition Lbase64_encode :: "host \<Rightarrow> lua_args \<Rightarrow> lua_value list cres" where
  "Lbase64_encode H L =
    cbind (luaL_checklstring H L 1) (\<lambda>s.
      let l = length s; n = cast_int (int (l div 3)) in
      cbind (if n < 0 then Undef OutOfBounds else encode_groups (nat n) s []) (\<lambda>(p, out).
        if l mod 3 = 1 then
          cbind (mem_at p 0) (\<lambda>a. Ret [LString (out @ base64_encode (unat a) 0 0 1)])
        else if l mod 3 = 2 then
          cbind (mem_at p 0) (\<lambda>a. cbind (mem_at p 1) (\<lambda>b.
            Ret [LString (out @ base64_encode (unat a) (unat b) 0 2)]))
        else Ret [LString out]))"

section \<open>The decoder\<close>

text \<open>\<open>strchr(code, c) - code\<close>\<close>

fun index_from :: "byte list \<Rightarrow> byte \<Rightarrow> nat \<Rightarrow> nat option" where
  "index_from [] c k = None"
| "index_from (x # xs) c k = (if x = c then Some k else index_from xs c (Suc k))"

definition strchr_code :: "byte \<Rightarrow> nat option" where
  "strchr_code c = index_from code64 c 0"

definition base64_decode :: "nat \<Rightarrow> nat \<Rightarrow> nat \<Rightarrow> nat \<Rightarrow> nat \<Rightarrow> byte list" where
  "base64_decode c1 c2 c3 c4 n =
    (let tuple = c4 + 64 * (c3 + 64 * (c2 + 64 * c1))
     in take (n - 1) [of_nat (tuple div 65536), of_nat (tuple div 256), of_nat tuple])"

text \<open>The bytes that are skipped: line feed, carriage return, tab, space, form feed, backspace.\<close>

definition base64_skip :: "byte list" where
  "base64_skip = [10, 13, 9, 32, 12, 8]"

text \<open>A padding sign flushes the pending sextets.\<close>

fun flush_pending :: "nat list \<Rightarrow> byte list" where
  "flush_pending [a] = base64_decode a 0 0 0 1"
| "flush_pending [a, b] = base64_decode a b 0 0 2"
| "flush_pending [a, b, c] = base64_decode a b c 0 3"
| "flush_pending t = []"

text \<open>The loop over the bytes, from pending sextets \<open>t\<close> (there are \<open>n = length t\<close> of them) and
  the output so far; \<open>None\<close> is the return without a result on a byte outside the alphabet.\<close>

fun decode_loop :: "nat list \<Rightarrow> byte list \<Rightarrow> byte list \<Rightarrow> byte list option cres" where
  "decode_loop t [] out = Undef OutOfBounds"
| "decode_loop t (c # s) out =
    (if c = equals_sign then decode_loop [] s (out @ flush_pending t)
     else if c = 0 then Ret (Some out)
     else if c \<in> set base64_skip then decode_loop t s out
     else (case strchr_code c of
         None \<Rightarrow> Ret None
       | Some k \<Rightarrow>
           let t' = t @ [k] in
           if length t' = 4
           then decode_loop [] s (out @ base64_decode (t' ! 0) (t' ! 1) (t' ! 2) (t' ! 3) 4)
           else decode_loop t' s out))"

definition Lbase64_decode :: "host \<Rightarrow> lua_args \<Rightarrow> lua_value list cres" where
  "Lbase64_decode H L =
    cbind (luaL_checklstring H L 1) (\<lambda>s.
    cbind (decode_loop [] (s @ [0]) []) (\<lambda>r.
      case r of None \<Rightarrow> Ret [] | Some out \<Rightarrow> Ret [LString out]))"

section \<open>Bits\<close>

text \<open>The reference works on lists of bits, most significant first.\<close>

definition byte_bits :: "byte \<Rightarrow> bool list" where
  "byte_bits b = map (bit b) [7, 6, 5, 4, 3, 2, 1, 0]"

fun bits_val :: "bool list \<Rightarrow> nat" where
  "bits_val [] = 0"
| "bits_val (x # xs) = of_bool x * 2 ^ length xs + bits_val xs"

lemma bits_val_append: "bits_val (xs @ ys) = bits_val xs * 2 ^ length ys + bits_val ys"
  by (induction xs) (auto simp: power_add algebra_simps)

lemma bits_val_less: "bits_val xs < 2 ^ length xs"
  by (induction xs) (auto simp: of_bool_def)

lemma length_byte_bits [simp]: "length (byte_bits b) = 8"
  by (simp add: byte_bits_def)

lemma byte_bits_0: "byte_bits 0 = replicate 8 False"
  by (simp add: byte_bits_def numeral_eq_Suc)

lemma bits_val_byte_bits: "bits_val (byte_bits b) = unat b"
proof -
  have "unat b < 2 ^ 8" using unsigned_less [of b, where ?'a = nat] by simp
  then have "take_bit 8 (unat b) = unat b" by (simp add: take_bit_eq_mod)
  moreover have "horner_sum of_bool 2 (map (bit (unat b)) [0..<8]) = take_bit 8 (unat b)"
    by (rule horner_sum_bit_eq_take_bit)
  moreover have "bit (unat b) i = bit b i" for i by (simp add: bit_unsigned_iff)
  moreover have "[0..<8] = [0, 1, 2, 3, 4, 5, 6, 7 :: nat]" by (simp add: upt_rec)
  ultimately show ?thesis by (simp add: byte_bits_def)
qed

fun chunks6 :: "bool list \<Rightarrow> bool list list" where
  "chunks6 (a # b # c # d # e # f # xs) = [a, b, c, d, e, f] # chunks6 xs"
| "chunks6 xs = []"

text \<open>RFC 4648, section 4: the bits of the input, filled with zero bits to whole sextets, each
  sextet a letter of the alphabet, filled with padding signs to whole groups of four.\<close>

definition rfc4648_encode :: "byte list \<Rightarrow> byte list" where
  "rfc4648_encode s =
    (let bits = concat (map byte_bits s);
         filled = bits @ replicate ((6 - length bits mod 6) mod 6) False;
         letters = map (\<lambda>x. code64 ! bits_val x) (chunks6 filled)
     in letters @ replicate ((4 - length letters mod 4) mod 4) equals_sign)"

section \<open>The encoder computes the reference\<close>

lemma bits_val_split6:
  assumes "length y = 6"
  shows "bits_val (x @ y) mod 64 = bits_val y" "bits_val (x @ y) div 64 = bits_val x"
  using bits_val_less [of y] assms by (simp_all add: bits_val_append)

lemma bits_val_sextet: "length y = 6 \<Longrightarrow> bits_val y < 64"
  using bits_val_less [of y] by simp

lemma fill_sextets_4:
  "fill_sextets 4 n (replicate 4 0) = [code64 ! (n div 64 div 64 div 64 mod 64),
    code64 ! (n div 64 div 64 mod 64), code64 ! (n div 64 mod 64), code64 ! (n mod 64)]"
proof -
  have four: "4 = Suc (Suc (Suc (Suc 0)))" by simp
  show ?thesis unfolding four by simp
qed

lemma fill_sextets_bits:
  assumes "length c1 = 6" "length c2 = 6" "length c3 = 6" "length c4 = 6"
  shows "fill_sextets 4 (bits_val (c1 @ c2 @ c3 @ c4)) (replicate 4 0) =
    [code64 ! bits_val c1, code64 ! bits_val c2, code64 ! bits_val c3, code64 ! bits_val c4]"
proof -
  note s4 = bits_val_split6 [OF assms(4), of "c1 @ c2 @ c3", unfolded append_assoc]
  note s3 = bits_val_split6 [OF assms(3), of "c1 @ c2", unfolded append_assoc]
  note s2 = bits_val_split6 [OF assms(2), of c1]
  have s1: "bits_val c1 mod 64 = bits_val c1" using bits_val_sextet [OF assms(1)] by simp
  show ?thesis unfolding fill_sextets_4 s4 s3 s2 s1 ..
qed

lemma tuple_bits:
  "unat c + 256 * (unat b + 256 * unat a) = bits_val (byte_bits a @ byte_bits b @ byte_bits c)"
  by (simp add: bits_val_append bits_val_byte_bits)

lemma byte_bits_chunks:
  obtains c1 c2 c3 c4 where "length c1 = 6" "length c2 = 6" "length c3 = 6" "length c4 = 6"
    and "byte_bits a @ byte_bits b @ byte_bits c = c1 @ c2 @ c3 @ c4"
    and "\<And>rest. chunks6 (byte_bits a @ byte_bits b @ byte_bits c @ rest) = c1 # c2 # c3 # c4 # chunks6 rest"
proof
  show "byte_bits a @ byte_bits b @ byte_bits c =
      map (bit a) [7, 6, 5, 4, 3, 2] @ (map (bit a) [1, 0] @ map (bit b) [7, 6, 5, 4]) @
      (map (bit b) [3, 2, 1, 0] @ map (bit c) [7, 6]) @ map (bit c) [5, 4, 3, 2, 1, 0]"
    by (simp add: byte_bits_def)
  show "chunks6 (byte_bits a @ byte_bits b @ byte_bits c @ rest) =
      map (bit a) [7, 6, 5, 4, 3, 2] # (map (bit a) [1, 0] @ map (bit b) [7, 6, 5, 4]) #
      (map (bit b) [3, 2, 1, 0] @ map (bit c) [7, 6]) # map (bit c) [5, 4, 3, 2, 1, 0] # chunks6 rest" for rest
    by (simp add: byte_bits_def)
qed simp_all

lemma encode_group_letters:
  "fill_sextets 4 (unat c + 256 * (unat b + 256 * unat a)) (replicate 4 0) =
    map (\<lambda>x. code64 ! bits_val x) (chunks6 (byte_bits a @ byte_bits b @ byte_bits c))"
proof -
  obtain c1 c2 c3 c4 where ch: "length c1 = 6" "length c2 = 6" "length c3 = 6" "length c4 = 6"
    "byte_bits a @ byte_bits b @ byte_bits c = c1 @ c2 @ c3 @ c4"
    "\<And>rest. chunks6 (byte_bits a @ byte_bits b @ byte_bits c @ rest) = c1 # c2 # c3 # c4 # chunks6 rest"
    using byte_bits_chunks [of a b c] by blast
  from ch(6) [of "[]"] have "chunks6 (byte_bits a @ byte_bits b @ byte_bits c) = [c1, c2, c3, c4]" by simp
  then show ?thesis
    unfolding tuple_bits ch(5) by (simp add: fill_sextets_bits ch)
qed

text \<open>The encoder without its loop counter.\<close>

fun base64_pure :: "byte list \<Rightarrow> byte list" where
  "base64_pure (a # b # c # s) = base64_encode (unat a) (unat b) (unat c) 3 @ base64_pure s"
| "base64_pure [a, b] = base64_encode (unat a) (unat b) 0 2"
| "base64_pure [a] = base64_encode (unat a) 0 0 1"
| "base64_pure [] = []"

lemma encode_groups_pure:
  "cbind (encode_groups (length s div 3) s out) (\<lambda>(p, out).
      if length s mod 3 = 1 then
        cbind (mem_at p 0) (\<lambda>a. Ret [LString (out @ base64_encode (unat a) 0 0 1)])
      else if length s mod 3 = 2 then
        cbind (mem_at p 0) (\<lambda>a. cbind (mem_at p 1) (\<lambda>b.
          Ret [LString (out @ base64_encode (unat a) (unat b) 0 2)]))
      else Ret [LString out]) = Ret [LString (out @ base64_pure s)]"
proof (induction s arbitrary: out rule: base64_pure.induct)
  case (1 a b c s)
  have eqs: "length (a # b # c # s) div 3 = Suc (length s div 3)"
    "length (a # b # c # s) mod 3 = length s mod 3" by simp_all
  show ?case unfolding eqs encode_groups.simps 1 by simp
qed (simp_all add: mem_at_def)

lemma Lbase64_encode_pure:
  assumes "length s < 3 * 2 ^ 31"
  shows "Lbase64_encode H [LString s] = Ret [LString (base64_pure s)]"
proof -
  have "cast_int (int (length s div 3)) = int (length s div 3)"
    by (rule cast_int_of_nat) (use assms in auto)
  then show ?thesis
    using encode_groups_pure [of s "[]"] by (simp add: Lbase64_encode_def lua_api c_sem)
qed

lemma length_chunks6: "length (chunks6 xs) = length xs div 6"
  by (induction xs rule: chunks6.induct) auto

lemma pad_lists:
  "[Suc (Suc (Suc 0))..<4] = [3]" "[Suc (Suc 0)..<4] = [2, 3]"
  "replicate 2 x = [x, x]" "replicate 4 x = [x, x, x, x]"
  by (simp_all add: upt_rec numeral_eq_Suc)

lemma pad_tail: "foldl (\<lambda>s i. s[i := e]) [p, q, r, t] [2 + 1..<4] = [p, q, r, e]"
  "foldl (\<lambda>s i. s[i := e]) [p, q, r, t] [1 + 1..<4] = [p, q, e, e]"
  by (simp_all add: upt_rec)

lemma base64_pure_rfc: "base64_pure s = rfc4648_encode s"
proof (induction s rule: base64_pure.induct)
  case (1 a b c s)
  have l: "length (concat (map byte_bits (a # b # c # s))) = 24 + length (concat (map byte_bits s))" by simp
  have m6: "(24 + n) mod 6 = n mod 6" for n :: nat by presburger
  have m4: "(4 + n) mod 4 = n mod 4" for n :: nat by presburger
  obtain c1 c2 c3 c4 where ch: "length c1 = 6" "length c2 = 6" "length c3 = 6" "length c4 = 6"
    "byte_bits a @ byte_bits b @ byte_bits c = c1 @ c2 @ c3 @ c4"
    "\<And>rest. chunks6 (byte_bits a @ byte_bits b @ byte_bits c @ rest) = c1 # c2 # c3 # c4 # chunks6 rest"
    using byte_bits_chunks [of a b c] by blast
  from ch(6) [of "[]"] have whole: "chunks6 (byte_bits a @ byte_bits b @ byte_bits c) = [c1, c2, c3, c4]" by simp
  have "base64_encode (unat a) (unat b) (unat c) 3 = map (\<lambda>x. code64 ! bits_val x) [c1, c2, c3, c4]"
    unfolding base64_encode_def Let_def encode_group_letters whole by simp
  with 1 show ?case
    by (simp add: rfc4648_encode_def Let_def ch(6) m6 m4 del: map_map)
next
  case (2 a b)
  have "base64_encode (unat a) (unat b) 0 2 = base64_encode (unat a) (unat b) (unat (0 :: byte)) 2" by simp
  also have "\<dots> = rfc4648_encode [a, b]"
    unfolding base64_encode_def Let_def encode_group_letters
    by (simp add: byte_bits_def pad_tail rfc4648_encode_def pad_lists)
  finally show ?case by simp
next
  case (3 a)
  have "base64_encode (unat a) 0 0 1 = base64_encode (unat a) (unat (0 :: byte)) (unat (0 :: byte)) 1" by simp
  also have "\<dots> = rfc4648_encode [a]"
    unfolding base64_encode_def Let_def encode_group_letters
    by (simp add: byte_bits_def pad_tail rfc4648_encode_def pad_lists)
  finally show ?case by simp
qed (simp add: rfc4648_encode_def)

section \<open>Decoding what was encoded\<close>

lemma code64_bytes: "code64 = [
    65, 66, 67, 68, 69, 70, 71, 72, 73, 74, 75, 76, 77, 78, 79, 80, 81, 82, 83, 84, 85, 86, 87, 88, 89, 90,
    97, 98, 99, 100, 101, 102, 103, 104, 105, 106, 107, 108, 109, 110, 111, 112, 113, 114, 115, 116, 117, 118, 119, 120, 121, 122,
    48, 49, 50, 51, 52, 53, 54, 55, 56, 57, 43, 47]"
  by (simp add: code64_def bs_def)

lemma index_from_nth:
  "distinct xs \<Longrightarrow> k < length xs \<Longrightarrow> index_from xs (xs ! k) j = Some (j + k)"
proof (induction xs arbitrary: j k)
  case (Cons x xs)
  then show ?case by (cases k) auto
qed simp

lemma distinct_code64: "distinct code64" "length code64 = 64"
  by (simp_all add: code64_bytes)

lemma code64_lookup:
  assumes "k < 64"
  shows "strchr_code (code64 ! k) = Some k" "code64 ! k \<noteq> 0" "code64 ! k \<noteq> equals_sign"
    "code64 ! k \<notin> set base64_skip"
proof -
  show "strchr_code (code64 ! k) = Some k"
    using assms distinct_code64 by (simp add: strchr_code_def index_from_nth)
  have mem: "code64 ! k \<in> set code64" using assms distinct_code64(2) by simp
  have "0 \<notin> set code64" "equals_sign \<notin> set code64" "set base64_skip \<inter> set code64 = {}"
    by (simp_all add: code64_bytes equals_sign_def base64_skip_def)
  with mem show "code64 ! k \<noteq> 0" "code64 ! k \<noteq> equals_sign" "code64 ! k \<notin> set base64_skip"
    by (metis, metis, blast)
qed

lemma decode_letter:
  assumes "k < 64"
  shows "decode_loop t (code64 ! k # s) out =
    (if length t = 3
     then decode_loop [] s (out @ base64_decode (t ! 0) (t ! 1) (t ! 2) k 4)
     else decode_loop (t @ [k]) s out)"
  using code64_lookup [OF assms] by (simp add: Let_def nth_append)

lemma recompose:
  fixes t :: nat
  assumes "t < 16777216"
  shows "t mod 64 + 64 * (t div 64 mod 64 + 64 * (t div 64 div 64 mod 64 +
    64 * (t div 64 div 64 div 64 mod 64))) = t"
proof -
  have "t div 64 div 64 div 64 < 64" using assms by simp
  then show ?thesis by simp
qed

lemma base64_decode_group:
  fixes a b c :: byte
  defines "t \<equiv> unat c + 256 * (unat b + 256 * unat a)"
  shows "base64_decode (t div 64 div 64 div 64 mod 64) (t div 64 div 64 mod 64) (t div 64 mod 64)
    (t mod 64) n = take (n - 1) [a, b, c]"
proof -
  note lim = unat_byte [of a] unat_byte [of b] unat_byte [of c]
  then have "t < 16777216" by (simp add: t_def del: unat_byte)
  note r = recompose [OF this]
  have b256: "(256 :: byte) = 0" "(65536 :: byte) = 0" by simp_all
  have "t div 256 = unat b + 256 * unat a" "t div 65536 = unat a"
    using lim by (simp_all add: t_def del: unat_byte)
  moreover have "(of_nat t :: byte) = c" "(of_nat (unat b + 256 * unat a) :: byte) = b"
    by (simp_all add: t_def b256)
  ultimately show ?thesis unfolding base64_decode_def r Let_def by simp
qed

lemma sextet_bounds: "(n :: nat) mod 64 < 64" by simp

lemma decode_full_group:
  "decode_loop [] (base64_encode (unat a) (unat b) (unat c) 3 @ s) out = decode_loop [] s (out @ [a, b, c])"
  unfolding base64_encode_def Let_def fill_sextets_4
  by (simp add: decode_letter base64_decode_group [of c b a 4, simplified] del: decode_loop.simps)

lemma decode_equals: "decode_loop t (equals_sign # s) out = decode_loop [] s (out @ flush_pending t)"
  by simp

lemma decode_two_bytes:
  "decode_loop [] (base64_encode (unat a) (unat b) 0 2 @ s) out = decode_loop [] s (out @ [a, b])"
proof -
  let ?t = "256 * (unat b + 256 * unat a)"
  have z: "?t mod 64 = 0" by presburger
  have "base64_decode (?t div 64 div 64 div 64 mod 64) (?t div 64 div 64 mod 64) (?t div 64 mod 64) 0 3 = [a, b]"
    using base64_decode_group [of 0 b a 3] z by simp
  then show ?thesis
    unfolding base64_encode_def Let_def add_0 fill_sextets_4 pad_tail(1) append.simps
    by (simp add: decode_letter decode_equals del: decode_loop.simps)
qed

lemma decode_one_byte:
  "decode_loop [] (base64_encode (unat a) 0 0 1 @ s) out = decode_loop [] s (out @ [a])"
proof -
  let ?t = "256 * (256 * unat a)"
  have z: "?t mod 64 = 0" "?t div 64 mod 64 = 0" by simp_all
  have "base64_decode (?t div 64 div 64 div 64 mod 64) (?t div 64 div 64 mod 64) (?t div 64 mod 64)
      (?t mod 64) 2 = [a]"
    using base64_decode_group [of 0 0 a 2] by (simp only: unsigned_0 add_0) simp
  then have "base64_decode (?t div 64 div 64 div 64 mod 64) (?t div 64 div 64 mod 64) 0 0 2 = [a]"
    unfolding z .
  then show ?thesis
    unfolding base64_encode_def Let_def add_0 fill_sextets_4 pad_tail(2) append.simps
    by (simp add: decode_letter decode_equals del: decode_loop.simps)
qed

lemma decode_pure: "decode_loop [] (base64_pure s @ rest) out = decode_loop [] rest (out @ s)"
  by (induction s arbitrary: out rule: base64_pure.induct)
    (simp_all add: decode_full_group decode_two_bytes decode_one_byte [unfolded One_nat_def] del: decode_loop.simps)

section \<open>Totality, blanks and rejection\<close>

definition base64_accepts :: "byte \<Rightarrow> bool" where
  "base64_accepts c \<longleftrightarrow> c = equals_sign \<or> c \<in> set base64_skip \<or> strchr_code c \<noteq> None"

lemma decode_terminated:
  "\<exists>out'. decode_loop t (s @ [0]) out = Ret (if list_all base64_accepts (cstr s) then Some out' else None)"
proof (induction s arbitrary: t out)
  case Nil
  then show ?case by (simp add: cstr_def equals_sign_def)
next
  case (Cons c s)
  show ?case
  proof (cases "c = 0")
    case True
    then show ?thesis by (simp add: cstr_def equals_sign_def)
  next
    case False
    with Cons.IH show ?thesis
      by (auto simp: cstr_def base64_accepts_def Let_def split: option.splits)
  qed
qed

lemma decode_skips:
  "decode_loop t (filter (\<lambda>c. c \<notin> set base64_skip) s @ [0]) out = decode_loop t (s @ [0]) out"
  by (induction s arbitrary: t out) (auto simp: Let_def base64_skip_def equals_sign_def split: option.splits)


section \<open>Properties\<close>

text \<open>C10: the encoder returns the base64 encoding of RFC 4648 of its argument, for every string
  whose number of groups fits the loop counter.\<close>

theorem base64_encode_rfc4648:
  assumes "length s < 3 * 2 ^ 31"
  shows "Lbase64_encode H [LString s] = Ret [LString (rfc4648_encode s)]"
  using Lbase64_encode_pure [OF assms] by (simp add: base64_pure_rfc)

theorem base64_encode_rfc4648_witness:
  "Lbase64_encode plain_host [LString (bs ''coucou'')] = Ret [LString (rfc4648_encode (bs ''coucou''))]"
  by (rule base64_encode_rfc4648) simp

text \<open>C5: decoding an encoded string gives the string back.\<close>

theorem base64_roundtrip:
  assumes "length s < 3 * 2 ^ 31"
  shows "\<exists>e. Lbase64_encode H [LString s] = Ret [LString e] \<and> Lbase64_decode H [LString e] = Ret [LString s]"
proof -
  have "decode_loop [] (base64_pure s @ [0]) [] = Ret (Some s)"
    by (simp add: decode_pure equals_sign_def)
  then have "Lbase64_decode H [LString (base64_pure s)] = Ret [LString s]"
    by (simp add: Lbase64_decode_def lua_api c_sem)
  with Lbase64_encode_pure [OF assms] show ?thesis by blast
qed

theorem base64_roundtrip_witness:
  "\<exists>e. Lbase64_encode plain_host [LString [255, 0, 7, 9]] = Ret [LString e] \<and>
    Lbase64_decode plain_host [LString e] = Ret [LString [255, 0, 7, 9]]"
  by (rule base64_roundtrip) simp

text \<open>The decoder returns on every string, without undefined behaviour: one string when
  every byte before the first NUL is a letter of the alphabet, a padding sign or a blank, and
  nothing otherwise.\<close>

theorem base64_decode_result:
  "if list_all base64_accepts (cstr s) then \<exists>out. Lbase64_decode H [LString s] = Ret [LString out]
   else Lbase64_decode H [LString s] = Ret []"
  using decode_terminated [of "[]" s "[]"] by (auto simp: Lbase64_decode_def lua_api c_sem)

text \<open>Blanks anywhere in the input make no difference to the decoder.\<close>

theorem base64_decode_ignores_blanks:
  "Lbase64_decode H [LString (filter (\<lambda>c. c \<notin> set base64_skip) s)] = Lbase64_decode H [LString s]"
  by (simp add: Lbase64_decode_def lua_api c_sem decode_skips)

end
