(* ===== verification/Utf8.thy ===== *)
theory Utf8
  imports LuaApi
begin

text \<open>
  The UTF-8 part of \<open>util-src/encodings.c\<close>: the decoder of one sequence, adapted there from Lua
  5.3, and the check of a whole string. The reference is the table of RFC 3629, written as the
  encoding of a Unicode scalar value.
\<close>

section \<open>The decoder\<close>

definition MAXUNICODE :: uint32 where
  "MAXUNICODE = 0x10FFFF"

definition limits :: "uint32 list" where
  "limits = [0xFF, 0x7F, 0x7FF, 0xFFFF]"

text \<open>The loop over continuation bytes: \<open>rest\<close> are the bytes from \<open>s[count + 1]\<close> on. It ends with
  the count, the shifted first byte and the bits so far, or with \<open>None\<close> on a byte that is no
  continuation byte.\<close>

fun utf8_cont :: "byte list \<Rightarrow> uint32 \<Rightarrow> uint32 \<Rightarrow> nat \<Rightarrow> (nat \<times> uint32 \<times> uint32) option cres" where
  "utf8_cont [] c res count =
     (if c AND 0x40 = 0 then Ret (Some (count, c, res)) else Undef OutOfBounds)"
| "utf8_cont (x # rest) c res count =
     (if c AND 0x40 = 0 then Ret (Some (count, c, res))
      else
        let cc = (ucast x :: uint32) in
        if cc AND 0xC0 \<noteq> 0x80 then Ret None
        else utf8_cont rest (push_bit 1 c) (push_bit 6 res OR (cc AND 0x3F)) (Suc count))"

text \<open>One sequence at the head of the bytes: \<open>Some (count, val)\<close> for a sequence of
  \<open>count + 1\<close> bytes, \<open>None\<close> for the null pointer. The shift by \<open>count * 5\<close> is undefined from
  32 on.\<close>

fun utf8_decode :: "byte list \<Rightarrow> (nat \<times> uint32) option cres" where
  "utf8_decode [] = Undef OutOfBounds"
| "utf8_decode (x # rest) =
    (let c = (ucast x :: uint32) in
     if c < 0x80 then Ret (Some (0, c))
     else
       cbind (utf8_cont rest c 0 0) (\<lambda>r.
         case r of
           None \<Rightarrow> Ret None
         | Some (count, c, res) \<Rightarrow>
             if 32 \<le> count * 5 then Undef BadShift
             else
               let res = res OR push_bit (count * 5) (c AND 0x7F) in
               if count > 3 \<or> res > MAXUNICODE \<or> res \<le> limits ! count \<or> (0xd800 \<le> res \<and> res \<le> 0xdfff)
               then Ret None
               else Ret (Some (count, res))))"

text \<open>The loop of \<open>check_utf8\<close> reads up to and including the terminating NUL.\<close>

function check_utf8_loop :: "byte list \<Rightarrow> nat \<Rightarrow> bool cres" where
  "check_utf8_loop s pos =
    (if pos \<le> length s
     then (case utf8_decode (drop pos (s @ [0])) of
             Ret None \<Rightarrow> Ret False
           | Ret (Some (count, val)) \<Rightarrow> check_utf8_loop s (pos + count + 1)
           | Raise e \<Rightarrow> Raise e
           | Undef u \<Rightarrow> Undef u)
     else Ret True)"
  by pat_completeness auto
termination
  by (relation "measure (\<lambda>(s, pos). Suc (length s) - pos)") auto

declare check_utf8_loop.simps [simp del]

definition check_utf8 :: "host \<Rightarrow> lua_args \<Rightarrow> nat \<Rightarrow> byte list option cres" where
  "check_utf8 H L idx =
    cbind (luaL_checklstring H L idx) (\<lambda>s.
    cbind (check_utf8_loop s 0) (\<lambda>ok. Ret (if ok then Some s else None)))"

definition Lutf8_valid :: "host \<Rightarrow> lua_args \<Rightarrow> lua_value list cres" where
  "Lutf8_valid H L = cbind (check_utf8 H L 1) (\<lambda>r. Ret [LBool (r \<noteq> None)])"

definition Lutf8_length :: "host \<Rightarrow> lua_args \<Rightarrow> lua_value list cres" where
  "Lutf8_length H L = cbind (check_utf8 H L 1) (\<lambda>r.
     case r of
       None \<Rightarrow> Ret [LNil, LString (bs ''invalid utf8'')]
     | Some s \<Rightarrow> Ret [LNumber (of_nat (length s))])"

section \<open>The reference: RFC 3629\<close>

definition scalar_value :: "nat \<Rightarrow> bool" where
  "scalar_value c \<longleftrightarrow> c \<le> 0x10FFFF \<and> \<not> (0xD800 \<le> c \<and> c \<le> 0xDFFF)"

definition utf8_bytes :: "nat \<Rightarrow> byte list" where
  "utf8_bytes c =
    (if c < 0x80 then [of_nat c]
     else if c < 0x800 then [of_nat (0xC0 + c div 64), of_nat (0x80 + c mod 64)]
     else if c < 0x10000 then
       [of_nat (0xE0 + c div 4096), of_nat (0x80 + c div 64 mod 64), of_nat (0x80 + c mod 64)]
     else
       [of_nat (0xF0 + c div 262144), of_nat (0x80 + c div 4096 mod 64),
        of_nat (0x80 + c div 64 mod 64), of_nat (0x80 + c mod 64)])"

definition utf8_well_formed :: "byte list \<Rightarrow> bool" where
  "utf8_well_formed s \<longleftrightarrow> (\<exists>cs. (\<forall>c \<in> set cs. scalar_value c) \<and> s = concat (map utf8_bytes cs))"

section \<open>Bits of the decoder as arithmetic\<close>

lemma bit_byte_arith: "bit (ucast (x :: byte) :: uint32) n \<longleftrightarrow> odd (unat x div 2 ^ n)"
proof -
  have "bit (ucast x :: uint32) n \<longleftrightarrow> bit (unat (ucast x :: uint32)) n"
    by (auto simp: bit_unsigned_iff dest: bit_imp_le_length)
  then show ?thesis by (simp add: bit_iff_odd)
qed

lemma and_0x40: "push_bit k (w :: uint32) AND 0x40 = 0 \<longleftrightarrow> \<not> (k \<le> 6 \<and> bit w (6 - k))"
proof -
  have "push_bit k w AND 0x40 = 0 \<longleftrightarrow> \<not> bit (push_bit k w) 6"
    using and_exp_eq_0_iff_not_bit [of "push_bit k w" 6] by simp
  then show ?thesis by (simp add: bit_push_bit_iff)
qed

lemma continuation_arith: "(ucast (x :: byte) :: uint32) AND 0xC0 = 0x80 \<longleftrightarrow> unat x div 64 = 2"
proof -
  have c0: "0xC0 = push_bit 6 (mask 2 :: uint32)" by (simp add: mask_eq_exp_minus_1)
  have "(ucast x :: uint32) AND 0xC0 = push_bit 6 (take_bit 2 (drop_bit 6 (ucast x)))"
    unfolding c0 by (auto simp: bit_eq_iff bit_simps)
  moreover have "unat (push_bit 6 (take_bit 2 (drop_bit 6 (ucast x :: uint32)))) = 64 * (unat x div 64)"
  proof -
    have "unat x div 64 < 4" using unat_byte [of x] by (simp add: div_less_iff_less_mult)
    then show ?thesis
      by (subst unat_push_bit) (simp_all add: unat_take_bit unat_drop_bit)
  qed
  ultimately show ?thesis by (simp add: word_unat_eq_iff)
qed

lemma shift_in:
  assumes "unat (r :: uint32) < 2 ^ 26"
  shows "unat (push_bit 6 r OR (ucast (y :: byte) AND 0x3F)) = 64 * unat r + unat y mod 64"
proof -
  have m: "(ucast y :: uint32) AND 0x3F = take_bit 6 (ucast y)"
    by (simp add: take_bit_eq_mask mask_eq_exp_minus_1)
  have "push_bit 6 r OR take_bit 6 (ucast y) = push_bit 6 r + take_bit 6 (ucast y)"
    by (rule disjunctive_add_eq_or [symmetric]) (auto simp: bit_eq_iff bit_simps)
  moreover have "unat (push_bit 6 r) = 64 * unat r"
    using assms by (subst unat_push_bit) simp_all
  moreover have "unat (take_bit 6 (ucast y :: uint32)) = unat y mod 64"
    by (simp add: unat_take_bit)
  moreover have "64 * unat r + unat y mod 64 < 2 ^ LENGTH(32)" using assms by simp
  ultimately show ?thesis by (simp add: m unat_add_small)
qed

lemma lead_in:
  assumes "k \<le> 3" "unat (r :: uint32) < 2 ^ (6 * k)"
  shows "unat (r OR push_bit (k * 5) (push_bit k (ucast (x :: byte)) AND 0x7F)) =
    unat r + 2 ^ (6 * k) * (unat x mod 2 ^ (7 - k))"
proof -
  have m: "w AND 0x7F = take_bit 7 w" for w :: uint32
    by (simp add: take_bit_eq_mask mask_eq_exp_minus_1)
  have p: "push_bit (k * 5) (push_bit k (ucast x :: uint32) AND 0x7F) =
      push_bit (6 * k) (take_bit (7 - k) (ucast x))"
    by (simp add: m take_bit_push_bit)
  have t: "unat (take_bit (7 - k) (ucast x :: uint32)) = unat x mod 2 ^ (7 - k)"
    by (simp add: unat_take_bit)
  have "unat x mod 2 ^ (7 - k) < 2 ^ (7 - k)" by simp
  then have "2 ^ (6 * k) * (unat x mod 2 ^ (7 - k)) + 2 ^ (6 * k) \<le> 2 ^ (6 * k) * 2 ^ (7 - k)"
    by (metis Suc_leI mult_Suc_right add.commute mult_le_mono2)
  also have "\<dots> = 2 ^ (6 * k + (7 - k))" by (simp add: power_add)
  also have "\<dots> \<le> 2 ^ 31" by (rule power_increasing) (use assms(1) in auto)
  finally have lim: "2 ^ (6 * k) * (unat x mod 2 ^ (7 - k)) + 2 ^ (6 * k) \<le> 2 ^ 31" .
  then have u: "unat (push_bit (6 * k) (take_bit (7 - k) (ucast x :: uint32))) =
      2 ^ (6 * k) * (unat x mod 2 ^ (7 - k))"
    using t by (subst unat_push_bit) (simp_all add: mult.commute)
  have "r = take_bit (6 * k) r"
    using assms(2) by (simp add: word_unat_eq_iff unat_take_bit)
  then have "r AND push_bit (6 * k) (take_bit (7 - k) (ucast x)) = 0"
    by (subst \<open>r = _\<close>) (auto simp: bit_eq_iff bit_simps)
  then have "r OR push_bit (6 * k) (take_bit (7 - k) (ucast x)) = r + push_bit (6 * k) (take_bit (7 - k) (ucast x))"
    by (rule disjunctive_add_eq_or [symmetric])
  then show ?thesis unfolding p using u lim assms(2) by (simp add: unat_add_small)
qed


section \<open>One sequence\<close>

definition is_cont :: "byte \<Rightarrow> bool" where
  "is_cont x \<longleftrightarrow> unat x div 64 = 2"

lemma utf8_cont_step:
  "utf8_cont (y # rest) (push_bit k (ucast x)) res count =
    (if k \<le> 6 \<and> odd (unat (x :: byte) div 2 ^ (6 - k))
     then if is_cont y
       then utf8_cont rest (push_bit (Suc k) (ucast x)) (push_bit 6 res OR (ucast y AND 0x3F)) (Suc count)
       else Ret None
     else Ret (Some (count, push_bit k (ucast x), res)))"
proof -
  have "push_bit (Suc 0) (push_bit k w) = push_bit (Suc k) w" for w :: uint32 by simp
  then show ?thesis
    by (simp add: and_0x40 bit_byte_arith continuation_arith is_cont_def Let_def del: push_bit_push_bit)
qed

lemma utf8_cont_Nil:
  "utf8_cont [] (push_bit k (ucast x)) res count =
    (if k \<le> 6 \<and> odd (unat (x :: byte) div 2 ^ (6 - k)) then Undef OutOfBounds
     else Ret (Some (count, push_bit k (ucast x), res)))"
  by (simp add: and_0x40 bit_byte_arith)

text \<open>The number of continuation bytes that the leading byte asks for.\<close>

definition lead_count :: "nat \<Rightarrow> nat" where
  "lead_count n =
    (if n < 0xC0 then 0 else if n < 0xE0 then 1 else if n < 0xF0 then 2 else if n < 0xF8 then 3
     else if n < 0xFC then 4 else if n < 0xFE then 5 else if n < 0xFF then 6 else 7)"

lemma lead_count_table:
  "list_all (\<lambda>n. list_all (\<lambda>k. lead_count n < k \<or> odd (n div 2 ^ (6 - k)) = (k < lead_count n)) [0..<7]) [128..<256]"
  by code_simp

lemma lead_count_bits:
  assumes "128 \<le> n" "n < 256" "k \<le> lead_count n"
  shows "k \<le> 6 \<and> odd (n div 2 ^ (6 - k)) \<longleftrightarrow> k < lead_count n"
proof (cases "k < 7")
  case True
  have "n \<in> set [128..<256]" "k \<in> set [0..<7]" using assms True by (simp_all only: set_upt atLeastLessThan_iff) simp_all
  then have "lead_count n < k \<or> odd (n div 2 ^ (6 - k)) = (k < lead_count n)"
    using lead_count_table unfolding list_all_iff by blast
  with assms(3) True show ?thesis by auto
next
  case False
  have "lead_count n \<le> 7" by (simp add: lead_count_def)
  with False show ?thesis by simp
qed

definition add_cont :: "uint32 \<Rightarrow> byte \<Rightarrow> uint32" where
  "add_cont r y = (push_bit 6 r OR (ucast y AND 0x3F))"

lemma utf8_cont_result:
  assumes "128 \<le> unat (x :: byte)" "k \<le> lead_count (unat x)"
  shows "utf8_cont rest (push_bit k (ucast x)) res k =
    (let ys = take (lead_count (unat x) - k) rest in
     if list_all is_cont ys
     then if length ys = lead_count (unat x) - k
       then Ret (Some (lead_count (unat x), push_bit (lead_count (unat x)) (ucast x), foldl add_cont res ys))
       else Undef OutOfBounds
     else Ret None)"
  using assms(2)
proof (induction rest arbitrary: k res)
  case Nil
  show ?case
    using lead_count_bits [OF assms(1) unat_byte Nil] Nil by (auto simp: utf8_cont_Nil simp del: utf8_cont.simps)
next
  case (Cons y rest)
  show ?case
  proof (cases "k < lead_count (unat x)")
    case True
    then have "Suc k \<le> lead_count (unat x)" by simp
    note IH = Cons.IH [OF this, of "add_cont res y"]
    have "lead_count (unat x) - k = Suc (lead_count (unat x) - Suc k)" using True by simp
    then show ?thesis
      using IH True lead_count_bits [OF assms(1) unat_byte Cons.prems]
      by (simp add: utf8_cont_step Let_def add_cont_def del: utf8_cont.simps)
  next
    case False
    with Cons.prems have "k = lead_count (unat x)" by simp
    with lead_count_bits [OF assms(1) unat_byte Cons.prems] show ?thesis
      by (auto simp: utf8_cont_step simp del: utf8_cont.simps)
  qed
qed


definition cont_val :: "byte list \<Rightarrow> nat" where
  "cont_val ys = foldl (\<lambda>r y. 64 * r + unat y mod 64) 0 ys"

lemma cont_val_snoc: "cont_val (ys @ [y]) = 64 * cont_val ys + unat y mod 64"
  by (simp add: cont_val_def)

lemma cont_val_less: "cont_val ys < 2 ^ (6 * length ys)"
proof (induction ys rule: rev_induct)
  case Nil
  then show ?case by (simp add: cont_val_def)
next
  case (snoc y ys)
  have "64 * cont_val ys + unat y mod 64 < 64 * 2 ^ (6 * length ys)"
    using snoc.IH mod_less_divisor [of 64 "unat y"] by linarith
  then show ?case by (simp add: cont_val_snoc power_add)
qed

lemma unat_foldl_add_cont: "length ys \<le> 4 \<Longrightarrow> unat (foldl add_cont 0 ys) = cont_val ys"
proof (induction ys rule: rev_induct)
  case Nil
  then show ?case by (simp add: cont_val_def)
next
  case (snoc y ys)
  have "(2 :: nat) ^ (6 * length ys) \<le> 2 ^ 26" by (rule power_increasing) (use snoc.prems in auto)
  with cont_val_less [of ys] have "cont_val ys < 2 ^ 26" by (rule less_le_trans)
  with snoc show ?case by (simp add: add_cont_def shift_in cont_val_snoc)
qed

lemma utf8_decode_lead:
  assumes "128 \<le> unat x"
  shows "utf8_decode (x # rest) =
    cbind (let n = lead_count (unat x); ys = take n rest in
      if list_all is_cont ys
      then if length ys = n then Ret (Some (n, push_bit n (ucast x), foldl add_cont 0 ys)) else Undef OutOfBounds
      else Ret None) (\<lambda>r.
         case r of
           None \<Rightarrow> Ret None
         | Some (count, c, res) \<Rightarrow>
             if 32 \<le> count * 5 then Undef BadShift
             else
               let res = res OR push_bit (count * 5) (c AND 0x7F) in
               if count > 3 \<or> res > MAXUNICODE \<or> res \<le> limits ! count \<or> (0xd800 \<le> res \<and> res \<le> 0xdfff)
               then Ret None
               else Ret (Some (count, res)))"
proof -
  have "\<not> (ucast x :: uint32) < 0x80" using assms by (simp add: word_less_nat_alt)
  with utf8_cont_result [OF assms, of 0 rest 0] show ?thesis by (simp add: Let_def)
qed

lemma utf8_decode_multi:
  assumes "128 \<le> unat x" "lead_count (unat x) = n" "0 < n" "n \<le> 3" "list_all is_cont ys" "length ys = n"
  shows "utf8_decode (x # ys @ rest) =
    (let v = cont_val ys + 2 ^ (6 * n) * (unat x mod 2 ^ (7 - n)) in
     if 0x10FFFF < v \<or> v \<le> unat (limits ! n) \<or> (0xD800 \<le> v \<and> v \<le> 0xDFFF) then Ret None
     else Ret (Some (n, of_nat v)))"
proof -
  let ?r = "foldl add_cont 0 ys OR push_bit (n * 5) (push_bit n (ucast x) AND 0x7F)"
  let ?v = "cont_val ys + 2 ^ (6 * n) * (unat x mod 2 ^ (7 - n))"
  have f: "unat (foldl add_cont 0 ys) = cont_val ys" using assms(4,6) by (simp add: unat_foldl_add_cont)
  then have v: "unat ?r = ?v"
    using lead_in [OF assms(4), of "foldl add_cont 0 ys" x] cont_val_less [of ys] assms(6) by simp
  then have r: "?r = of_nat ?v" by (metis of_nat_unat ucast_id)
  have cmp: "?r > MAXUNICODE \<longleftrightarrow> 0x10FFFF < ?v" "?r \<le> limits ! n \<longleftrightarrow> ?v \<le> unat (limits ! n)"
    "0xd800 \<le> ?r \<longleftrightarrow> 0xD800 \<le> ?v" "?r \<le> 0xdfff \<longleftrightarrow> ?v \<le> 0xDFFF"
    unfolding word_less_nat_alt word_le_nat_alt v by (simp_all add: MAXUNICODE_def)
  show ?thesis
    unfolding utf8_decode_lead [OF assms(1)] assms(2)
    using assms(3-6) cmp r by (simp add: Let_def)
qed


lemma unat_of_nat_byte: "n < 256 \<Longrightarrow> unat (of_nat n :: byte) = n"
  by (rule unat_of_nat_small) simp

lemma length_utf8_bytes: "0 < length (utf8_bytes c)" "length (utf8_bytes c) \<le> 4"
  by (simp_all add: utf8_bytes_def)

lemma cont_byte:
  "is_cont (of_nat (0x80 + n mod 64))" "unat (of_nat (0x80 + n mod 64) :: byte) mod 64 = n mod 64"
proof -
  have "unat (of_nat (0x80 + n mod 64) :: byte) = 0x80 + n mod 64"
    using mod_less_divisor [of 64 n] by (intro unat_of_nat_byte) linarith
  moreover have "(0x80 + n mod 64) div 64 = 2"
    using mod_less_divisor [of 64 n] by (intro div_nat_eqI) simp_all
  moreover have "(0x80 + n mod 64) mod 64 = n mod 64"
    using mod_mult_self2 [of "n mod 64" 64 2] by (simp add: add.commute)
  ultimately show "is_cont (of_nat (0x80 + n mod 64))"
    "unat (of_nat (0x80 + n mod 64) :: byte) mod 64 = n mod 64"
    by (simp_all only: is_cont_def)
qed

lemma lead_mod:
  fixes q :: nat
  shows "(0xC0 + q) mod 64 = q mod 64" "(0xE0 + q) mod 32 = q mod 32" "(0xF0 + q) mod 16 = q mod 16"
  using mod_mult_self2 [of q 64 3] mod_mult_self2 [of q 32 7] mod_mult_self2 [of q 16 15]
  by (simp_all add: add.commute)

lemma base64_digits:
  fixes c :: nat
  shows "64 * (c div 64) + c mod 64 = c" "64 * (c div 4096) + c div 64 mod 64 = c div 64"
    "64 * (c div 262144) + c div 4096 mod 64 = c div 4096"
proof -
  have "c div 4096 = c div 64 div 64" "c div 262144 = c div 4096 div 64"
    by (simp_all add: div_mult2_eq [symmetric])
  then show "64 * (c div 64) + c mod 64 = c" "64 * (c div 4096) + c div 64 mod 64 = c div 64"
    "64 * (c div 262144) + c div 4096 mod 64 = c div 4096" by simp_all
qed

lemma sextet_sums:
  fixes c :: nat
  shows "64 * (c div 64 mod 64) + c mod 64 + 4096 * (c div 4096) = c"
    "64 * (64 * (c div 4096 mod 64) + c div 64 mod 64) + c mod 64 + 262144 * (c div 262144) = c"
proof -
  have "64 * m1 + m0 + 4096 * r = c" if "64 * q + m0 = c" "64 * r + m1 = q" for q r m0 m1 :: nat
    using that by simp
  from this [OF base64_digits(1,2)] show "64 * (c div 64 mod 64) + c mod 64 + 4096 * (c div 4096) = c" .
  have "64 * (64 * m2 + m1) + m0 + 262144 * t = c"
    if "64 * q + m0 = c" "64 * r + m1 = q" "64 * t + m2 = r" for q r t m0 m1 m2 :: nat
    using that by simp
  from this [OF base64_digits]
  show "64 * (64 * (c div 4096 mod 64) + c div 64 mod 64) + c mod 64 + 262144 * (c div 262144) = c" .
qed

lemma utf8_decode_complete:
  assumes "scalar_value c"
  shows "utf8_decode (utf8_bytes c @ rest) = Ret (Some (length (utf8_bytes c) - 1, of_nat c))"
proof -
  from assms have c: "c \<le> 0x10FFFF" "\<not> (0xD800 \<le> c \<and> c \<le> 0xDFFF)" by (auto simp: scalar_value_def)
  consider "c < 0x80" | "0x80 \<le> c" "c < 0x800" | "0x800 \<le> c" "c < 0x10000" | "0x10000 \<le> c"
    by linarith
  then show ?thesis
  proof cases
    case 1
    then have "unat (of_nat c :: byte) = c" by (simp add: unat_of_nat_byte)
    then have "unat (ucast (of_nat c :: byte) :: uint32) = c" by simp
    then have "(ucast (of_nat c :: byte) :: uint32) = of_nat c" by (metis of_nat_unat ucast_id)
    moreover have "(of_nat c :: uint32) < 0x80"
      using 1 by (simp add: word_less_nat_alt unat_of_nat_small)
    ultimately show ?thesis using 1 by (simp add: utf8_bytes_def)
  next
    case 2
    let ?x = "of_nat (0xC0 + c div 64) :: byte" and ?ys = "[of_nat (0x80 + c mod 64)] :: byte list"
    have x: "unat ?x = 0xC0 + c div 64" using 2 by (intro unat_of_nat_byte) simp
    have ys: "list_all is_cont ?ys" "cont_val ?ys = c mod 64"
      by (simp_all add: cont_byte cont_val_def del: of_nat_add)
    have "lead_count (unat ?x) = 1" using 2 unfolding x by (simp add: lead_count_def)
    moreover have "c mod 64 + 2 ^ (6 * 1) * ((0xC0 + c div 64) mod 2 ^ (7 - 1)) = c"
      using 2 by (simp add: lead_mod)
    ultimately show ?thesis
      using utf8_decode_multi [of ?x 1 ?ys rest] 2 x ys c
      by (simp add: utf8_bytes_def limits_def del: of_nat_add)
  next
    case 3
    let ?x = "of_nat (0xE0 + c div 4096) :: byte"
      and ?ys = "[of_nat (0x80 + c div 64 mod 64), of_nat (0x80 + c mod 64)] :: byte list"
    have x: "unat ?x = 0xE0 + c div 4096" using 3 by (intro unat_of_nat_byte) simp
    have ys: "list_all is_cont ?ys" "cont_val ?ys = 64 * (c div 64 mod 64) + c mod 64"
      by (simp_all add: cont_byte cont_val_def del: of_nat_add)
    have "lead_count (unat ?x) = 2" using 3 unfolding x by (simp add: lead_count_def)
    moreover have "(0xE0 + c div 4096) mod 2 ^ (7 - 2) = c div 4096" using 3 by (simp add: lead_mod)
    then have "64 * (c div 64 mod 64) + c mod 64 + 2 ^ (6 * 2) * ((0xE0 + c div 4096) mod 2 ^ (7 - 2)) = c"
      using sextet_sums [of c] by simp
    ultimately show ?thesis
      using utf8_decode_multi [of ?x 2 ?ys rest] 3 x ys c
      by (simp add: utf8_bytes_def limits_def del: of_nat_add)
  next
    case 4
    let ?x = "of_nat (0xF0 + c div 262144) :: byte"
      and ?ys = "[of_nat (0x80 + c div 4096 mod 64), of_nat (0x80 + c div 64 mod 64), of_nat (0x80 + c mod 64)] :: byte list"
    have x: "unat ?x = 0xF0 + c div 262144" using c by (intro unat_of_nat_byte) simp
    have ys: "list_all is_cont ?ys" "cont_val ?ys = 64 * (64 * (c div 4096 mod 64) + c div 64 mod 64) + c mod 64"
      by (simp_all add: cont_byte cont_val_def del: of_nat_add)
    have "lead_count (unat ?x) = 3" using c unfolding x by (simp add: lead_count_def)
    moreover have "(0xF0 + c div 262144) mod 2 ^ (7 - 3) = c div 262144" using c by (simp add: lead_mod)
    then have "64 * (64 * (c div 4096 mod 64) + c div 64 mod 64) + c mod 64 +
        2 ^ (6 * 3) * ((0xF0 + c div 262144) mod 2 ^ (7 - 3)) = c"
      using sextet_sums [of c] by simp
    ultimately show ?thesis
      using utf8_decode_multi [of ?x 3 ?ys rest] 4 x ys c
      by (simp add: utf8_bytes_def limits_def del: of_nat_add)
  qed
qed

lemma is_cont_unat: "is_cont y \<Longrightarrow> unat y = 0x80 + unat y mod 64"
  using mult_div_mod_eq [of 64 "unat y"] by (simp add: is_cont_def)

lemma byte_eq_of_nat: "unat (x :: byte) = n \<Longrightarrow> of_nat n = x"
  by (metis of_nat_unat ucast_id)

lemma lead_ranges:
  "lead_count n = 1 \<longleftrightarrow> 0xC0 \<le> n \<and> n < 0xE0" "lead_count n = 2 \<longleftrightarrow> 0xE0 \<le> n \<and> n < 0xF0"
  "lead_count n = 3 \<longleftrightarrow> 0xF0 \<le> n \<and> n < 0xF8"
  by (auto simp: lead_count_def)

lemma lead_unat:
  fixes n :: nat
  shows
  "0xC0 \<le> n \<Longrightarrow> n < 0xE0 \<Longrightarrow> n = 0xC0 + n mod 64 \<and> n mod 64 < 32"
  "0xE0 \<le> n \<Longrightarrow> n < 0xF0 \<Longrightarrow> n = 0xE0 + n mod 32 \<and> n mod 32 < 16"
  "0xF0 \<le> n \<Longrightarrow> n < 0xF8 \<Longrightarrow> n = 0xF0 + n mod 16 \<and> n mod 16 < 8"
  using lead_mod(1) [of "n - 0xC0"] lead_mod(2) [of "n - 0xE0"] lead_mod(3) [of "n - 0xF0"] by auto

lemma sextet_digits:
  fixes q m :: nat
  shows "(64 * q + m mod 64) div 64 = q" "(64 * q + m mod 64) mod 64 = m mod 64"
  by simp_all

lemma utf8_bytes_2:
  assumes "lead_count (unat x) = 1" "is_cont y" "0x7F < unat y mod 64 + 64 * (unat x mod 64)"
  shows "utf8_bytes (unat y mod 64 + 64 * (unat x mod 64)) = [x, y]"
proof -
  let ?v = "64 * (unat x mod 64) + unat y mod 64"
  have x: "unat x = 0xC0 + unat x mod 64" "unat x mod 64 < 32"
    using assms(1) lead_unat(1) [of "unat x"] unfolding lead_ranges by blast+
  have d: "?v div 64 = unat x mod 64" "?v mod 64 = unat y mod 64" by (rule sextet_digits)+
  have "?v < 0x800" "0x80 \<le> ?v" using x(2) assms(3) mod_less_divisor [of 64 "unat y"] by linarith+
  then have "utf8_bytes ?v = [of_nat (0xC0 + unat x mod 64), of_nat (0x80 + unat y mod 64)]"
    by (simp add: utf8_bytes_def d del: of_nat_add)
  also have "\<dots> = [x, y]"
    using byte_eq_of_nat [OF x(1)] byte_eq_of_nat [OF is_cont_unat [OF assms(2)]] by simp
  finally show ?thesis by (simp add: add.commute)
qed

lemma utf8_bytes_3:
  assumes "lead_count (unat x) = 2" "is_cont y" "is_cont z"
    and v: "v = 64 * (64 * (unat x mod 32) + unat y mod 64) + unat z mod 64" and "0x7FF < v"
  shows "utf8_bytes v = [x, y, z]"
proof -
  have x: "unat x = 0xE0 + unat x mod 32" "unat x mod 32 < 16"
    using assms(1) lead_unat(2) [of "unat x"] unfolding lead_ranges by blast+
  have d: "v div 64 = 64 * (unat x mod 32) + unat y mod 64" "v mod 64 = unat z mod 64"
    unfolding v by (rule sextet_digits)+
  have "v div 4096 = v div 64 div 64" by (simp add: div_mult2_eq [symmetric])
  then have d2: "v div 4096 = unat x mod 32" "v div 64 mod 64 = unat y mod 64"
    unfolding d sextet_digits by simp_all
  have "64 * (64 * a + b) + c < 0x10000" if "a < 16" "b < 64" "c < 64" for a b c :: nat
    using that by simp
  from this [OF x(2), of "unat y mod 64" "unat z mod 64"] have "v < 0x10000" unfolding v by simp
  then have "utf8_bytes v = [of_nat (0xE0 + unat x mod 32), of_nat (0x80 + unat y mod 64), of_nat (0x80 + unat z mod 64)]"
    using assms(5) by (simp add: utf8_bytes_def d(2) d2 del: of_nat_add)
  also have "\<dots> = [x, y, z]"
    using byte_eq_of_nat [OF x(1)] byte_eq_of_nat [OF is_cont_unat [OF assms(2)]]
      byte_eq_of_nat [OF is_cont_unat [OF assms(3)]] by simp
  finally show ?thesis .
qed

lemma utf8_bytes_4:
  assumes "lead_count (unat x) = 3" "is_cont y" "is_cont z" "is_cont u"
    and v: "v = 64 * (64 * (64 * (unat x mod 16) + unat y mod 64) + unat z mod 64) + unat u mod 64"
    and "0xFFFF < v"
  shows "utf8_bytes v = [x, y, z, u]"
proof -
  have x: "unat x = 0xF0 + unat x mod 16"
    using assms(1) lead_unat(3) [of "unat x"] unfolding lead_ranges by blast+
  have d: "v div 64 = 64 * (64 * (unat x mod 16) + unat y mod 64) + unat z mod 64" "v mod 64 = unat u mod 64"
    unfolding v by (rule sextet_digits)+
  have dd: "v div 4096 = v div 64 div 64" "v div 262144 = v div 64 div 64 div 64"
    by (simp_all add: div_mult2_eq [symmetric])
  have d2: "v div 4096 = 64 * (unat x mod 16) + unat y mod 64" "v div 64 mod 64 = unat z mod 64"
    "v div 262144 = unat x mod 16"
    unfolding dd d sextet_digits by simp_all
  have d3: "v div 4096 mod 64 = unat y mod 64" unfolding d2(1) by (rule sextet_digits)
  have "utf8_bytes v = [of_nat (0xF0 + unat x mod 16), of_nat (0x80 + unat y mod 64),
      of_nat (0x80 + unat z mod 64), of_nat (0x80 + unat u mod 64)]"
    using assms(6) by (simp add: utf8_bytes_def d(2) d2(2,3) d3 del: of_nat_add)
  also have "\<dots> = [x, y, z, u]"
    using byte_eq_of_nat [OF x] byte_eq_of_nat [OF is_cont_unat [OF assms(2)]]
      byte_eq_of_nat [OF is_cont_unat [OF assms(3)]] byte_eq_of_nat [OF is_cont_unat [OF assms(4)]] by simp
  finally show ?thesis .
qed


lemma utf8_decode_sound_multi:
  assumes "128 \<le> unat x" "lead_count (unat x) = n" "0 < n" "n \<le> 3" "list_all is_cont ys" "length ys = n"
    and "utf8_decode (x # ys @ rest) = Ret (Some (m, w))"
  shows "\<exists>c. scalar_value c \<and> x # ys = utf8_bytes c \<and> m = n \<and> w = of_nat c"
proof -
  let ?v = "cont_val ys + 2 ^ (6 * n) * (unat x mod 2 ^ (7 - n))"
  from utf8_decode_multi [OF assms(1-6), of rest] assms(7)
  have r: "?v \<le> 0x10FFFF" "unat (limits ! n) < ?v" "\<not> (0xD800 \<le> ?v \<and> ?v \<le> 0xDFFF)" "m = n" "w = of_nat ?v"
    by (auto simp: Let_def split: if_splits)
  have "utf8_bytes ?v = x # ys"
  proof -
    consider "n = 1" | "n = 2" | "n = 3" using assms(3,4) by linarith
    then show ?thesis
    proof cases
      case 1
      with assms(6) obtain y where ys: "ys = [y]" by (auto simp: length_Suc_conv)
      have "?v = unat y mod 64 + 64 * (unat x mod 64)" using 1 ys by (simp add: cont_val_def)
      moreover have "0x7F < ?v" using r(2) 1 by (simp add: limits_def)
      ultimately show ?thesis using utf8_bytes_2 [of x y] assms(2,5) 1 ys by simp
    next
      case 2
      with assms(6) obtain y z where ys: "ys = [y, z]" by (auto simp: length_Suc_conv numeral_2_eq_2)
      have "?v = 64 * (64 * (unat x mod 32) + unat y mod 64) + unat z mod 64"
        using 2 ys by (simp add: cont_val_def)
      moreover have "0x7FF < ?v" using r(2) 2 by (simp add: limits_def)
      ultimately show ?thesis using utf8_bytes_3 [of x y z ?v] assms(2,5) 2 ys by simp
    next
      case 3
      with assms(6) obtain y z u where ys: "ys = [y, z, u]" by (auto simp: length_Suc_conv numeral_3_eq_3)
      have "?v = 64 * (64 * (64 * (unat x mod 16) + unat y mod 64) + unat z mod 64) + unat u mod 64"
        using 3 ys by (simp add: cont_val_def)
      moreover have "0xFFFF < ?v" using r(2) 3 by (simp add: limits_def)
      ultimately show ?thesis using utf8_bytes_4 [of x y z u ?v] assms(2,5) 3 ys by simp
    qed
  qed
  with r show ?thesis by (auto simp: scalar_value_def)
qed

lemma utf8_decode_no_lead:
  assumes "128 \<le> unat x" "lead_count (unat x) = 0"
  shows "utf8_decode (x # rest) = Ret None"
proof -
  have "(ucast x :: uint32) AND 0x7F = take_bit 7 (ucast x)"
    by (simp add: take_bit_eq_mask mask_eq_exp_minus_1)
  moreover have "unat (take_bit 7 (ucast x :: uint32)) \<le> 0xFF"
    using mod_less_divisor [of 128 "unat x"] by (simp add: unat_take_bit)
  ultimately have "(ucast x :: uint32) AND 0x7F \<le> 0xFF" by (simp add: word_le_nat_alt)
  then show ?thesis unfolding utf8_decode_lead [OF assms(1)] assms(2) by (simp add: limits_def)
qed

lemma utf8_decode_sound:
  assumes "utf8_decode bytes = Ret (Some (n, w))"
  shows "\<exists>c rest. scalar_value c \<and> bytes = utf8_bytes c @ rest \<and> length (utf8_bytes c) = Suc n \<and> w = of_nat c"
proof (cases bytes)
  case Nil
  with assms show ?thesis by simp
next
  case (Cons x rest)
  show ?thesis
  proof (cases "unat x < 128")
    case True
    then have "(ucast x :: uint32) < 0x80" by (simp add: word_less_nat_alt)
    with assms Cons have "n = 0" "w = ucast x" by simp_all
    moreover have "(ucast x :: uint32) = of_nat (unat x)"
      by (metis of_nat_unat ucast_id unat_ucast_byte)
    moreover have "utf8_bytes (unat x) = [x]" "scalar_value (unat x)"
      using True by (simp_all add: utf8_bytes_def byte_eq_of_nat scalar_value_def)
    ultimately show ?thesis using Cons by (metis append_Cons append_Nil length_Cons list.size(3))
  next
    case False
    then have x: "128 \<le> unat x" by simp
    let ?n = "lead_count (unat x)" and ?ys = "take (lead_count (unat x)) rest"
    have some: "list_all is_cont ?ys" "length ?ys = ?n" "?n \<le> 3"
      using assms unfolding Cons utf8_decode_lead [OF x]
      by (auto simp: Let_def cbind_eq_Ret split: if_splits)
    moreover have "0 < ?n" using assms utf8_decode_no_lead [OF x] Cons by fastforce
    moreover have "utf8_decode (x # ?ys @ drop ?n rest) = Ret (Some (n, w))" using assms Cons by simp
    ultimately obtain c where "scalar_value c" "x # ?ys = utf8_bytes c" "n = ?n" "w = of_nat c"
      using utf8_decode_sound_multi [OF x refl] by blast
    moreover from this(2) some(2) \<open>n = ?n\<close> have "length (utf8_bytes c) = Suc n"
      by (metis length_Cons)
    moreover have "bytes = (x # ?ys) @ drop ?n rest" using Cons by simp
    ultimately show ?thesis by metis
  qed
qed

section \<open>Whole strings\<close>

lemma check_loop_accepts:
  assumes "\<forall>c \<in> set cs. scalar_value c" "drop pos s = concat (map utf8_bytes cs)" "pos \<le> length s"
  shows "check_utf8_loop s pos = Ret True"
  using assms
proof (induction cs arbitrary: pos)
  case Nil
  then have "pos = length s" by simp
  then show ?case by (simp add: check_utf8_loop.simps)
next
  case (Cons c cs)
  let ?n = "length (utf8_bytes c)"
  have "drop pos (s @ [0]) = utf8_bytes c @ concat (map utf8_bytes cs) @ [0]"
    using Cons.prems by simp
  then have dec: "utf8_decode (drop pos (s @ [0])) = Ret (Some (?n - 1, of_nat c))"
    using Cons.prems(1) by (simp add: utf8_decode_complete)
  have n: "pos + (?n - 1) + 1 = pos + ?n" using length_utf8_bytes(1) [of c] by simp
  have "drop (pos + ?n) s = concat (map utf8_bytes cs)"
  proof -
    have "drop (pos + ?n) s = drop ?n (drop pos s)" by (simp add: add.commute)
    then show ?thesis unfolding Cons.prems(2) by simp
  qed
  moreover have "pos + ?n \<le> length s"
    using Cons.prems(2,3) by (metis add_le_cancel_left concat.simps(2) le_add1 le_add_diff_inverse length_append length_drop list.simps(9))
  ultimately have "check_utf8_loop s (pos + ?n) = Ret True" using Cons by simp
  with Cons.prems(3) show ?case
    by (subst check_utf8_loop.simps) (simp only: dec n if_True cres.case option.case prod.case)
qed

lemma zero_not_cont: "\<not> is_cont 0"
  by (simp add: is_cont_def)

lemma utf8_bytes_zero:
  assumes "utf8_bytes c = u @ [0]"
  shows "u = []"
proof (cases "c < 0x80")
  case True
  with assms show ?thesis by (simp add: utf8_bytes_def)
next
  case False
  then have "last (utf8_bytes c) = of_nat (0x80 + c mod 64)" by (simp add: utf8_bytes_def del: of_nat_add)
  with assms cont_byte(1) [of c] zero_not_cont show ?thesis by (metis last_snoc)
qed

lemma check_loop_sound:
  "check_utf8_loop s pos = Ret True \<Longrightarrow> utf8_well_formed (drop pos s)"
proof (induction s pos rule: check_utf8_loop.induct)
  case (1 s pos)
  show ?case
  proof (cases "pos < length s")
    case False
    then show ?thesis by (auto simp: utf8_well_formed_def intro: exI [of _ "[]"])
  next
    case True
    with "1.prems" obtain n w where dec: "utf8_decode (drop pos (s @ [0])) = Ret (Some (n, w))"
      and rest: "check_utf8_loop s (pos + n + 1) = Ret True"
      by (subst (asm) check_utf8_loop.simps) (auto split: cres.splits option.splits)
    from utf8_decode_sound [OF dec] obtain c r where c: "scalar_value c"
      "drop pos (s @ [0]) = utf8_bytes c @ r" "length (utf8_bytes c) = Suc n" by blast
    have "r \<noteq> []"
      using utf8_bytes_zero [of c "drop pos s"] c(2) True by auto
    then obtain r' where r: "r = r' @ [0]" and s: "drop pos s = utf8_bytes c @ r'"
      using c(2) True by (cases r rule: rev_cases) auto
    then have "drop (pos + n + 1) s = r'"
      using c(3) by (metis add.assoc add.commute append_eq_conv_conj drop_drop Suc_eq_plus1)
    moreover have "utf8_well_formed (drop (pos + n + 1) s)"
      using "1.IH" True dec rest by simp
    ultimately obtain cs where "\<forall>c \<in> set cs. scalar_value c" "r' = concat (map utf8_bytes cs)"
      by (auto simp: utf8_well_formed_def)
    then show ?thesis using c(1) s by (auto simp: utf8_well_formed_def intro!: exI [of _ "c # cs"])
  qed
qed


text \<open>The one input on which the decoder has no defined behaviour: the byte \<open>0xFF\<close> with seven
  continuation bytes, where the first byte would be shifted by 35.\<close>

definition bad_shift_at :: "byte list \<Rightarrow> nat \<Rightarrow> bool" where
  "bad_shift_at s i \<longleftrightarrow>
     i + 7 < length s \<and> s ! i = 0xFF \<and> list_all is_cont (take 7 (drop (Suc i) s))"

lemma lead_count_7: "lead_count (unat (x :: byte)) \<le> 7" "lead_count (unat x) = 7 \<longleftrightarrow> x = 0xFF"
proof -
  show "lead_count (unat x) \<le> 7" by (simp add: lead_count_def)
  have "lead_count (unat x) = 7 \<longleftrightarrow> unat x = 0xFF"
  proof -
    have "unat x < 255 \<or> unat x = 255" using unat_byte [of x] by linarith
    then show ?thesis by (auto simp: lead_count_def)
  qed
  then show "lead_count (unat x) = 7 \<longleftrightarrow> x = 0xFF" by (simp add: word_unat_eq_iff)
qed

lemma utf8_decode_defined:
  assumes "128 \<le> unat x" "ys = take (lead_count (unat x)) rest" "list_all is_cont ys"
    "length ys = lead_count (unat x)" "\<not> 32 \<le> lead_count (unat x) * 5"
  shows "\<exists>r. utf8_decode (x # rest) = Ret r"
  unfolding utf8_decode_lead [OF assms(1)] Let_def assms(2) [symmetric] using assms(3-5) by simp

lemma utf8_decode_no_cont:
  assumes "128 \<le> unat x" "ys = take (lead_count (unat x)) rest" "\<not> list_all is_cont ys"
  shows "utf8_decode (x # rest) = Ret None"
  unfolding utf8_decode_lead [OF assms(1)] Let_def assms(2) [symmetric] using assms(3) by simp

lemma utf8_decode_outcome:
  shows "(\<exists>r. utf8_decode (u @ [0]) = Ret r) \<or> (utf8_decode (u @ [0]) = Undef BadShift \<and> bad_shift_at u 0)"
proof (cases u)
  case Nil
  then show ?thesis by simp
next
  case (Cons x rest)
  show ?thesis
  proof (cases "unat x < 128")
    case True
    then have "(ucast x :: uint32) < 0x80" by (simp add: word_less_nat_alt)
    then show ?thesis using Cons by simp
  next
    case False
    then have x: "128 \<le> unat x" by simp
    let ?n = "lead_count (unat x)" and ?ys = "take (lead_count (unat x)) (rest @ [0])"
    have full: "?n \<le> length rest" if all: "list_all is_cont ?ys"
    proof (rule ccontr)
      assume "\<not> ?n \<le> length rest"
      then have "0 \<in> set ?ys" by simp
      with all zero_not_cont show False by (auto simp: list_all_iff)
    qed
    show ?thesis
    proof (cases "list_all is_cont ?ys \<and> ?n = 7")
      case True
      then have n: "?n = 7" and all: "list_all is_cont (take 7 (rest @ [0]))" by (blast, metis)
      from True full n have len: "7 \<le> length rest" by metis
      then have "take 7 (rest @ [0]) = take 7 rest" by simp
      with all len have "bad_shift_at u 0"
        using n lead_count_7(2) [of x] unfolding bad_shift_at_def Cons by simp
      moreover have "utf8_decode (u @ [0]) = Undef BadShift"
        unfolding Cons append_Cons utf8_decode_lead [OF x] n Let_def using all len by simp
      ultimately show ?thesis by blast
    next
      case False
      show ?thesis
      proof (cases "list_all is_cont ?ys")
        case True
        with False have "\<not> 32 \<le> ?n * 5" using lead_count_7(1) [of x] by auto
        moreover have "length ?ys = ?n" using full [OF True] by simp
        ultimately show ?thesis
          using True utf8_decode_defined [OF x refl] unfolding Cons append_Cons by blast
      next
        case False
        then show ?thesis using utf8_decode_no_cont [OF x refl] unfolding Cons append_Cons by blast
      qed
    qed
  qed
qed

lemma bad_shift_at_drop: "pos \<le> length s \<Longrightarrow> bad_shift_at (drop pos s) 0 \<Longrightarrow> bad_shift_at s pos"
  by (auto simp: bad_shift_at_def)

lemma check_loop_outcome:
  "(\<exists>ok. check_utf8_loop s pos = Ret ok) \<or> (check_utf8_loop s pos = Undef BadShift \<and> (\<exists>i. bad_shift_at s i))"
proof (induction s pos rule: check_utf8_loop.induct)
  case (1 s pos)
  show ?case
  proof (cases "pos \<le> length s")
    case False
    then have "check_utf8_loop s pos = Ret True" by (simp add: check_utf8_loop.simps)
    then show ?thesis by blast
  next
    case True
    then have d: "drop pos (s @ [0]) = drop pos s @ [0]" by simp
    from utf8_decode_outcome [of "drop pos s"] show ?thesis
    proof (elim disjE exE conjE)
      fix r assume r: "utf8_decode (drop pos s @ [0]) = Ret r"
      show ?thesis
      proof (cases r)
        case None
        with r True d have "check_utf8_loop s pos = Ret False" by (subst check_utf8_loop.simps) simp
        then show ?thesis by blast
      next
        case (Some a)
        with r d True "1.IH" [OF True, of r a "fst a" "snd a"] show ?thesis
          by (subst (1 2) check_utf8_loop.simps) (simp add: case_prod_beta)
      qed
    next
      assume "utf8_decode (drop pos s @ [0]) = Undef BadShift" "bad_shift_at (drop pos s) 0"
      with True d bad_shift_at_drop [OF True] show ?thesis
        by (subst (1 2) check_utf8_loop.simps) auto
    qed
  qed
qed

lemma check_loop_skip:
  assumes "\<forall>c \<in> set cs. scalar_value c" "drop pos s = concat (map utf8_bytes cs) @ rest" "pos \<le> length s"
  shows "check_utf8_loop s pos = check_utf8_loop s (pos + length (concat (map utf8_bytes cs)))"
  using assms
proof (induction cs arbitrary: pos)
  case (Cons c cs)
  let ?n = "length (utf8_bytes c)" and ?tail = "concat (map utf8_bytes cs)"
  have "drop pos (s @ [0]) = utf8_bytes c @ ?tail @ rest @ [0]" using Cons.prems by simp
  then have dec: "utf8_decode (drop pos (s @ [0])) = Ret (Some (?n - 1, of_nat c))"
    using Cons.prems(1) by (simp add: utf8_decode_complete)
  have n: "pos + (?n - 1) + 1 = pos + ?n" using length_utf8_bytes(1) [of c] by simp
  have "check_utf8_loop s pos = check_utf8_loop s (pos + ?n)"
    using Cons.prems(3) by (subst check_utf8_loop.simps) (simp only: dec n if_True cres.case option.case prod.case)
  also have "\<dots> = check_utf8_loop s (pos + ?n + length ?tail)"
  proof (rule Cons.IH)
    have "drop (pos + ?n) s = drop ?n (drop pos s)" by (simp add: add.commute)
    then show "drop (pos + ?n) s = ?tail @ rest" unfolding Cons.prems(2) by simp
    have "length (drop pos s) = ?n + length ?tail + length rest" unfolding Cons.prems(2) by simp
    then show "pos + ?n \<le> length s" using Cons.prems(3) by simp
  qed (use Cons.prems(1) in simp)
  finally show ?case by (simp add: add.assoc)
qed simp

lemma utf8_decode_bad:
  assumes "bad_shift_at u 0"
  shows "utf8_decode (u @ [0]) = Undef BadShift"
proof -
  obtain x rest where u: "u = x # rest" using assms by (cases u) (auto simp: bad_shift_at_def)
  with assms have x: "x = 0xFF" and len: "7 \<le> length rest" and all: "list_all is_cont (take 7 rest)"
    by (auto simp: bad_shift_at_def)
  have n: "lead_count (unat x) = 7" using lead_count_7(2) x by blast
  have "128 \<le> unat x" using x by simp
  from utf8_decode_lead [OF this] show ?thesis
    unfolding u append_Cons n Let_def using all len by simp
qed

lemma check_loop_bad:
  assumes "utf8_well_formed (take i s)" and "bad_shift_at s i"
  shows "check_utf8_loop s 0 = Undef BadShift"
proof -
  obtain cs where cs: "\<forall>c \<in> set cs. scalar_value c" "take i s = concat (map utf8_bytes cs)"
    using assms(1) by (auto simp: utf8_well_formed_def)
  have i: "i < length s" using assms(2) by (simp add: bad_shift_at_def)
  have "check_utf8_loop s 0 = check_utf8_loop s i"
    using check_loop_skip [OF cs(1), of 0 s "drop i s"] cs(2) [symmetric] i by simp
  moreover have "bad_shift_at (drop i s) 0" using assms(2) i by (auto simp: bad_shift_at_def)
  then have "utf8_decode (drop i (s @ [0])) = Undef BadShift" using utf8_decode_bad i by simp
  then have "check_utf8_loop s i = Undef BadShift" using i by (subst check_utf8_loop.simps) simp
  ultimately show ?thesis by simp
qed

lemma check_loop_Undef:
  "check_utf8_loop s pos = Undef u \<Longrightarrow> \<exists>i \<ge> pos. utf8_well_formed (take (i - pos) (drop pos s)) \<and> bad_shift_at s i"
proof (induction s pos rule: check_utf8_loop.induct)
  case (1 s pos)
  show ?case
  proof (cases "pos \<le> length s")
    case False
    then have "check_utf8_loop s pos = Ret True" by (simp add: check_utf8_loop.simps)
    with "1.prems" show ?thesis by simp
  next
    case True
    then have d: "drop pos (s @ [0]) = drop pos s @ [0]" by simp
    from utf8_decode_outcome [of "drop pos s"] show ?thesis
    proof (elim disjE exE conjE)
      assume "bad_shift_at (drop pos s) 0"
      then have "bad_shift_at s pos" using bad_shift_at_drop True by blast
      moreover have "utf8_well_formed []" by (auto simp: utf8_well_formed_def intro: exI [of _ "[]"])
      ultimately show ?thesis by (intro exI [of _ pos]) simp
    next
      fix r assume r: "utf8_decode (drop pos s @ [0]) = Ret r"
      have "r \<noteq> None"
      proof
        assume "r = None"
        with r True d have "check_utf8_loop s pos = Ret False" by (subst check_utf8_loop.simps) simp
        with "1.prems" show False by simp
      qed
      then obtain n w where a: "r = Some (n, w)" by (cases r) auto
      have rest: "check_utf8_loop s (pos + n + 1) = Undef u"
        using "1.prems" True r d a by (subst (asm) check_utf8_loop.simps) simp
      from "1.IH" [OF True, of "Some (n, w)" "(n, w)" n w] r d a rest
      obtain i where i: "pos + n + 1 \<le> i" "utf8_well_formed (take (i - (pos + n + 1)) (drop (pos + n + 1) s))"
        "bad_shift_at s i" by auto
      from utf8_decode_sound r a obtain c r' where c: "scalar_value c" "drop pos s @ [0] = utf8_bytes c @ r'"
        "length (utf8_bytes c) = Suc n" by blast
      have i_len: "i < length s" using i(3) by (simp add: bad_shift_at_def)
      have "take (Suc n) (drop pos s) = utf8_bytes c"
      proof -
        have "take (Suc n) (drop pos s @ [0]) = utf8_bytes c" unfolding c(2) using c(3) by simp
        then show ?thesis using i(1) i_len by simp
      qed
      moreover have "i - pos = Suc n + (i - (pos + n + 1))" using i(1) by simp
      then have "take (i - pos) (drop pos s) = take (Suc n) (drop pos s) @ take (i - (pos + n + 1)) (drop (pos + n + 1) s)"
        by (simp only: take_add drop_drop) (simp add: add.commute)
      moreover obtain cs where "\<forall>c \<in> set cs. scalar_value c"
        "take (i - (pos + n + 1)) (drop (pos + n + 1) s) = concat (map utf8_bytes cs)"
        using i(2) by (auto simp: utf8_well_formed_def)
      ultimately have "utf8_well_formed (take (i - pos) (drop pos s))"
        using c(1) by (auto simp: utf8_well_formed_def intro!: exI [of _ "c # cs"])
      with i(1,3) show ?thesis by (intro exI [of _ i]) simp
    qed
  qed
qed

lemma check_utf8_string:
  assumes "\<not> (\<exists>i. bad_shift_at s i)"
  shows "check_utf8 H [LString s] (Suc 0) = Ret (if utf8_well_formed s then Some s else None)"
proof -
  obtain ok where ok: "check_utf8_loop s 0 = Ret ok" using check_loop_outcome [of s 0] assms by blast
  have "ok \<longleftrightarrow> utf8_well_formed s"
    using ok check_loop_sound [of s 0] check_loop_accepts [of _ 0 s]
    by (auto simp: utf8_well_formed_def)
  with ok show ?thesis by (simp add: check_utf8_def lua_api c_sem)
qed

section \<open>Properties\<close>

text \<open>C9: the decoder accepts exactly the encodings of Unicode scalar values at the head of its
  input (no overlong form, no surrogate, nothing above U+10FFFF), and returns the value and the
  length of the encoding.\<close>

theorem utf8_decode_iff:
  "utf8_decode s = Ret (Some (n, v)) \<longleftrightarrow>
    (\<exists>c rest. scalar_value c \<and> s = utf8_bytes c @ rest \<and> length (utf8_bytes c) = Suc n \<and> v = of_nat c)"
  using utf8_decode_sound [of s n v] utf8_decode_complete by auto

text \<open>C2: \<open>utf8.valid\<close> returns true exactly on the strings that are a concatenation of encodings of
  Unicode scalar values.\<close>

theorem utf8_valid_iff:
  "Lutf8_valid H [LString s] = Ret [LBool True] \<longleftrightarrow> utf8_well_formed s"
proof -
  have "check_utf8_loop s 0 = Ret True \<longleftrightarrow> utf8_well_formed s"
    using check_loop_accepts [of _ 0 s] check_loop_sound [of s 0]
    by (auto simp: utf8_well_formed_def)
  then show ?thesis
    using check_loop_outcome [of s 0]
    by (auto simp: Lutf8_valid_def check_utf8_def lua_api c_sem)
qed

text \<open>C24: on every string \<open>utf8.valid\<close> tells whether it is well-formed, without reading past the
  terminating NUL, except that its behaviour is undefined, by a shift past the width of its
  type, exactly when a well-formed beginning of the string is followed by \<open>0xFF\<close> and seven
  continuation bytes.\<close>

theorem utf8_valid_outcome:
  "Lutf8_valid H [LString s] =
    (if \<exists>i. utf8_well_formed (take i s) \<and> bad_shift_at s i then Undef BadShift
     else Ret [LBool (utf8_well_formed s)])"
proof (cases "\<exists>i. utf8_well_formed (take i s) \<and> bad_shift_at s i")
  case True
  then have "check_utf8_loop s 0 = Undef BadShift" using check_loop_bad by blast
  with True show ?thesis by (simp add: Lutf8_valid_def check_utf8_def lua_api c_sem)
next
  case False
  then obtain ok where ok: "check_utf8_loop s 0 = Ret ok"
    using check_loop_outcome [of s 0] check_loop_Undef [of s 0] by auto
  moreover have "ok \<longleftrightarrow> utf8_well_formed s"
    using ok check_loop_sound [of s 0] check_loop_accepts [of _ 0 s] by (auto simp: utf8_well_formed_def)
  ultimately show ?thesis using False by (simp add: Lutf8_valid_def check_utf8_def lua_api c_sem)
qed

text \<open>\<open>utf8.length\<close> returns the number of bytes, not of characters, of a well-formed string, and nil
  with a message for any other.\<close>

theorem utf8_length_result:
  assumes "\<not> (\<exists>i. bad_shift_at s i)"
  shows "Lutf8_length H [LString s] =
    Ret (if utf8_well_formed s then [LNumber (of_nat (length s))] else [LNil, LString (bs ''invalid utf8'')])"
  using check_utf8_string [OF assms, of H] by (simp add: Lutf8_length_def)

text \<open>U+00E9 is one character of two bytes.\<close>

theorem utf8_length_result_witness: "Lutf8_length plain_host [LString [0xc3, 0xa9]] = Ret [LNumber 2]"
proof -
  have "\<not> (\<exists>i. bad_shift_at [0xc3, 0xa9] i)"
    by (auto simp: bad_shift_at_def)
  moreover have "utf8_well_formed [0xc3, 0xa9]"
    unfolding utf8_well_formed_def by (rule exI [of _ "[0xe9]"]) (simp add: scalar_value_def utf8_bytes_def)
  ultimately show ?thesis using utf8_length_result [of "[0xc3, 0xa9]" plain_host] by simp
qed

end
