(* ===== verification/Stringprep.thy ===== *)
theory Stringprep
  imports Utf8
begin

text \<open>
  The stringprep and IDNA wrappers of \<open>util-src/encodings.c\<close>, in both builds: with libidn and with
  ICU (\<open>USE_STRINGPREP_ICU\<close>). The two libraries are parameters: records of the functions the
  wrappers call. What the wrappers themselves guarantee is which strings reach the library and
  that the fixed buffers of 1024 bytes are never overrun.
\<close>

section \<open>libidn\<close>

text \<open>
  \<open>stringprep\<close> works in place on a buffer of the given size: a return code and the C string in
  the buffer afterwards. The IDNA functions return a code and a fresh C string.
\<close>

record 'p libidn =
  stringprep :: "byte list \<Rightarrow> nat \<Rightarrow> 'p \<Rightarrow> int \<times> byte list"
  idna_to_ascii_8z :: "byte list \<Rightarrow> int \<times> byte list"
  idna_to_unicode_8z8z :: "byte list \<Rightarrow> int \<times> byte list"

definition STRINGPREP_OK :: int where "STRINGPREP_OK = 0"
definition IDNA_SUCCESS :: int where "IDNA_SUCCESS = 0"

text \<open>\<open>strcpy\<close> of a C string and its NUL into an array of \<open>n\<close> bytes.\<close>

definition strcpy_into :: "nat \<Rightarrow> byte list \<Rightarrow> byte list cres" where
  "strcpy_into n s = (if length (cstr s) + 1 \<le> n then Ret (cstr s) else Undef OutOfBounds)"

definition stringprep_prep :: "host \<Rightarrow> 'p libidn \<Rightarrow> 'p \<Rightarrow> lua_args \<Rightarrow> lua_value list cres" where
  "stringprep_prep H lib profile L =
    (if \<not> lua_isstring (lua_arg L 1) then Ret [LNil]
     else
       cbind (check_utf8 H L 1) (\<lambda>r.
         case r of
           None \<Rightarrow> Ret [LNil]
         | Some s \<Rightarrow>
             if length s \<ge> 1024 \<or> length s \<noteq> length (cstr s) then Ret [LNil]
             else
               cbind (strcpy_into 1024 s) (\<lambda>str.
                 let (ret, out) = stringprep lib str 1024 profile in
                 if ret = STRINGPREP_OK then Ret [LString (cstr out)] else Ret [LNil])))"

definition Lidna_to_ascii :: "host \<Rightarrow> 'p libidn \<Rightarrow> lua_args \<Rightarrow> lua_value list cres" where
  "Lidna_to_ascii H lib L =
    cbind (check_utf8 H L 1) (\<lambda>r.
      case r of
        None \<Rightarrow> Ret [LNil]
      | Some s \<Rightarrow>
          if length s \<noteq> length (cstr s) then Ret [LNil]
          else
            let (ret, out) = idna_to_ascii_8z lib (cstr s) in
            if ret = IDNA_SUCCESS then Ret [LString (cstr out)] else Ret [LNil])"

definition Lidna_to_unicode :: "host \<Rightarrow> 'p libidn \<Rightarrow> lua_args \<Rightarrow> lua_value list cres" where
  "Lidna_to_unicode H lib L =
    cbind (luaL_checklstring H L 1) (\<lambda>s.
      let (ret, out) = idna_to_unicode_8z8z lib (cstr s) in
      if ret = IDNA_SUCCESS then Ret [LString (cstr out)] else Ret [LNil])"

text \<open>The four profiles of libidn, and the exported functions, one for each.\<close>

record 'p libidn_profiles =
  stringprep_nameprep :: 'p
  stringprep_xmpp_nodeprep :: 'p
  stringprep_xmpp_resourceprep :: 'p
  stringprep_saslprep :: 'p

definition Lstringprep_nameprep :: "host \<Rightarrow> 'p libidn \<Rightarrow> 'p libidn_profiles \<Rightarrow> lua_args \<Rightarrow> lua_value list cres" where
  "Lstringprep_nameprep H lib P = stringprep_prep H lib (stringprep_nameprep P)"

definition Lstringprep_nodeprep :: "host \<Rightarrow> 'p libidn \<Rightarrow> 'p libidn_profiles \<Rightarrow> lua_args \<Rightarrow> lua_value list cres" where
  "Lstringprep_nodeprep H lib P = stringprep_prep H lib (stringprep_xmpp_nodeprep P)"

definition Lstringprep_resourceprep :: "host \<Rightarrow> 'p libidn \<Rightarrow> 'p libidn_profiles \<Rightarrow> lua_args \<Rightarrow> lua_value list cres" where
  "Lstringprep_resourceprep H lib P = stringprep_prep H lib (stringprep_xmpp_resourceprep P)"

definition Lstringprep_saslprep :: "host \<Rightarrow> 'p libidn \<Rightarrow> 'p libidn_profiles \<Rightarrow> lua_args \<Rightarrow> lua_value list cres" where
  "Lstringprep_saslprep H lib P = stringprep_prep H lib (stringprep_saslprep P)"

section \<open>ICU\<close>

text \<open>
  The ICU functions take the error code of the calls before them and do nothing when it is a
  failure already; here each returns its error code, the length it reports and the contents of
  the destination buffer. A code above 0 is a failure. \<open>u_strFromUTF8\<close> takes the string and its length,
  an \<open>int32_t\<close>.
\<close>

record ('p, 'u) icu =
  u_strFromUTF8 :: "byte list \<Rightarrow> int \<Rightarrow> int \<times> nat \<times> 'u list"
  u_strToUTF8 :: "'u list \<Rightarrow> int \<times> nat \<times> byte list"
  usprep_prepare :: "'p \<Rightarrow> 'u list \<Rightarrow> int \<times> nat \<times> 'u list"
  uidna_IDNToASCII :: "'u list \<Rightarrow> int \<times> nat \<times> 'u list"
  uidna_IDNToUnicode :: "'u list \<Rightarrow> int \<times> nat \<times> 'u list"

definition U_FAILURE :: "int \<Rightarrow> bool" where
  "U_FAILURE err \<longleftrightarrow> err > 0"

text \<open>What the three ICU wrappers share: convert to UTF-16, transform, convert back, and push
  the result when it fits the output array.\<close>

definition icu_convert ::
  "('p, 'u) icu \<Rightarrow> ('u list \<Rightarrow> int \<times> nat \<times> 'u list) \<Rightarrow> byte list \<Rightarrow> lua_value list cres" where
  "icu_convert lib transform s =
    (let (err1, ulen, ustr) = u_strFromUTF8 lib s (cast_int (int (length s))) in
     if U_FAILURE err1 then Ret [LNil]
     else
       cbind (mem_slice ustr 0 ulen) (\<lambda>ustr.
         let (err2, dest_len, dest) = transform ustr in
         if U_FAILURE err2 then Ret [LNil]
         else
           cbind (mem_slice dest 0 dest_len) (\<lambda>dest.
             let (err3, output_len, output) = u_strToUTF8 lib dest in
             if \<not> U_FAILURE err3 \<and> output_len < 1024
             then cbind (mem_slice output 0 output_len) (\<lambda>out. Ret [LString out])
             else Ret [LNil])))"

definition icu_stringprep_prep ::
  "host \<Rightarrow> ('p, 'u) icu \<Rightarrow> 'p \<Rightarrow> lua_args \<Rightarrow> lua_value list cres" where
  "icu_stringprep_prep H lib profile L =
    (if \<not> lua_isstring (lua_arg L 1) then Ret [LNil]
     else
       cbind (luaL_checklstring H L 1) (\<lambda>input.
         if length input \<ge> 1024 then Ret [LNil]
         else icu_convert lib (usprep_prepare lib profile) input))"

text \<open>The global profiles: \<open>usprep_openByType\<close> gets the error code of the calls before it and returns
  a profile (\<open>None\<close> is the null pointer) and the new code. \<open>init_icu\<close> opens all four with one code;
  the second component of its result is the code of the message to standard error, if one is
  printed.\<close>

datatype prep_type =
    USPREP_RFC3491_NAMEPREP
  | USPREP_RFC3920_NODEPREP
  | USPREP_RFC3920_RESOURCEPREP
  | USPREP_RFC4013_SASLPREP

type_synonym 'p usprep_open = "prep_type \<Rightarrow> int \<Rightarrow> 'p option \<times> int"

record 'p icu_profiles =
  icu_nameprep :: "'p option"
  icu_nodeprep :: "'p option"
  icu_resourceprep :: "'p option"
  icu_saslprep :: "'p option"

definition init_icu :: "'p usprep_open \<Rightarrow> 'p icu_profiles \<times> int option" where
  "init_icu usprep_openByType =
    (let (nameprep, err) = usprep_openByType USPREP_RFC3491_NAMEPREP 0;
         (nodeprep, err) = usprep_openByType USPREP_RFC3920_NODEPREP err;
         (resourceprep, err) = usprep_openByType USPREP_RFC3920_RESOURCEPREP err;
         (saslprep, err) = usprep_openByType USPREP_RFC4013_SASLPREP err
     in (\<lparr>icu_nameprep = nameprep, icu_nodeprep = nodeprep, icu_resourceprep = resourceprep, icu_saslprep = saslprep\<rparr>,
         if U_FAILURE err then Some err else None))"

definition Lstringprep_nameprep_icu ::
  "host \<Rightarrow> ('p option, 'u) icu \<Rightarrow> 'p icu_profiles \<Rightarrow> lua_args \<Rightarrow> lua_value list cres" where
  "Lstringprep_nameprep_icu H lib P = icu_stringprep_prep H lib (icu_nameprep P)"

definition Lstringprep_nodeprep_icu ::
  "host \<Rightarrow> ('p option, 'u) icu \<Rightarrow> 'p icu_profiles \<Rightarrow> lua_args \<Rightarrow> lua_value list cres" where
  "Lstringprep_nodeprep_icu H lib P = icu_stringprep_prep H lib (icu_nodeprep P)"

definition Lstringprep_resourceprep_icu ::
  "host \<Rightarrow> ('p option, 'u) icu \<Rightarrow> 'p icu_profiles \<Rightarrow> lua_args \<Rightarrow> lua_value list cres" where
  "Lstringprep_resourceprep_icu H lib P = icu_stringprep_prep H lib (icu_resourceprep P)"

definition Lstringprep_saslprep_icu ::
  "host \<Rightarrow> ('p option, 'u) icu \<Rightarrow> 'p icu_profiles \<Rightarrow> lua_args \<Rightarrow> lua_value list cres" where
  "Lstringprep_saslprep_icu H lib P = icu_stringprep_prep H lib (icu_saslprep P)"

definition Lidna_to_ascii_icu :: "host \<Rightarrow> ('p, 'u) icu \<Rightarrow> lua_args \<Rightarrow> lua_value list cres" where
  "Lidna_to_ascii_icu H lib L =
    cbind (luaL_checklstring H L 1) (icu_convert lib (uidna_IDNToASCII lib))"

definition Lidna_to_unicode_icu :: "host \<Rightarrow> ('p, 'u) icu \<Rightarrow> lua_args \<Rightarrow> lua_value list cres" where
  "Lidna_to_unicode_icu H lib L =
    cbind (luaL_checklstring H L 1) (icu_convert lib (uidna_IDNToUnicode lib))"

section \<open>Properties\<close>

lemma strcpy_fits: "length s < 1024 \<Longrightarrow> 0 \<notin> set s \<Longrightarrow> strcpy_into 1024 s = Ret s"
  by (simp add: strcpy_into_def cstr_id)

text \<open>C27: with libidn, a stringprep function hands a string to the library exactly when the
  string is well-formed UTF-8 without NUL and shorter than the buffer of 1024 bytes, into which
  the copy always fits; every other string gives nil.\<close>

theorem stringprep_prep_guards:
  assumes "\<not> (\<exists>i. bad_shift_at s i)"
  shows "stringprep_prep H lib profile [LString s] =
    (if utf8_well_formed s \<and> 0 \<notin> set s \<and> length s < 1024
     then Ret [if fst (stringprep lib s 1024 profile) = STRINGPREP_OK
               then LString (cstr (snd (stringprep lib s 1024 profile))) else LNil]
     else Ret [LNil])"
  using cstr_length_eq [of s] strcpy_fits [of s]
  by (auto simp: stringprep_prep_def check_utf8_string [OF assms] lua_api case_prod_beta Let_def)

definition identity_libidn :: "unit libidn" where
  "identity_libidn = \<lparr>stringprep = (\<lambda>s n p. (0, s)), idna_to_ascii_8z = (\<lambda>s. (0, s)),
     idna_to_unicode_8z8z = (\<lambda>s. (0, s))\<rparr>"

lemma ascii_well_formed: "\<forall>x \<in> set s. unat x < 128 \<Longrightarrow> utf8_well_formed s"
  unfolding utf8_well_formed_def
proof (intro exI conjI)
  assume a: "\<forall>x \<in> set s. unat x < 128"
  then show "\<forall>c \<in> set (map unat s). scalar_value c" by (auto simp: scalar_value_def)
  from a show "s = concat (map utf8_bytes (map unat s))"
    by (induction s) (auto simp: utf8_bytes_def byte_eq_of_nat)
qed

theorem stringprep_prep_guards_witness:
  "stringprep_prep plain_host identity_libidn () [LString [97, 98]] = Ret [LString [97, 98]]"
proof -
  have "\<not> (\<exists>i. bad_shift_at [97, 98] i)" by (simp add: bad_shift_at_def)
  moreover have "utf8_well_formed [97, 98]" by (rule ascii_well_formed) simp
  ultimately show ?thesis
    using stringprep_prep_guards [of "[97, 98]" plain_host identity_libidn "()"]
    by (simp add: identity_libidn_def STRINGPREP_OK_def cstr_def)
qed

text \<open>With libidn, \<open>idna.to_ascii\<close> rejects invalid UTF-8 and embedded NUL, but \<open>idna.to_unicode\<close>
  does not look: it gives the library whatever stands before the first NUL, so a string and its
  prefix up to a NUL have the same result, and invalid UTF-8 reaches the library.\<close>

theorem idna_guards:
  assumes "\<not> (\<exists>i. bad_shift_at s i)"
  shows "(\<not> utf8_well_formed s \<or> 0 \<in> set s \<longrightarrow> Lidna_to_ascii H lib [LString s] = Ret [LNil]) \<and>
    Lidna_to_unicode H lib [LString s] =
      Ret [if fst (idna_to_unicode_8z8z lib (cstr s)) = IDNA_SUCCESS
           then LString (cstr (snd (idna_to_unicode_8z8z lib (cstr s)))) else LNil]"
  using cstr_length_eq [of s]
  by (auto simp: Lidna_to_ascii_def Lidna_to_unicode_def check_utf8_string [OF assms] lua_api
      c_sem case_prod_beta Let_def)

theorem idna_guards_witness:
  "Lidna_to_ascii plain_host identity_libidn [LString [97, 0, 98]] = Ret [LNil] \<and>
   Lidna_to_unicode plain_host identity_libidn [LString [97, 0, 98]] = Ret [LString [97]]"
proof -
  have "\<not> (\<exists>i. bad_shift_at [97, 0, 98] i)" by (simp add: bad_shift_at_def)
  from idna_guards [OF this, of plain_host identity_libidn] show ?thesis
    by (simp add: identity_libidn_def IDNA_SUCCESS_def cstr_def)
qed

section \<open>The ICU build\<close>

text \<open>What ICU documents of its conversions into a buffer of 1024 units: unless the call fails, the
  length it reports is at most the capacity.\<close>

definition fits_buffer :: "int \<times> nat \<times> 'a list \<Rightarrow> bool" where
  "fits_buffer = (\<lambda>(err, n, dest). \<not> U_FAILURE err \<longrightarrow> n \<le> 1024 \<and> n \<le> length dest)"

definition icu_documented :: "('p, 'u) icu \<Rightarrow> bool" where
  "icu_documented lib \<longleftrightarrow>
    (\<forall>s n. fits_buffer (u_strFromUTF8 lib s n)) \<and> (\<forall>u. fits_buffer (u_strToUTF8 lib u)) \<and>
    (\<forall>p u. fits_buffer (usprep_prepare lib p u)) \<and>
    (\<forall>u. fits_buffer (uidna_IDNToASCII lib u)) \<and> (\<forall>u. fits_buffer (uidna_IDNToUnicode lib u))"

lemma mem_slice_front: "n \<le> length xs \<Longrightarrow> mem_slice xs 0 n = Ret (take n xs)"
  by (simp add: mem_slice_def)

text \<open>A conversion that succeeds with a result; the result of the three conversions of a string, when
  all of them succeed and it is shorter than the output array.\<close>

definition converts :: "int \<times> nat \<times> 'a list \<Rightarrow> 'a list \<Rightarrow> bool" where
  "converts c out \<longleftrightarrow> (case c of (err, n, dest) \<Rightarrow> \<not> U_FAILURE err \<and> out = take n dest)"

definition icu_output ::
  "('p, 'u) icu \<Rightarrow> ('u list \<Rightarrow> int \<times> nat \<times> 'u list) \<Rightarrow> byte list \<Rightarrow> byte list \<Rightarrow> bool" where
  "icu_output lib transform s out \<longleftrightarrow>
    (\<exists>u v. converts (u_strFromUTF8 lib s (cast_int (int (length s)))) u \<and> converts (transform u) v \<and>
       converts (u_strToUTF8 lib v) out \<and> length out < 1024)"

lemma icu_convert_cases:
  assumes "icu_documented lib" and "\<And>u. fits_buffer (transform u)"
  shows "icu_convert lib transform s = Ret [LNil] \<and> (\<forall>out. \<not> icu_output lib transform s out) \<or>
    (\<exists>out. icu_convert lib transform s = Ret [LString out] \<and> (\<forall>o'. icu_output lib transform s o' \<longleftrightarrow> o' = out))"
proof -
  obtain e1 n1 d1 where c1: "u_strFromUTF8 lib s (cast_int (int (length s))) = (e1, n1, d1)" by (metis prod_cases3)
  obtain e2 n2 d2 where c2: "transform (take n1 d1) = (e2, n2, d2)" by (metis prod_cases3)
  obtain e3 n3 d3 where c3: "u_strToUTF8 lib (take n2 d2) = (e3, n3, d3)" by (metis prod_cases3)
  have "fits_buffer (u_strFromUTF8 lib s (cast_int (int (length s))))" "fits_buffer (u_strToUTF8 lib (take n2 d2))"
    using assms(1) by (simp_all add: icu_documented_def)
  with assms(2) [of "take n1 d1"] c1 c2 c3
  have f: "\<not> U_FAILURE e1 \<Longrightarrow> n1 \<le> length d1" "\<not> U_FAILURE e2 \<Longrightarrow> n2 \<le> length d2"
    "\<not> U_FAILURE e3 \<Longrightarrow> n3 \<le> length d3"
    by (simp_all add: fits_buffer_def)
  have out: "icu_output lib transform s x \<longleftrightarrow>
      \<not> U_FAILURE e1 \<and> \<not> U_FAILURE e2 \<and> \<not> U_FAILURE e3 \<and> n3 < 1024 \<and> x = take n3 d3" for x
    using c1 c2 c3 f by (auto simp: icu_output_def converts_def min_def split: if_splits)
  consider "U_FAILURE e1" | "\<not> U_FAILURE e1" "U_FAILURE e2" | "\<not> U_FAILURE e1" "\<not> U_FAILURE e2" by blast
  then show ?thesis
    by cases (use c1 c2 c3 f out in \<open>auto simp: icu_convert_def mem_slice_front\<close>)
qed

lemma icu_convert_iff:
  assumes "icu_documented lib" and "\<And>u. fits_buffer (transform u)"
  shows "icu_convert lib transform s = Ret [LString out] \<longleftrightarrow> icu_output lib transform s out"
    "icu_convert lib transform s = Ret [LNil] \<or> (\<exists>out. icu_convert lib transform s = Ret [LString out])"
proof -
  from icu_convert_cases [where transform = transform and s = s, OF assms]
  have "(icu_convert lib transform s = Ret [LString out] \<longleftrightarrow> icu_output lib transform s out) \<and>
    (icu_convert lib transform s = Ret [LNil] \<or> (\<exists>out. icu_convert lib transform s = Ret [LString out]))"
  proof (elim disjE exE conjE)
    fix x assume x: "icu_convert lib transform s = Ret [LString x]" "\<forall>o'. icu_output lib transform s o' \<longleftrightarrow> o' = x"
    have "icu_output lib transform s out \<longleftrightarrow> out = x" using x(2) by (rule spec)
    with x(1) show ?thesis by (simp add: eq_commute)
  qed simp
  then show "icu_convert lib transform s = Ret [LString out] \<longleftrightarrow> icu_output lib transform s out"
    "icu_convert lib transform s = Ret [LNil] \<or> (\<exists>out. icu_convert lib transform s = Ret [LString out])" by blast+
qed

text \<open>C29: with ICU, a stringprep function returns the converted string exactly when its argument is a string
  (or a number) of less than 1024 bytes, all three conversions succeed and the result is shorter than
  1024 bytes, and nil otherwise. The IDNA functions raise a type error exactly when their argument is
  neither a string nor a number, and otherwise return the converted string exactly when all conversions
  succeed and the result is shorter than 1024 bytes, and nil else. No call reads past one of the arrays
  of 1024 units.\<close>

theorem icu_bounded:
  assumes "icu_documented lib"
  shows "(\<forall>out. icu_stringprep_prep H lib profile L = Ret [LString out] \<longleftrightarrow>
      (\<exists>s. lua_tostring H (lua_arg L 1) = Some s \<and> length s < 1024 \<and> icu_output lib (usprep_prepare lib profile) s out)) \<and>
    (icu_stringprep_prep H lib profile L = Ret [LNil] \<or> (\<exists>out. icu_stringprep_prep H lib profile L = Ret [LString out])) \<and>
    (\<forall>(f, transform) \<in> {(Lidna_to_ascii_icu H lib, uidna_IDNToASCII lib), (Lidna_to_unicode_icu H lib, uidna_IDNToUnicode lib)}.
      (f L = Raise (TypeError 1) \<longleftrightarrow> lua_tostring H (lua_arg L 1) = None) \<and>
      (\<forall>out. f L = Ret [LString out] \<longleftrightarrow>
        (\<exists>s. lua_tostring H (lua_arg L 1) = Some s \<and> icu_output lib transform s out)) \<and>
      (f L = Raise (TypeError 1) \<or> f L = Ret [LNil] \<or> (\<exists>out. f L = Ret [LString out])))"
proof -
  have doc: "fits_buffer (usprep_prepare lib profile u)" "fits_buffer (uidna_IDNToASCII lib u)"
    "fits_buffer (uidna_IDNToUnicode lib u)" for u
    using assms by (simp_all add: icu_documented_def)
  note prep = icu_convert_iff [where transform = "usprep_prepare lib profile", OF assms doc(1)] and ascii = icu_convert_iff [where transform = "uidna_IDNToASCII lib", OF assms doc(2)] and unicode = icu_convert_iff [where transform = "uidna_IDNToUnicode lib", OF assms doc(3)]
  have 1: "(icu_stringprep_prep H lib profile L = Ret [LString out] \<longleftrightarrow>
      (\<exists>s. lua_tostring H (lua_arg L 1) = Some s \<and> length s < 1024 \<and> icu_output lib (usprep_prepare lib profile) s out)) \<and>
    (icu_stringprep_prep H lib profile L = Ret [LNil] \<or> (\<exists>out. icu_stringprep_prep H lib profile L = Ret [LString out]))" for out
  proof (cases "lua_tostring H (lua_arg L 1)")
    case None
    then show ?thesis
      by (cases "lua_arg L 1" rule: lua_isstring.cases) (simp_all add: icu_stringprep_prep_def luaL_checklstring_def)
  next
    case (Some s)
    then have "icu_stringprep_prep H lib profile L =
        (if length s \<ge> 1024 then Ret [LNil] else icu_convert lib (usprep_prepare lib profile) s)"
      by (cases "lua_arg L 1" rule: lua_isstring.cases) (auto simp: icu_stringprep_prep_def luaL_checklstring_def)
    with Some prep show ?thesis by simp
  qed
  from 1 have 2: "icu_stringprep_prep H lib profile L = Ret [LNil] \<or> (\<exists>out. icu_stringprep_prep H lib profile L = Ret [LString out])"
    by blast
  have ascii_run: "Lidna_to_ascii_icu H lib L = (case lua_tostring H (lua_arg L 1) of
      None \<Rightarrow> Raise (TypeError 1) | Some s \<Rightarrow> icu_convert lib (uidna_IDNToASCII lib) s)"
    and unicode_run: "Lidna_to_unicode_icu H lib L = (case lua_tostring H (lua_arg L 1) of
      None \<Rightarrow> Raise (TypeError 1) | Some s \<Rightarrow> icu_convert lib (uidna_IDNToUnicode lib) s)"
    by (simp_all add: Lidna_to_ascii_icu_def Lidna_to_unicode_icu_def luaL_checklstring_def split: option.splits)
  have not_raise: "icu_convert lib t s \<noteq> Raise e"
    if "icu_convert lib t s = Ret [LNil] \<or> (\<exists>out. icu_convert lib t s = Ret [LString out])" for t s e
    using that by auto
  show ?thesis
  proof (cases "lua_tostring H (lua_arg L 1)")
    case None
    then show ?thesis using 1 2 ascii_run unicode_run by simp
  next
    case (Some s)
    then show ?thesis
      using 1 2 ascii_run unicode_run ascii unicode not_raise [OF ascii(2)] not_raise [OF unicode(2)] by simp
  qed
qed

definition copy_1024 :: "'a list \<Rightarrow> int \<times> nat \<times> 'a list" where
  "copy_1024 s = (if length s \<le> 1024 then (0, length s, s) else (15, 0, []))"

definition copy_icu :: "('p option, byte) icu" where
  "copy_icu = \<lparr>u_strFromUTF8 = (\<lambda>s n. copy_1024 (take (nat n) s)), u_strToUTF8 = copy_1024,
     usprep_prepare = (\<lambda>p u. if p = None then (1, 0, []) else copy_1024 u),
     uidna_IDNToASCII = copy_1024, uidna_IDNToUnicode = copy_1024\<rparr>"

lemma copy_icu_documented: "icu_documented copy_icu"
  by (simp add: icu_documented_def copy_icu_def copy_1024_def fits_buffer_def)

theorem icu_bounded_witness:
  "icu_stringprep_prep plain_host (copy_icu :: (unit option, byte) icu) (Some ()) [LString [0x61]] = Ret [LString [0x61]] \<and>
   Lidna_to_ascii_icu plain_host (copy_icu :: (unit option, byte) icu) [LString [0x61]] = Ret [LString [0x61]] \<and>
   Lidna_to_unicode_icu plain_host (copy_icu :: (unit option, byte) icu) [LNil] = Raise (TypeError 1)"
proof -
  have out: "icu_output (copy_icu :: (unit option, byte) icu) copy_1024 [0x61] [0x61]"
    by (simp add: icu_output_def converts_def copy_icu_def copy_1024_def U_FAILURE_def cast_int_of_nat [of 1, simplified])
  have f: "usprep_prepare (copy_icu :: (unit option, byte) icu) (Some ()) = copy_1024"
    "uidna_IDNToASCII (copy_icu :: (unit option, byte) icu) = copy_1024"
    by (simp_all add: copy_icu_def fun_eq_iff)
  note I = icu_bounded [OF copy_icu_documented, of plain_host "Some ()"]
  have "icu_stringprep_prep plain_host (copy_icu :: (unit option, byte) icu) (Some ()) [LString [0x61]] = Ret [LString [0x61]]"
    using I [of "[LString [0x61]]", THEN conjunct1] out f by (simp add: lua_arg_def)
  moreover have "Lidna_to_ascii_icu plain_host (copy_icu :: (unit option, byte) icu) [LString [0x61]] = Ret [LString [0x61]]"
    using I [of "[LString [0x61]]"] out f by (simp add: lua_arg_def)
  moreover have "Lidna_to_unicode_icu plain_host (copy_icu :: (unit option, byte) icu) [LNil] = Raise (TypeError 1)"
    using I [of "[LNil]"] by (simp add: lua_arg_def)
  ultimately show ?thesis by blast
qed

text \<open>What ICU documents of the profiles: a call after a failure does nothing, a failing call returns
  no profile, and preparing a string with no profile fails.\<close>

definition usprep_documented :: "'p usprep_open \<Rightarrow> ('p option, 'u) icu \<Rightarrow> bool" where
  "usprep_documented usprep_openByType lib \<longleftrightarrow>
    (\<forall>t err. U_FAILURE err \<longrightarrow> usprep_openByType t err = (None, err)) \<and>
    (\<forall>t err. U_FAILURE (snd (usprep_openByType t err)) \<longrightarrow> fst (usprep_openByType t err) = None) \<and>
    (\<forall>u. U_FAILURE (fst (usprep_prepare lib None u)))"

lemma icu_null_profile:
  assumes "icu_documented lib" and "usprep_documented opn lib"
  shows "icu_stringprep_prep H lib None L = Ret [LNil]"
proof -
  have "icu_convert lib (usprep_prepare lib None) s = Ret [LNil]" for s
  proof -
    obtain e1 n1 d1 where c1: "u_strFromUTF8 lib s (cast_int (int (length s))) = (e1, n1, d1)" by (metis prod_cases3)
    obtain e2 n2 d2 where c2: "usprep_prepare lib None (take n1 d1) = (e2, n2, d2)" by (metis prod_cases3)
    from assms(2) have "U_FAILURE (fst (usprep_prepare lib None (take n1 d1)))"
      by (simp add: usprep_documented_def)
    moreover have "fits_buffer (u_strFromUTF8 lib s (cast_int (int (length s))))" using assms(1) by (simp add: icu_documented_def)
    ultimately show ?thesis using c1 c2
      by (cases "U_FAILURE e1") (auto simp: icu_convert_def fits_buffer_def mem_slice_front)
  qed
  then show ?thesis
    by (cases "lua_arg L 1" rule: lua_isstring.cases)
      (auto simp: icu_stringprep_prep_def luaL_checklstring_def)
qed

text \<open>The error code after the first \<open>n\<close> profiles were opened, and the exported functions in that
  order.\<close>

fun prep_err :: "'p usprep_open \<Rightarrow> prep_type list \<Rightarrow> int \<Rightarrow> int" where
  "prep_err opn [] err = err"
| "prep_err opn (t # ts) err = prep_err opn ts (snd (opn t err))"

definition prep_types :: "prep_type list" where
  "prep_types = [USPREP_RFC3491_NAMEPREP, USPREP_RFC3920_NODEPREP, USPREP_RFC3920_RESOURCEPREP, USPREP_RFC4013_SASLPREP]"

definition prep_functions ::
  "(host \<Rightarrow> ('p option, 'u) icu \<Rightarrow> 'p icu_profiles \<Rightarrow> lua_args \<Rightarrow> lua_value list cres) list" where
  "prep_functions = [Lstringprep_nameprep_icu, Lstringprep_nodeprep_icu, Lstringprep_resourceprep_icu, Lstringprep_saslprep_icu]"

text \<open>The four profiles of the ICU build are opened with one error code: when one of them cannot be
  opened, its function and the functions of all later profiles return nil for every argument, and
  exactly then \<open>init_icu\<close> reports an error.\<close>

theorem init_icu_fails_closed:
  assumes "icu_documented lib" and "usprep_documented opn lib" and "init_icu opn = (P, report)"
  shows "(\<forall>i j. i \<le> j \<and> j < 4 \<and> U_FAILURE (prep_err opn (take (Suc i) prep_types) 0) \<longrightarrow>
      (prep_functions ! j) H lib P L = Ret [LNil]) \<and>
    (report \<noteq> None \<longleftrightarrow> (\<exists>i < 4. U_FAILURE (prep_err opn (take (Suc i) prep_types) 0)))"
proof -
  note null = icu_null_profile [OF assms(1,2), of H L]
  have after: "opn t err = (None, err)" if "U_FAILURE err" for t err
    using assms(2) that by (simp add: usprep_documented_def)
  have failing: "fst (opn t err) = None" if "U_FAILURE (snd (opn t err))" for t err
    using assms(2) that by (simp add: usprep_documented_def)
  obtain p1 e1 where o1: "opn USPREP_RFC3491_NAMEPREP 0 = (p1, e1)" by force
  obtain p2 e2 where o2: "opn USPREP_RFC3920_NODEPREP e1 = (p2, e2)" by force
  obtain p3 e3 where o3: "opn USPREP_RFC3920_RESOURCEPREP e2 = (p3, e3)" by force
  obtain p4 e4 where o4: "opn USPREP_RFC4013_SASLPREP e3 = (p4, e4)" by force
  have P: "P = \<lparr>icu_nameprep = p1, icu_nodeprep = p2, icu_resourceprep = p3, icu_saslprep = p4\<rparr>"
    and report: "report = (if U_FAILURE e4 then Some e4 else None)"
    using assms(3) by (simp_all add: init_icu_def o1 o2 o3 o4)
  have null_p: "U_FAILURE e1 \<Longrightarrow> p1 = None" "U_FAILURE e2 \<Longrightarrow> p2 = None" "U_FAILURE e3 \<Longrightarrow> p3 = None"
    "U_FAILURE e4 \<Longrightarrow> p4 = None"
    using failing o1 o2 o3 o4 by (metis fst_conv snd_conv)+
  have persist: "U_FAILURE e1 \<Longrightarrow> U_FAILURE e2" "U_FAILURE e2 \<Longrightarrow> U_FAILURE e3" "U_FAILURE e3 \<Longrightarrow> U_FAILURE e4"
    using after o2 o3 o4 by (metis prod.inject)+
  have less4: "i < 4 \<longleftrightarrow> i = 0 \<or> i = 1 \<or> i = 2 \<or> i = 3" for i :: nat by auto
  have err: "prep_err opn (take (Suc i) prep_types) 0 = [e1, e2, e3, e4] ! i" if "i < 4" for i
    using that unfolding less4 by (auto simp: prep_types_def o1 o2 o3 o4)
  have nil: "(prep_functions ! j) H lib P L = Ret [LNil]" if "j < 4" "U_FAILURE ([e1, e2, e3, e4] ! j)" for j
    using that null null_p unfolding less4
    by (auto simp: prep_functions_def P Lstringprep_nameprep_icu_def Lstringprep_nodeprep_icu_def
        Lstringprep_resourceprep_icu_def Lstringprep_saslprep_icu_def)
  have up: "U_FAILURE ([e1, e2, e3, e4] ! j)" if "i \<le> j" "j < 4" "U_FAILURE ([e1, e2, e3, e4] ! i)" for i j
    using that persist unfolding less4 by (auto simp: le_Suc_eq numeral_2_eq_2 numeral_3_eq_3)
  show ?thesis
  proof (intro conjI allI impI)
    fix i j assume "i \<le> j \<and> j < 4 \<and> U_FAILURE (prep_err opn (take (Suc i) prep_types) 0)"
    then show "(prep_functions ! j) H lib P L = Ret [LNil]" using err [of i] up [of i j] nil [of j] by auto
  next
    show "report \<noteq> None \<longleftrightarrow> (\<exists>i < 4. U_FAILURE (prep_err opn (take (Suc i) prep_types) 0))"
    proof
      assume "report \<noteq> None"
      then have "U_FAILURE (prep_err opn (take (Suc 3) prep_types) 0)"
        using report err [of 3] by (simp split: if_splits)
      then show "\<exists>i < 4. U_FAILURE (prep_err opn (take (Suc i) prep_types) 0)" by (intro exI [of _ 3]) simp
    next
      assume "\<exists>i < 4. U_FAILURE (prep_err opn (take (Suc i) prep_types) 0)"
      then obtain i where "i < 4" "U_FAILURE ([e1, e2, e3, e4] ! i)" using err by auto
      with up [of i 3] report show "report \<noteq> None" by simp
    qed
  qed
qed

text \<open>A library without the profile of RFC 3920 for nodes.\<close>

definition no_nodeprep :: "unit usprep_open" where
  "no_nodeprep t err = (if err > 0 then (None, err) else if t = USPREP_RFC3920_NODEPREP then (None, 4) else (Some (), 0))"

theorem init_icu_fails_closed_witness:
  "Lstringprep_saslprep_icu plain_host (copy_icu :: (unit option, byte) icu) (fst (init_icu no_nodeprep)) [LString [0x61]] = Ret [LNil]"
proof -
  have "usprep_documented no_nodeprep (copy_icu :: (unit option, byte) icu)"
    by (auto simp: usprep_documented_def no_nodeprep_def copy_icu_def U_FAILURE_def)
  moreover have "init_icu no_nodeprep = (fst (init_icu no_nodeprep), Some 4)"
    by (simp add: init_icu_def no_nodeprep_def U_FAILURE_def)
  moreover have "U_FAILURE (prep_err no_nodeprep (take (Suc 1) prep_types) 0)"
    by (simp add: prep_types_def no_nodeprep_def U_FAILURE_def)
  ultimately have "(prep_functions ! 3) plain_host (copy_icu :: (unit option, byte) icu) (fst (init_icu no_nodeprep))
      [LString [0x61]] = Ret [LNil]"
    using init_icu_fails_closed [OF copy_icu_documented, of no_nodeprep _ "Some 4" plain_host "[LString [0x61]]",
        THEN conjunct1, rule_format, of _ 1 3] by auto
  then show ?thesis by (simp add: prep_functions_def)
qed

end
