(* ===== verification/Hashes.thy ===== *)
theory Hashes
  imports LuaApi
begin

text \<open>
  \<open>util-src/hashes.c\<close>: digests in raw or hexadecimal form, HMAC, and the salted iteration of SCRAM
  (\<open>scram_Hi_sha1\<close>). The digest functions are OpenSSL's: the one-shot functions are parameters,
  and the streaming ones are the fields of \<open>hash_desc\<close>, as in the C structure. What HMAC relies on
  is the hypothesis \<open>computes_hash\<close>: after any updates, \<open>Final\<close> gives the digest of the
  concatenation. The references are RFC 2104 (HMAC) and RFC 2898 (PBKDF2).
\<close>

section \<open>Hexadecimal output\<close>

definition hex_tab :: "byte list" where
  "hex_tab = bs ''0123456789abcdef''"

fun toHex :: "byte list \<Rightarrow> byte list" where
  "toHex [] = []"
| "toHex (x # xs) =
     hex_tab ! unat (drop_bit 4 x AND 0xF) # hex_tab ! unat (x AND 0xF) # toHex xs"

text \<open>Pushing a digest, raw or in hexadecimal.\<close>

definition push_digest :: "bool \<Rightarrow> byte list \<Rightarrow> lua_value list" where
  "push_digest hex_out hash = [LString (if hex_out then toHex hash else hash)]"

text \<open>\<open>MAKE_HASH_FUNCTION\<close>: \<open>func\<close> writes \<open>sz\<close> bytes of digest.\<close>

definition hash_function :: "host \<Rightarrow> (byte list \<Rightarrow> byte list) \<Rightarrow> nat \<Rightarrow> lua_args \<Rightarrow> lua_value list cres" where
  "hash_function H func sz L =
    cbind (luaL_checklstring H L 1) (\<lambda>s.
      let hex_out = lua_toboolean (lua_arg L 2) in
      cbind (mem_slice (func s) 0 sz) (\<lambda>hash. Ret (push_digest hex_out hash)))"

section \<open>HMAC\<close>

record 'c hash_desc =
  hInit :: "'c \<Rightarrow> 'c"
  hUpdate :: "'c \<Rightarrow> byte list \<Rightarrow> 'c"
  hFinal :: "'c \<Rightarrow> byte list"
  digestLength :: nat
  ctx :: 'c
  ctxo :: 'c

text \<open>\<open>quadbytes[i] ^= k\<close> over a whole array of bytes.\<close>

fun xor_quads :: "uint32 \<Rightarrow> byte list \<Rightarrow> byte list" where
  "xor_quads k (a # b # c # d # xs) = bytes_of_quad (quad_of_bytes a b c d XOR k) @ xor_quads k xs"
| "xor_quads k xs = xs"

definition HMAC_IPAD :: uint32 where "HMAC_IPAD = 0x36363636"
definition HMAC_OPAD :: uint32 where "HMAC_OPAD = 0x5c5c5c5c"

text \<open>The key as the 64 bytes of the pad: a longer key is replaced by its digest; the copies into
  \<open>hashedKey[64]\<close> and \<open>bytes[64]\<close> have to fit.\<close>

definition hmac_key :: "'c hash_desc \<Rightarrow> byte list \<Rightarrow> byte list cres" where
  "hmac_key desc key =
    cbind
      (if length key > 64
       then let hashedKey = hFinal desc (hUpdate desc (hInit desc (ctx desc)) key) in
            if length hashedKey > 64 then Undef OutOfBounds else mem_slice hashedKey 0 (digestLength desc)
       else Ret key)
      (\<lambda>key. if length key > 64 then Undef OutOfBounds else Ret (key @ replicate (64 - length key) 0))"

definition hmac :: "'c hash_desc \<Rightarrow> byte list \<Rightarrow> byte list \<Rightarrow> byte list cres" where
  "hmac desc key msg =
    cbind (hmac_key desc key) (\<lambda>k.
      let k_ipad = xor_quads HMAC_IPAD k;
          k_opad = xor_quads HMAC_OPAD k;
          c = hUpdate desc (hInit desc (ctx desc)) k_ipad;
          co = hUpdate desc (hInit desc (ctxo desc)) k_opad;
          c = hUpdate desc c msg
      in cbind (mem_slice (hFinal desc c) 0 (digestLength desc)) (\<lambda>inner.
           Ret (hFinal desc (hUpdate desc co inner))))"

text \<open>\<open>MAKE_HMAC_FUNCTION\<close>\<close>

definition hmac_function :: "host \<Rightarrow> 'c hash_desc \<Rightarrow> lua_args \<Rightarrow> lua_value list cres" where
  "hmac_function H desc L =
    cbind (luaL_checklstring H L 1) (\<lambda>key.
    cbind (luaL_checklstring H L 2) (\<lambda>msg.
      let hex_out = lua_toboolean (lua_arg L 3) in
      cbind (hmac desc key msg) (\<lambda>r.
      cbind (mem_slice r 0 (digestLength desc)) (\<lambda>hash. Ret (push_digest hex_out hash)))))"

section \<open>SCRAM\<close>

text \<open>\<open>res.quadbytes[j] ^= Und.quadbytes[j]\<close>\<close>

fun xor_arrays :: "byte list \<Rightarrow> byte list \<Rightarrow> byte list" where
  "xor_arrays (a # b # c # d # xs) (a' # b' # c' # d' # ys) =
     bytes_of_quad (quad_of_bytes a b c d XOR quad_of_bytes a' b' c' d') @ xor_arrays xs ys"
| "xor_arrays xs ys = xs"

definition SHA_DIGEST_LENGTH :: nat where "SHA_DIGEST_LENGTH = 20"

text \<open>The rounds \<open>i = 1, ..., iter - 1\<close>; \<open>sizeof(Ust)\<close> bytes of each digest are used.\<close>

fun scram_rounds :: "'c hash_desc \<Rightarrow> byte list \<Rightarrow> nat \<Rightarrow> byte list \<Rightarrow> byte list \<Rightarrow> byte list cres" where
  "scram_rounds desc str 0 Ust res = Ret res"
| "scram_rounds desc str (Suc n) Ust res =
     cbind (hmac desc str Ust) (\<lambda>r.
     cbind (mem_slice r 0 SHA_DIGEST_LENGTH) (\<lambda>Und.
       scram_rounds desc str n Und (xor_arrays res Und)))"

text \<open>\<open>malloc_ok\<close> says whether the allocation of the salt's copy succeeds.\<close>

definition LscramHi :: "host \<Rightarrow> 'c hash_desc \<Rightarrow> (nat \<Rightarrow> bool) \<Rightarrow> lua_args \<Rightarrow> lua_value list cres" where
  "LscramHi H desc malloc_ok L =
    cbind (luaL_checklstring H L 1) (\<lambda>str.
    cbind (luaL_checklstring H L 2) (\<lambda>salt.
    cbind (luaL_checkinteger H L 3) (\<lambda>n.
      let iter = cast_int n in
      if \<not> malloc_ok (length salt + 4) then Raise (RuntimeError (bs ''Out of memory in scramHi''))
      else
        let salt2 = salt @ [0, 0, 0, 1] in
        cbind (hmac desc str salt2) (\<lambda>r.
        cbind (mem_slice r 0 SHA_DIGEST_LENGTH) (\<lambda>Ust.
        cbind (scram_rounds desc str (nat (iter - 1)) Ust Ust) (\<lambda>res.
          Ret [LString res]))))))"

section \<open>References\<close>

definition computes_hash :: "'c hash_desc \<Rightarrow> (byte list \<Rightarrow> byte list) \<Rightarrow> bool" where
  "computes_hash desc h \<longleftrightarrow>
     (\<forall>c parts. hFinal desc (foldl (hUpdate desc) (hInit desc c) parts) = h (concat parts)) \<and>
     (\<forall>x. length (h x) = digestLength desc)"

definition xor_bytes :: "byte list \<Rightarrow> byte list \<Rightarrow> byte list" where
  "xor_bytes xs ys = map2 (XOR) xs ys"

text \<open>RFC 2104, with block size \<open>B\<close>.\<close>

definition rfc2104 :: "nat \<Rightarrow> (byte list \<Rightarrow> byte list) \<Rightarrow> byte list \<Rightarrow> byte list \<Rightarrow> byte list" where
  "rfc2104 B h key msg =
    (let k0 = (if length key > B then h key else key);
         k = k0 @ replicate (B - length k0) 0
     in h (xor_bytes k (replicate B 0x5c) @ h (xor_bytes k (replicate B 0x36) @ msg)))"

text \<open>RFC 2898: the first block of PBKDF2 with \<open>c\<close> iterations of the pseudorandom function.\<close>

fun pbkdf2_U :: "(byte list \<Rightarrow> byte list) \<Rightarrow> byte list \<Rightarrow> nat \<Rightarrow> byte list" where
  "pbkdf2_U prfn salt 0 = prfn (salt @ [0, 0, 0, 1])"
| "pbkdf2_U prfn salt (Suc i) = prfn (pbkdf2_U prfn salt i)"

definition pbkdf2_block :: "(byte list \<Rightarrow> byte list) \<Rightarrow> byte list \<Rightarrow> nat \<Rightarrow> byte list" where
  "pbkdf2_block prfn salt c =
     foldl xor_bytes (pbkdf2_U prfn salt 0) (map (pbkdf2_U prfn salt) [1..<c])"

section \<open>The union\<close>

lemma quad_xor:
  "quad_of_bytes a b c d XOR quad_of_bytes a' b' c' d' =
    quad_of_bytes (a XOR a') (b XOR b') (c XOR c') (d XOR d')"
  by (rule bit_word_eqI) (simp add: bit_quad_of_bytes bit_xor_iff)

lemma quad_xor_bytes:
  "bytes_of_quad (quad_of_bytes a b c d XOR quad_of_bytes a' b' c' d') =
    [a XOR a', b XOR b', c XOR c', d XOR d']"
  by (simp only: quad_xor bytes_of_quad_of_bytes)

lemma ipad_quad: "HMAC_IPAD = quad_of_bytes 0x36 0x36 0x36 0x36"
  by (simp add: HMAC_IPAD_def quad_of_bytes_def)

lemma opad_quad: "HMAC_OPAD = quad_of_bytes 0x5c 0x5c 0x5c 0x5c"
  by (simp add: HMAC_OPAD_def quad_of_bytes_def)

lemma four_times_Suc:
  "length xs = 4 * Suc n \<Longrightarrow> \<exists>a b c d ys. xs = a # b # c # d # ys \<and> length ys = 4 * n"
  by (auto simp: length_Suc_conv numeral_eq_Suc)

lemma xor_quads_bytes:
  "length xs = 4 * n \<Longrightarrow> xor_quads (quad_of_bytes k k k k) xs = xor_bytes xs (replicate (4 * n) k)"
proof (induction n arbitrary: xs)
  case (Suc n)
  from four_times_Suc [OF Suc.prems] obtain a b c d ys
    where xs: "xs = a # b # c # d # ys" "length ys = 4 * n" by blast
  have r: "replicate (4 * Suc n) k = k # k # k # k # replicate (4 * n) k"
    by (simp add: numeral_eq_Suc)
  show ?case unfolding xs(1) r using Suc.IH [OF xs(2)] by (simp add: quad_xor_bytes xor_bytes_def)
qed (simp add: xor_bytes_def)

lemma xor_arrays_bytes:
  "length xs = 4 * n \<Longrightarrow> length ys = 4 * n \<Longrightarrow> xor_arrays xs ys = xor_bytes xs ys"
proof (induction n arbitrary: xs ys)
  case (Suc n)
  from four_times_Suc [OF Suc.prems(1)] four_times_Suc [OF Suc.prems(2)]
  show ?case by (auto simp: Suc.IH quad_xor_bytes xor_bytes_def)
qed (simp add: xor_bytes_def)

lemma length_xor_bytes [simp]: "length (xor_bytes xs ys) = min (length xs) (length ys)"
  by (simp add: xor_bytes_def)

section \<open>HMAC\<close>

lemma computes_hash_1: "computes_hash desc h \<Longrightarrow> hFinal desc (hUpdate desc (hInit desc c) x) = h x"
  unfolding computes_hash_def
  by (drule conjunct1, drule spec [of _ c], drule spec [of _ "[x]"]) simp

lemma computes_hash_2:
  "computes_hash desc h \<Longrightarrow> hFinal desc (hUpdate desc (hUpdate desc (hInit desc c) x) y) = h (x @ y)"
  unfolding computes_hash_def
  by (drule conjunct1, drule spec [of _ c], drule spec [of _ "[x, y]"]) simp

lemma computes_hash_length: "computes_hash desc h \<Longrightarrow> length (h x) = digestLength desc"
  by (simp add: computes_hash_def)

lemma mem_slice_all: "length xs = n \<Longrightarrow> mem_slice xs 0 n = Ret xs"
  by (simp add: mem_slice_def)

lemma hmac_key_pads:
  assumes "computes_hash desc h" and "digestLength desc \<le> 64"
  shows "hmac_key desc key =
    Ret (let k0 = (if length key > 64 then h key else key) in k0 @ replicate (64 - length k0) 0)"
  using assms
  by (simp add: hmac_key_def computes_hash_1 computes_hash_length mem_slice_all)

lemma hmac_rfc2104_aux:
  assumes "computes_hash desc h" and "digestLength desc \<le> 64"
  shows "hmac desc key msg = Ret (rfc2104 64 h key msg)"
proof -
  define k0 where "k0 = (if length key > 64 then h key else key)"
  define k where "k = k0 @ replicate (64 - length k0) 0"
  have len: "length k = 4 * 16"
    using assms by (simp add: k_def k0_def computes_hash_length)
  have key: "hmac_key desc key = Ret k"
    using hmac_key_pads [OF assms] by (simp add: k_def k0_def Let_def)
  have pads: "xor_quads HMAC_IPAD k = xor_bytes k (replicate 64 0x36)"
    "xor_quads HMAC_OPAD k = xor_bytes k (replicate 64 0x5c)"
    unfolding ipad_quad opad_quad using xor_quads_bytes [OF len] by simp_all
  have "rfc2104 64 h key msg =
      h (xor_bytes k (replicate 64 0x5c) @ h (xor_bytes k (replicate 64 0x36) @ msg))"
    unfolding rfc2104_def k_def k0_def Let_def by (rule refl)
  with assms(1) show ?thesis
    by (simp add: hmac_def key pads computes_hash_2 computes_hash_length mem_slice_all)
qed

lemma length_rfc2104: "computes_hash desc h \<Longrightarrow> length (rfc2104 B h key msg) = digestLength desc"
  by (simp add: rfc2104_def Let_def computes_hash_length)

text \<open>C3: for a digest of at most 64 bytes, the HMAC functions return the HMAC of RFC 2104 with a block
  of 64 bytes, raw or in hexadecimal, for keys of every length (shorter than, equal to and longer than
  the block); no copy leaves its buffer.\<close>

theorem hmac_rfc2104:
  assumes "computes_hash desc h" and "digestLength desc \<le> 64"
  shows "hmac_function H desc [LString key, LString msg, LBool hex] =
    Ret [LString (if hex then toHex (rfc2104 64 h key msg) else rfc2104 64 h key msg)]"
  using assms
  by (simp add: hmac_function_def lua_api hmac_rfc2104_aux length_rfc2104 mem_slice_all push_digest_def)

text \<open>A digest for concrete runs: \<open>n\<close> bytes that hold the length of the input.\<close>

definition length_hash :: "nat \<Rightarrow> byte list \<Rightarrow> byte list" where
  "length_hash n x = replicate n (of_nat (length x))"

definition length_desc :: "nat \<Rightarrow> byte list hash_desc" where
  "length_desc n = \<lparr>hInit = (\<lambda>_. []), hUpdate = (@), hFinal = length_hash n, digestLength = n,
     ctx = [], ctxo = []\<rparr>"

lemma foldl_append: "foldl (@) a xs = a @ concat xs"
  by (induction xs arbitrary: a) simp_all

lemma length_desc_ok: "computes_hash (length_desc n) (length_hash n)"
  by (simp add: computes_hash_def length_desc_def length_hash_def foldl_append)

lemma digestLength_length_desc [simp]: "digestLength (length_desc n) = n"
  by (simp add: length_desc_def)

theorem hmac_rfc2104_witness:
  "hmac_function plain_host (length_desc 2) [LString [1, 2, 3], LString [4], LBool True] =
    Ret [LString (bs ''4242'')]"
proof -
  have "toHex (replicate 2 0x42) = bs ''4242''" by code_simp
  then show ?thesis
    using hmac_rfc2104 [OF length_desc_ok, of 2 plain_host "[1, 2, 3]" "[4]" True]
    by (simp add: rfc2104_def length_hash_def Let_def)
qed

text \<open>\<open>hmac_sha512\<close> is \<open>hmac\<close> with a digest of 64 bytes, whose block in RFC 2104 has 128 bytes: the
  function does not compute that HMAC. It already differs on an empty key and message for some
  digest.\<close>

theorem hmac_sha512_block_size:
  "\<exists>(desc :: byte list hash_desc) h. computes_hash desc h \<and> digestLength desc = 64 \<and>
     hmac_function plain_host desc [LString [], LString [], LBool False] \<noteq>
       Ret [LString (rfc2104 128 h [] [])]"
  (is "\<exists>desc h. ?P desc h")
proof (intro exI)
  have "rfc2104 64 (length_hash 64) [] [] \<noteq> rfc2104 128 (length_hash 64) [] []"
    by (simp add: rfc2104_def length_hash_def)
  then show "?P (length_desc 64) (length_hash 64)"
    by (simp add: hmac_function_def lua_api hmac_rfc2104_aux [OF length_desc_ok] length_desc_ok
        length_rfc2104 [OF length_desc_ok] mem_slice_all push_digest_def)
qed

section \<open>SCRAM\<close>

lemma pbkdf2_U_funpow: "pbkdf2_U prfn salt i = (prfn ^^ i) (prfn (salt @ [0, 0, 0, 1]))"
  by (induction i) simp_all

lemma funpow_tail: "map (\<lambda>i. (f ^^ i) x) [1..<Suc (Suc n)] = f x # map (\<lambda>i. (f ^^ i) (f x)) [1..<Suc n]"
proof -
  have "[1..<Suc (Suc n)] = 1 # map Suc [1..<Suc n]"
    by (simp add: upt_conv_Cons map_Suc_upt del: upt_Suc)
  then show ?thesis by (simp add: funpow_swap1 del: upt_Suc)
qed

lemma scram_rounds_iterates:
  assumes desc: "computes_hash desc h" "digestLength desc = 20" and "length res = 20"
  shows "scram_rounds desc str n Ust res =
    Ret (foldl xor_bytes res (map (\<lambda>i. (rfc2104 64 h str ^^ i) Ust) [1..<Suc n]))"
  using assms(3)
proof (induction n arbitrary: Ust res)
  case (Suc n)
  let ?Und = "rfc2104 64 h str Ust"
  have len: "length ?Und = 20" using length_rfc2104 [OF desc(1)] desc(2) by simp
  have "scram_rounds desc str (Suc n) Ust res = scram_rounds desc str n ?Und (xor_bytes res ?Und)"
    using desc len Suc.prems xor_arrays_bytes [of res 5 ?Und]
    by (simp add: hmac_rfc2104_aux SHA_DIGEST_LENGTH_def mem_slice_all)
  also have "\<dots> = Ret (foldl xor_bytes (xor_bytes res ?Und)
      (map (\<lambda>i. (rfc2104 64 h str ^^ i) ?Und) [1..<Suc n]))"
    by (rule Suc.IH) (simp add: Suc.prems len)
  finally show ?case unfolding funpow_tail by simp
qed simp

text \<open>C12: \<open>scram_Hi_sha1\<close> computes the first (and for SCRAM only) block of PBKDF2 over the HMAC of
  the 20 byte digest, with \<open>max 1 i\<close> iterations: an iteration count of zero or less counts as
  one.\<close>

theorem scram_Hi_pbkdf2:
  assumes "computes_hash desc h" and "digestLength desc = 20" and "malloc_ok (length salt + 4)"
    and "- (2 ^ 31) \<le> i" and "i < 2 ^ 31"
  shows "LscramHi H desc malloc_ok [LString str, LString salt, LNumber (of_int i)] =
    Ret [LString (pbkdf2_block (rfc2104 64 h str) salt (max 1 (nat i)))]"
proof -
  let ?prfn = "rfc2104 64 h str"
  have iter: "cast_int i = i" using assms by (simp add: cast_int_id)
  have bnd: "- (2 ^ 63) \<le> i \<and> i < 2 ^ 63" using assms(4,5) by simp
  have n: "Suc (nat (i - 1)) = max 1 (nat i)" by auto
  have first: "hmac desc str (salt @ [0, 0, 0, 1]) = Ret (?prfn (salt @ [0, 0, 0, 1]))"
    using assms by (simp add: hmac_rfc2104_aux)
  have len: "length (?prfn x) = 20" for x using length_rfc2104 [OF assms(1)] assms(2) by simp
  have rounds: "scram_rounds desc str (nat (i - 1)) (?prfn (salt @ [0, 0, 0, 1])) (?prfn (salt @ [0, 0, 0, 1])) =
      Ret (pbkdf2_block ?prfn salt (max 1 (nat i)))"
    unfolding scram_rounds_iterates [OF assms(1,2) len] n pbkdf2_block_def pbkdf2_U_funpow by simp
  show ?thesis
    using bnd assms(3)
    by (simp add: LscramHi_def lua_api iter first SHA_DIGEST_LENGTH_def mem_slice_all len rounds Let_def)
qed

theorem scram_Hi_pbkdf2_witness:
  "LscramHi plain_host (length_desc 20) (\<lambda>_. True) [LString [1], LString [2], LNumber (of_int 3)] =
    Ret [LString (pbkdf2_block (rfc2104 64 (length_hash 20) [1]) [2] 3)] \<and>
   pbkdf2_block (rfc2104 64 (length_hash 20) [1]) [2] 3 = replicate 20 0x54"
proof
  show "LscramHi plain_host (length_desc 20) (\<lambda>_. True) [LString [1], LString [2], LNumber (of_int 3)] =
      Ret [LString (pbkdf2_block (rfc2104 64 (length_hash 20) [1]) [2] 3)]"
    using scram_Hi_pbkdf2 [OF length_desc_ok, of 20 "\<lambda>_. True" "[2]" 3 plain_host "[1]"] by simp
  have "rfc2104 64 (length_hash 20) k m = replicate 20 0x54" if "length k < 64" for k m
    using that by (simp add: rfc2104_def length_hash_def Let_def)
  then show "pbkdf2_block (rfc2104 64 (length_hash 20) [1]) [2] 3 = replicate 20 0x54"
    by (simp add: pbkdf2_block_def upt_rec xor_bytes_def)
qed

section \<open>Digests\<close>

text \<open>Reference reading of hexadecimal digits.\<close>

definition hex_value :: "byte \<Rightarrow> byte" where
  "hex_value c = (if c < 0x3a then c - 0x30 else c - 0x57)"

fun unhex :: "byte list \<Rightarrow> byte list" where
  "unhex (c # d # xs) = (push_bit 4 (hex_value c) OR hex_value d) # unhex xs"
| "unhex xs = []"

lemma hex_value_hex_tab: "n < 16 \<Longrightarrow> hex_value (hex_tab ! n) = of_nat n"
proof -
  have "\<forall>n \<in> set [0..<16]. hex_value (hex_tab ! n) = of_nat n"
    by (simp add: upt_rec hex_tab_def bs_def hex_value_def)
  then show "n < 16 \<Longrightarrow> ?thesis" by simp
qed

lemma nibble_less: "unat ((x :: byte) AND 0xF) < 16"
proof -
  have "x AND 0xF = take_bit 4 x" by (simp add: take_bit_eq_mask mask_eq_exp_minus_1)
  then show ?thesis by (simp add: unat_take_bit)
qed

lemma nibbles_join: "push_bit 4 (drop_bit 4 x AND 0xF) OR (x AND 0xF) = (x :: byte)"
proof -
  have m: "(0xF :: byte) = mask 4" by (simp add: mask_eq_exp_minus_1)
  show ?thesis unfolding m
    by (rule bit_word_eqI) (auto simp: bit_simps dest: bit_imp_le_length)
qed

lemma unhex_toHex: "unhex (toHex xs) = xs"
  by (induction xs)
    (simp_all add: hex_value_hex_tab nibble_less nibbles_join del: push_bit_and)

lemma length_toHex [simp]: "length (toHex xs) = 2 * length xs"
  by (induction xs) simp_all

lemma hex_tab_digit: "n < 16 \<Longrightarrow> hex_tab ! n \<in> set hex_tab"
  by (rule nth_mem) (simp add: hex_tab_def)

lemma set_toHex: "set (toHex xs) \<subseteq> set hex_tab"
  by (induction xs) (simp_all add: hex_tab_digit nibble_less)

text \<open>A digest function returns the digest itself, or with a true second argument a string of
  \<open>2 * size\<close> lower case hexadecimal digits that reads back as the digest.\<close>

theorem hash_function_output:
  assumes "length (func s) = sz"
  shows "hash_function H func sz [LString s, LBool False] = Ret [LString (func s)] \<and>
    (\<exists>t. hash_function H func sz [LString s, LBool True] = Ret [LString t] \<and>
       length t = 2 * sz \<and> set t \<subseteq> set hex_tab \<and> unhex t = func s)"
  using assms
  by (simp add: hash_function_def lua_api mem_slice_all push_digest_def set_toHex unhex_toHex)

theorem hash_function_output_witness:
  "hash_function plain_host (length_hash 16) 16 [LString [1, 2], LBool False] =
     Ret [LString (replicate 16 2)]"
  using hash_function_output [of "length_hash 16" "[1, 2]" 16 plain_host]
  by (simp add: length_hash_def)

section \<open>The exported functions\<close>

text \<open>The one-shot digests of OpenSSL and their sizes.\<close>

record openssl_digests =
  SHA1 :: "byte list \<Rightarrow> byte list"
  SHA224 :: "byte list \<Rightarrow> byte list"
  SHA256 :: "byte list \<Rightarrow> byte list"
  SHA384 :: "byte list \<Rightarrow> byte list"
  SHA512 :: "byte list \<Rightarrow> byte list"
  MD5 :: "byte list \<Rightarrow> byte list"

definition SHA224_DIGEST_LENGTH :: nat where "SHA224_DIGEST_LENGTH = 28"
definition SHA256_DIGEST_LENGTH :: nat where "SHA256_DIGEST_LENGTH = 32"
definition SHA384_DIGEST_LENGTH :: nat where "SHA384_DIGEST_LENGTH = 48"
definition SHA512_DIGEST_LENGTH :: nat where "SHA512_DIGEST_LENGTH = 64"
definition MD5_DIGEST_LENGTH :: nat where "MD5_DIGEST_LENGTH = 16"

lemmas digest_lengths = SHA_DIGEST_LENGTH_def SHA224_DIGEST_LENGTH_def SHA256_DIGEST_LENGTH_def
  SHA384_DIGEST_LENGTH_def SHA512_DIGEST_LENGTH_def MD5_DIGEST_LENGTH_def

definition Lsha1 :: "host \<Rightarrow> openssl_digests \<Rightarrow> lua_args \<Rightarrow> lua_value list cres" where
  "Lsha1 H D = hash_function H (SHA1 D) SHA_DIGEST_LENGTH"

definition Lsha224 :: "host \<Rightarrow> openssl_digests \<Rightarrow> lua_args \<Rightarrow> lua_value list cres" where
  "Lsha224 H D = hash_function H (SHA224 D) SHA224_DIGEST_LENGTH"

definition Lsha256 :: "host \<Rightarrow> openssl_digests \<Rightarrow> lua_args \<Rightarrow> lua_value list cres" where
  "Lsha256 H D = hash_function H (SHA256 D) SHA256_DIGEST_LENGTH"

definition Lsha384 :: "host \<Rightarrow> openssl_digests \<Rightarrow> lua_args \<Rightarrow> lua_value list cres" where
  "Lsha384 H D = hash_function H (SHA384 D) SHA384_DIGEST_LENGTH"

definition Lsha512 :: "host \<Rightarrow> openssl_digests \<Rightarrow> lua_args \<Rightarrow> lua_value list cres" where
  "Lsha512 H D = hash_function H (SHA512 D) SHA512_DIGEST_LENGTH"

definition Lmd5 :: "host \<Rightarrow> openssl_digests \<Rightarrow> lua_args \<Rightarrow> lua_value list cres" where
  "Lmd5 H D = hash_function H (MD5 D) MD5_DIGEST_LENGTH"

text \<open>The streaming digests: \<open>Init\<close>, \<open>Update\<close> and \<open>Final\<close> of each family.\<close>

record 'c digest_family =
  fInit :: "'c \<Rightarrow> 'c"
  fUpdate :: "'c \<Rightarrow> byte list \<Rightarrow> 'c"
  fFinal :: "'c \<Rightarrow> byte list"

text \<open>The descriptor that \<open>MAKE_HMAC_FUNCTION\<close> and \<open>LscramHi\<close> fill in; \<open>c\<close> and \<open>c'\<close> are the two
  contexts on the stack, not initialised.\<close>

definition make_desc :: "'c digest_family \<Rightarrow> nat \<Rightarrow> 'c \<Rightarrow> 'c \<Rightarrow> 'c hash_desc" where
  "make_desc F n c c' = \<lparr>hInit = fInit F, hUpdate = fUpdate F, hFinal = fFinal F, digestLength = n,
     ctx = c, ctxo = c'\<rparr>"

definition Lhmac_sha1 :: "host \<Rightarrow> 'c digest_family \<Rightarrow> 'c \<Rightarrow> 'c \<Rightarrow> lua_args \<Rightarrow> lua_value list cres" where
  "Lhmac_sha1 H F c c' = hmac_function H (make_desc F SHA_DIGEST_LENGTH c c')"

definition Lhmac_sha256 :: "host \<Rightarrow> 'c digest_family \<Rightarrow> 'c \<Rightarrow> 'c \<Rightarrow> lua_args \<Rightarrow> lua_value list cres" where
  "Lhmac_sha256 H F c c' = hmac_function H (make_desc F SHA256_DIGEST_LENGTH c c')"

definition Lhmac_sha512 :: "host \<Rightarrow> 'c digest_family \<Rightarrow> 'c \<Rightarrow> 'c \<Rightarrow> lua_args \<Rightarrow> lua_value list cres" where
  "Lhmac_sha512 H F c c' = hmac_function H (make_desc F SHA512_DIGEST_LENGTH c c')"

definition Lhmac_md5 :: "host \<Rightarrow> 'c digest_family \<Rightarrow> 'c \<Rightarrow> 'c \<Rightarrow> lua_args \<Rightarrow> lua_value list cres" where
  "Lhmac_md5 H F c c' = hmac_function H (make_desc F MD5_DIGEST_LENGTH c c')"

text \<open>The exported HMAC functions compute HMAC with the 64 byte block of their digests, and
  \<open>scram_Hi_sha1\<close> the key derivation with HMAC-SHA-1.\<close>

lemma hmac_exports:
  assumes "computes_hash (make_desc F1 20 c c') h1" and "computes_hash (make_desc F256 32 c c') h256"
    and "computes_hash (make_desc F5 16 c c') h5"
  shows "Lhmac_sha1 H F1 c c' [LString key, LString msg] = Ret [LString (rfc2104 64 h1 key msg)]"
    and "Lhmac_sha256 H F256 c c' [LString key, LString msg] = Ret [LString (rfc2104 64 h256 key msg)]"
    and "Lhmac_md5 H F5 c c' [LString key, LString msg] = Ret [LString (rfc2104 64 h5 key msg)]"
proof -
  have gen: "hmac_function H (make_desc F n c c') [LString key, LString msg] = Ret [LString (rfc2104 64 h key msg)]"
    if "computes_hash (make_desc F n c c') h" and "n \<le> 64" for F :: "'z digest_family" and n h c c'
    using hmac_rfc2104_aux [OF that(1)] length_rfc2104 [OF that(1)] that(2)
    by (simp add: hmac_function_def lua_api mem_slice_all push_digest_def make_desc_def)
  show "Lhmac_sha1 H F1 c c' [LString key, LString msg] = Ret [LString (rfc2104 64 h1 key msg)]"
    unfolding Lhmac_sha1_def digest_lengths by (rule gen) (use assms in auto)
  show "Lhmac_sha256 H F256 c c' [LString key, LString msg] = Ret [LString (rfc2104 64 h256 key msg)]"
    unfolding Lhmac_sha256_def digest_lengths by (rule gen) (use assms in auto)
  show "Lhmac_md5 H F5 c c' [LString key, LString msg] = Ret [LString (rfc2104 64 h5 key msg)]"
    unfolding Lhmac_md5_def digest_lengths by (rule gen) (use assms in auto)
qed

end
