(* ===== verification/Poll.thy ===== *)
theory Poll
  imports LuaApi
begin

text \<open>
  The interface of \<open>util-src/poll.c\<close> that its two backends share: a state holds events that were
  fetched from the operating system and are not yet reported; \<open>Lpushevent\<close> reports the next one
  and \<open>Lwait\<close> asks the operating system only when none is left. The locales state this contract
  and prove what a caller of \<open>wait\<close> sees; PollEpoll and PollSelect interpret them.
\<close>

text \<open>A ready descriptor, as the three values pushed for it.\<close>

record ready =
  ready_fd :: int
  ready_read :: bool
  ready_write :: bool

definition push_ready :: "ready \<Rightarrow> lua_value list" where
  "push_ready e = [LNumber (of_int (ready_fd e)), LBool (ready_read e), LBool (ready_write e)]"

lemma push_ready_nonempty [simp]: "push_ready e \<noteq> []"
  by (simp add: push_ready_def)

text \<open>The end of \<open>Lwait\<close> on a call that fetched no event: timeout, signal or error.\<close>

definition wait_failure :: "host \<Rightarrow> int \<Rightarrow> int \<Rightarrow> lua_value list" where
  "wait_failure H ret errno =
    (if ret = 0 then [LNil, LString (bs ''timeout'')]
     else if errno = EINTR then [LNil, LString (bs ''signal'')]
     else push_errno H errno)"

text \<open>The string representation of a state; \<open>STATE_MT\<close> is the name of the backend's metatable.\<close>

definition Ltos :: "host \<Rightarrow> string \<Rightarrow> lua_args \<Rightarrow> lua_value list cres" where
  "Ltos H STATE_MT L = cbind (luaL_checkudata L 1 STATE_MT) (\<lambda>state.
     Ret [LString (bs STATE_MT @ bs '': '' @ ptr2str H state)])"

text \<open>Calling \<open>push\<close> \<open>n\<close> times.\<close>

fun drain :: "('s \<Rightarrow> (lua_value list \<times> 's) cres) \<Rightarrow> nat \<Rightarrow> 's \<Rightarrow> (lua_value list list \<times> 's) cres" where
  "drain push 0 s = Ret ([], s)"
| "drain push (Suc n) s =
     cbind (push s) (\<lambda>(r, s'). cbind (drain push n s') (\<lambda>(rs, s''). Ret (r # rs, s'')))"

locale event_source =
  fixes invar :: "'s \<Rightarrow> bool"
    and pending :: "'s \<Rightarrow> ready list"
    and push :: "'s \<Rightarrow> (lua_value list \<times> 's) cres"
  assumes push_none: "invar s \<Longrightarrow> pending s = [] \<Longrightarrow> push s = Ret ([], s)"
    and push_next: "invar s \<Longrightarrow> pending s = e # es \<Longrightarrow>
      \<exists>s'. push s = Ret (push_ready e, s') \<and> invar s' \<and> pending s' = es"
begin

lemma push_invar: "invar s \<Longrightarrow> \<exists>r s'. push s = Ret (r, s') \<and> invar s' \<and> pending s' = tl (pending s)"
  using push_none [of s] push_next [of s] by (cases "pending s") fastforce+

text \<open>Every pending event is reported once, in order.\<close>

lemma drain_all:
  "invar s \<Longrightarrow> n \<le> length (pending s) \<Longrightarrow>
    \<exists>s'. drain push n s = Ret (map push_ready (take n (pending s)), s') \<and> invar s' \<and>
      pending s' = drop n (pending s)"
proof (induction n arbitrary: s)
  case (Suc n)
  then obtain e es where p: "pending s = e # es" by (cases "pending s") auto
  from push_next [OF Suc.prems(1) p] obtain s1
    where s1: "push s = Ret (push_ready e, s1)" "invar s1" "pending s1 = es" by auto
  from Suc.IH [OF s1(2)] s1(3) p Suc.prems obtain s2
    where "drain push n s1 = Ret (map push_ready (take n es), s2)" "invar s2" "pending s2 = drop n es"
    by auto
  with s1 p show ?case by simp
qed simp

end

text \<open>A wait with a known timeout: \<open>'k\<close> is the state of the operating system, \<open>'e\<close> its calls.
  An event that is pending is reported without any call.\<close>

locale poller = event_source invar pending push
  for invar :: "'s \<Rightarrow> bool"
    and pending :: "'s \<Rightarrow> ready list"
    and push :: "'s \<Rightarrow> (lua_value list \<times> 's) cres" +
  fixes wait :: "'e \<Rightarrow> 's \<times> 'k \<Rightarrow> (lua_value list \<times> 's \<times> 'k) cres"
  assumes wait_pending: "invar s \<Longrightarrow> pending s \<noteq> [] \<Longrightarrow>
      wait env (s, k) = cbind (push s) (\<lambda>(r, s'). Ret (r, s', k))"
begin

lemma wait_next:
  assumes "invar s" and "pending s = e # es"
  shows "\<exists>s'. wait env (s, k) = Ret (push_ready e, s', k) \<and> invar s' \<and> pending s' = es"
  using push_next [OF assms] wait_pending [of s env k] assms by auto

text \<open>As many waits as there are pending events, each in any environment: all are reported in order
  and the operating system is not called.\<close>

lemma waits_drain:
  "invar s \<Longrightarrow> length envs = length (pending s) \<Longrightarrow>
    \<exists>s'. run_ops wait envs (s, k) = Ret (map push_ready (pending s), s', k) \<and> invar s' \<and> pending s' = []"
proof (induction envs arbitrary: s)
  case (Cons env envs)
  then obtain e es where p: "pending s = e # es" by (cases "pending s") auto
  from wait_next [OF Cons.prems(1) p] obtain s1
    where s1: "wait env (s, k) = Ret (push_ready e, s1, k)" "invar s1" "pending s1 = es" by blast
  from Cons.IH [OF s1(2)] s1(3) p Cons.prems obtain s2
    where "run_ops wait envs (s1, k) = Ret (map push_ready es, s2, k)" "invar s2" "pending s2 = []"
    by auto
  with s1 p show ?case by (auto simp: run_ops.simps)
qed simp

end

end
