(* ===== verification/PollEpoll.thy ===== *)
theory PollEpoll
  imports Poll
begin

text \<open>
  The epoll backend of \<open>util-src/poll.c\<close>. The system calls are the fields of \<open>epoll_os\<close>: each
  returns its result, the \<open>errno\<close> it leaves and the next state \<open>'k\<close> of the operating system.
  Up to \<open>MAX_EVENTS\<close> events are fetched at once into \<open>events\<close>; \<open>processed\<close> counts the ones not
  yet reported.
\<close>

section \<open>Constants and data\<close>

definition MAX_EVENTS :: nat where "MAX_EVENTS = 64"

definition EPOLLIN :: uint32 where "EPOLLIN = 0x1"
definition EPOLLOUT :: uint32 where "EPOLLOUT = 0x4"
definition EPOLLERR :: uint32 where "EPOLLERR = 0x8"
definition EPOLLHUP :: uint32 where "EPOLLHUP = 0x10"
definition EPOLLRDHUP :: uint32 where "EPOLLRDHUP = 0x2000"

lemmas epoll_masks = EPOLLIN_def EPOLLOUT_def EPOLLERR_def EPOLLHUP_def EPOLLRDHUP_def

definition EPOLL_CTL_ADD :: int where "EPOLL_CTL_ADD = 1"
definition EPOLL_CTL_DEL :: int where "EPOLL_CTL_DEL = 2"
definition EPOLL_CTL_MOD :: int where "EPOLL_CTL_MOD = 3"

definition EPOLL_MT :: string where "EPOLL_MT = ''util.poll<epoll>''"

record epoll_event =
  ev_events :: uint32
  ev_fd :: int

record epoll_state =
  processed :: int
  epoll_fd :: int
  events :: "epoll_event list"

record 'k epoll_os =
  epoll_create1 :: "'k \<Rightarrow> int \<times> int \<times> 'k"
  epoll_ctl :: "int \<Rightarrow> int \<Rightarrow> int \<Rightarrow> epoll_event option \<Rightarrow> 'k \<Rightarrow> int \<times> int \<times> 'k"
  epoll_wait :: "int \<Rightarrow> nat \<Rightarrow> int \<Rightarrow> 'k \<Rightarrow> int \<times> int \<times> epoll_event list \<times> 'k"
  os_close :: "int \<Rightarrow> 'k \<Rightarrow> int \<times> int \<times> 'k"

section \<open>Operations\<close>

text \<open>The event that \<open>Ladd\<close> and \<open>Lset\<close> pass to \<open>epoll_ctl\<close>.\<close>

definition interest :: "int \<Rightarrow> bool \<Rightarrow> bool \<Rightarrow> epoll_event" where
  "interest fd wantread wantwrite =
    \<lparr>ev_events = ((if wantread then EPOLLIN else 0) OR (if wantwrite then EPOLLOUT else 0)) OR
       (EPOLLERR OR EPOLLHUP OR EPOLLRDHUP),
     ev_fd = fd\<rparr>"

definition Ladd :: "host \<Rightarrow> 'k epoll_os \<Rightarrow> lua_args \<Rightarrow> epoll_state \<times> 'k \<Rightarrow>
    (lua_value list \<times> epoll_state \<times> 'k) cres" where
  "Ladd H E L = (\<lambda>(s, k).
    cbind (luaL_checkudata L 1 EPOLL_MT) (\<lambda>_.
    cbind (luaL_checkinteger H L 2) (\<lambda>n.
      let fd = cast_int n;
          wantread = lua_toboolean (lua_arg L 3);
          wantwrite = lua_toboolean (lua_arg L 4)
      in if fd < 0 then Ret (push_errno H EBADF, s, k)
         else let (ret, errno, k) =
                epoll_ctl E (epoll_fd s) EPOLL_CTL_ADD fd (Some (interest fd wantread wantwrite)) k
              in if ret < 0 then Ret (push_errno H errno, s, k) else Ret ([LBool True], s, k))))"

definition Lset :: "host \<Rightarrow> 'k epoll_os \<Rightarrow> lua_args \<Rightarrow> epoll_state \<times> 'k \<Rightarrow>
    (lua_value list \<times> epoll_state \<times> 'k) cres" where
  "Lset H E L = (\<lambda>(s, k).
    cbind (luaL_checkudata L 1 EPOLL_MT) (\<lambda>_.
    cbind (luaL_checkinteger H L 2) (\<lambda>n.
      let fd = cast_int n;
          wantread = lua_toboolean (lua_arg L 3);
          wantwrite = lua_toboolean (lua_arg L 4);
          (ret, errno, k) =
            epoll_ctl E (epoll_fd s) EPOLL_CTL_MOD fd (Some (interest fd wantread wantwrite)) k
      in if ret = 0 then Ret ([LBool True], s, k) else Ret (push_errno H errno, s, k))))"

text \<open>The event of \<open>EPOLL_CTL_DEL\<close> is ignored by the system; \<open>Ldel\<close> passes one whose mask is not
  set, here \<open>None\<close>.\<close>

definition Ldel :: "host \<Rightarrow> 'k epoll_os \<Rightarrow> lua_args \<Rightarrow> epoll_state \<times> 'k \<Rightarrow>
    (lua_value list \<times> epoll_state \<times> 'k) cres" where
  "Ldel H E L = (\<lambda>(s, k).
    cbind (luaL_checkudata L 1 EPOLL_MT) (\<lambda>_.
    cbind (luaL_checkinteger H L 2) (\<lambda>n.
      let fd = cast_int n;
          (ret, errno, k) = epoll_ctl E (epoll_fd s) EPOLL_CTL_DEL fd None k
      in if ret = 0 then Ret ([LBool True], s, k) else Ret (push_errno H errno, s, k))))"

definition event_ready :: "epoll_event \<Rightarrow> ready" where
  "event_ready e = \<lparr>ready_fd = ev_fd e,
     ready_read = (ev_events e AND (EPOLLIN OR EPOLLHUP OR EPOLLRDHUP OR EPOLLERR) \<noteq> 0),
     ready_write = (ev_events e AND EPOLLOUT \<noteq> 0)\<rparr>"

definition Lpushevent :: "epoll_state \<Rightarrow> (lua_value list \<times> epoll_state) cres" where
  "Lpushevent s =
    (if processed s > 0 then
       let s = s\<lparr>processed := processed s - 1\<rparr> in
       cbind (mem_at (events s) (nat (processed s))) (\<lambda>event. Ret (push_ready (event_ready event), s))
     else Ret ([], s))"

text \<open>The call of \<open>epoll_wait\<close> in \<open>Lwait\<close>, which fills the front of \<open>events\<close>, and what follows it.\<close>

definition fetch_events :: "host \<Rightarrow> 'k epoll_os \<Rightarrow> int \<Rightarrow> epoll_state \<times> 'k \<Rightarrow>
    (lua_value list \<times> epoll_state \<times> 'k) cres" where
  "fetch_events H E ms = (\<lambda>(s, k).
    let (ret, errno, evs, k) = epoll_wait E (epoll_fd s) MAX_EVENTS ms k;
        s = s\<lparr>events := evs @ drop (length evs) (events s)\<rparr>
    in if ret \<le> 0 then Ret (wait_failure H ret errno, s, k)
       else cbind (Lpushevent (s\<lparr>processed := ret\<rparr>)) (\<lambda>(r, s). Ret (r, s, k)))"

definition Lwait :: "host \<Rightarrow> 'k epoll_os \<Rightarrow> lua_args \<Rightarrow> epoll_state \<times> 'k \<Rightarrow>
    (lua_value list \<times> epoll_state \<times> 'k) cres" where
  "Lwait H E L = (\<lambda>(s, k).
    cbind (luaL_checkudata L 1 EPOLL_MT) (\<lambda>_.
    cbind (Lpushevent s) (\<lambda>(r, s).
      if r \<noteq> [] then Ret (r, s, k)
      else
        cbind (luaL_checknumber H L 2) (\<lambda>timeout.
        cbind (luaL_argcheck (timeout \<ge> 0) 1 ''positive number expected'') (\<lambda>_.
        cbind (number_to_int (timeout * 1000)) (\<lambda>ms. fetch_events H E ms (s, k)))))))"

definition Lgetfd :: "lua_args \<Rightarrow> epoll_state \<Rightarrow> lua_value list cres" where
  "Lgetfd L s = cbind (luaL_checkudata L 1 EPOLL_MT) (\<lambda>_. Ret [LNumber (of_int (epoll_fd s))])"

definition Lgc :: "host \<Rightarrow> 'k epoll_os \<Rightarrow> lua_args \<Rightarrow> epoll_state \<times> 'k \<Rightarrow>
    (lua_value list \<times> epoll_state \<times> 'k) cres" where
  "Lgc H E L = (\<lambda>(s, k).
    cbind (luaL_checkudata L 1 EPOLL_MT) (\<lambda>_.
      if epoll_fd s = - 1 then Ret ([], s, k)
      else let (ret, errno, k) = os_close E (epoll_fd s) k in
           if ret = 0 then Ret ([], s\<lparr>epoll_fd := - 1\<rparr>, k)
           else Raise (RuntimeError (strerror H errno))))"

text \<open>\<open>Lnew\<close> returns the new state as the userdata at address \<open>p\<close>; the array of events is not
  initialised, its content is the argument \<open>junk\<close>.\<close>

definition Lnew :: "host \<Rightarrow> 'k epoll_os \<Rightarrow> nat \<Rightarrow> epoll_event list \<Rightarrow> 'k \<Rightarrow>
    lua_value list \<times> epoll_state \<times> 'k" where
  "Lnew H E p junk k =
    (let s = \<lparr>processed = 0, epoll_fd = - 1, events = junk\<rparr>;
         (epoll_fd, errno, k) = epoll_create1 E k
     in if epoll_fd \<le> 0 then (push_errno H errno, s, k)
        else ([LUserdata EPOLL_MT p], s\<lparr>epoll_fd := epoll_fd\<rparr>, k))"

section \<open>The queue of fetched events\<close>

definition epoll_wf :: "epoll_state \<Rightarrow> bool" where
  "epoll_wf s \<longleftrightarrow> length (events s) = MAX_EVENTS \<and> processed s \<le> int MAX_EVENTS"

definition epoll_pending :: "epoll_state \<Rightarrow> ready list" where
  "epoll_pending s = map event_ready (rev (take (nat (processed s)) (events s)))"

text \<open>A wait on a state, with the arguments after the state.\<close>

definition epoll_waits :: "host \<times> 'k epoll_os \<times> lua_args \<Rightarrow> epoll_state \<times> 'k \<Rightarrow>
    (lua_value list \<times> epoll_state \<times> 'k) cres" where
  "epoll_waits = (\<lambda>(H, E, L). Lwait H E (LUserdata EPOLL_MT 0 # L))"

lemma Lpushevent_none: "epoll_wf s \<Longrightarrow> epoll_pending s = [] \<Longrightarrow> Lpushevent s = Ret ([], s)"
  by (auto simp: epoll_wf_def epoll_pending_def Lpushevent_def MAX_EVENTS_def)

lemma Lpushevent_next:
  assumes "epoll_wf s" and "epoll_pending s = e # es"
  shows "\<exists>s'. Lpushevent s = Ret (push_ready e, s') \<and> epoll_wf s' \<and> epoll_pending s' = es"
proof -
  define n where "n = nat (processed s) - 1"
  from assms(2) have pos: "processed s > 0" by (cases "processed s > 0") (auto simp: epoll_pending_def)
  then have n: "nat (processed s) = Suc n" "nat (processed s - 1) = n" by (auto simp: n_def)
  from assms(1) n have len: "n < length (events s)" by (auto simp: epoll_wf_def MAX_EVENTS_def)
  then have "e = event_ready (events s ! n)" "es = map event_ready (rev (take n (events s)))"
    using assms(2) n by (auto simp: epoll_pending_def take_Suc_conv_app_nth)
  with pos n len assms(1) show ?thesis
    by (simp add: Lpushevent_def mem_at_def epoll_pending_def epoll_wf_def)
qed

interpretation epoll: poller epoll_wf epoll_pending Lpushevent epoll_waits
proof unfold_locales
  fix s :: epoll_state and env :: "host \<times> 'a epoll_os \<times> lua_args" and k :: 'a
  assume wf: "epoll_wf s" and "epoll_pending s \<noteq> []"
  then obtain e es where "epoll_pending s = e # es" by (cases "epoll_pending s") auto
  from Lpushevent_next [OF wf this] obtain s' where "Lpushevent s = Ret (push_ready e, s')" by blast
  then show "epoll_waits env (s, k) = cbind (Lpushevent s) (\<lambda>(r, s'). Ret (r, s', k))"
    by (cases env) (simp add: epoll_waits_def Lwait_def lua_api)
qed (fact Lpushevent_none Lpushevent_next)+

section \<open>Waiting\<close>

text \<open>What \<open>epoll_wait(2)\<close> documents: it returns the number of events it stored, at most the number
  asked for, or a negative number.\<close>

definition epoll_wait_documented :: "'k epoll_os \<Rightarrow> bool" where
  "epoll_wait_documented E \<longleftrightarrow>
    (\<forall>fd n ms k ret errno evs k'. epoll_wait E fd n ms k = (ret, errno, evs, k') \<longrightarrow>
       ret \<le> int n \<and> length evs = nat ret)"

lemma epoll_wait_documentedD:
  assumes "epoll_wait_documented E" and "epoll_wait E fd n ms k = (ret, errno, evs, k')"
  shows "length evs = nat ret" "ret \<le> int n"
  using assms unfolding epoll_wait_documented_def by blast+

definition fetched :: "int \<Rightarrow> epoll_event list \<Rightarrow> epoll_state \<Rightarrow> epoll_state" where
  "fetched ret evs s = s\<lparr>events := evs @ drop (length evs) (events s), processed := ret\<rparr>"

lemma fetched_wf:
  assumes "epoll_wf s" and "length evs = nat ret" and "ret \<le> int MAX_EVENTS"
  shows "epoll_wf (fetched ret evs s)" "epoll_pending (fetched ret evs s) = map event_ready (rev evs)"
  using assms by (auto simp: epoll_wf_def fetched_def epoll_pending_def MAX_EVENTS_def)

text \<open>A wait on a state without pending events, after its arguments were accepted.\<close>

lemma Lwait_fetch:
  assumes "epoll_wf s" and "epoll_pending s = []" and "0 \<le> t" and "t * 1000 < 2 ^ 31"
    and "epoll_wait E (epoll_fd s) MAX_EVENTS (truncate_number (t * 1000)) k = (ret, errno, evs, k')"
  shows "epoll_waits (H, E, [LNumber t]) (s, k) =
    (if ret \<le> 0 then Ret (wait_failure H ret errno, s\<lparr>events := evs @ drop (length evs) (events s)\<rparr>, k')
     else cbind (Lpushevent (fetched ret evs s)) (\<lambda>(r, s). Ret (r, s, k')))"
proof -
  have t: "0 \<le> truncate_number (t * 1000)" "truncate_number (t * 1000) < 2 ^ 31"
    using assms(3,4) by (simp_all add: truncate_number_def floor_less_iff)
  have "number_to_int (t * 1000) = Ret (truncate_number (t * 1000))"
    unfolding number_to_int_def using t by (simp add: Let_def)
  with assms Lpushevent_none [OF assms(1,2)] show ?thesis
    by (simp add: epoll_waits_def Lwait_def luaL_checkudata_def lua_arg_def luaL_checknumber_def
        luaL_argcheck_def fetched_def fetch_events_def)
qed

text \<open>C4: one successful \<open>epoll_wait\<close> that returns \<open>n\<close> events is reported by exactly \<open>n\<close> calls of
  \<open>wait\<close>, each event once (the last one first), with the readable and writable flags of its mask;
  the calls after the first do not ask the system again, whatever their arguments.\<close>

theorem epoll_wait_batch:
  assumes "epoll_wait_documented E" and "epoll_wf s" and "epoll_pending s = []"
    and "0 \<le> t" and "t * 1000 < 2 ^ 31"
    and "epoll_wait E (epoll_fd s) MAX_EVENTS (truncate_number (t * 1000)) k = (ret, errno, evs, k')"
    and "0 < ret" and "length envs = nat ret - 1"
  shows "\<exists>s'. run_ops epoll_waits ((H, E, [LNumber t]) # envs) (s, k) =
      Ret (map (\<lambda>e. push_ready (event_ready e)) (rev evs), s', k') \<and>
    epoll_wf s' \<and> epoll_pending s' = []"
proof -
  let ?s = "fetched ret evs s"
  note evs = epoll_wait_documentedD [OF assms(1,6)]
  note wf = fetched_wf [OF assms(2) evs]
  from evs assms(7) obtain e es where es: "rev evs = e # es" by (cases "rev evs") auto
  then have pend: "epoll_pending ?s = event_ready e # map event_ready es" using wf(2) by simp
  from Lpushevent_next [OF wf(1) pend] obtain s1 where s1: "Lpushevent ?s = Ret (push_ready (event_ready e), s1)"
    "epoll_wf s1" "epoll_pending s1 = map event_ready es" by blast
  have len: "length envs = length (epoll_pending s1)"
    using evs(1) assms(8) s1(3) arg_cong [OF es, of length] by simp
  have "epoll_waits (H, E, [LNumber t]) (s, k) = Ret (push_ready (event_ready e), s1, k')"
    using Lwait_fetch [OF assms(2-6)] assms(7) s1(1) by simp
  with epoll.waits_drain [OF s1(2) len, of k'] s1(3) es show ?thesis by (auto simp: comp_def)
qed

text \<open>An operating system for concrete runs: \<open>epoll_wait\<close> takes the first events off a list.\<close>

definition script_os :: "epoll_event list epoll_os" where
  "script_os = \<lparr>epoll_create1 = (\<lambda>k. (3, 0, k)), epoll_ctl = (\<lambda>_ _ _ _ k. (0, 0, k)),
     epoll_wait = (\<lambda>_ n _ k. (int (length (take n k)), 0, take n k, drop n k)),
     os_close = (\<lambda>_ k. (0, 0, k))\<rparr>"

lemma script_os_documented: "epoll_wait_documented script_os"
  by (auto simp: epoll_wait_documented_def script_os_def)

definition idle_state :: epoll_state where
  "idle_state = \<lparr>processed = 0, epoll_fd = 3, events = replicate 64 \<lparr>ev_events = 0, ev_fd = 0\<rparr>\<rparr>"

lemma idle_state_ok [simp]: "epoll_wf idle_state" "epoll_pending idle_state = []" "epoll_fd idle_state = 3"
  by (simp_all add: epoll_wf_def epoll_pending_def idle_state_def MAX_EVENTS_def)

theorem epoll_wait_batch_witness:
  "\<exists>s'. run_ops epoll_waits [(plain_host, script_os, [LNumber 1]), (plain_host, script_os, [])]
      (idle_state, [\<lparr>ev_events = 1, ev_fd = 7\<rparr>, \<lparr>ev_events = 4, ev_fd = 9\<rparr>]) =
      Ret ([[LNumber 9, LBool False, LBool True], [LNumber 7, LBool True, LBool False]], s', []) \<and>
    epoll_wf s' \<and> epoll_pending s' = []"
  using epoll_wait_batch [OF script_os_documented idle_state_ok(1,2),
      of 1 "[\<lparr>ev_events = 1, ev_fd = 7\<rparr>, \<lparr>ev_events = 4, ev_fd = 9\<rparr>]" 2 0
        "[\<lparr>ev_events = 1, ev_fd = 7\<rparr>, \<lparr>ev_events = 4, ev_fd = 9\<rparr>]" "[]" "[(plain_host, script_os, [])]"
        plain_host]
  by (simp add: script_os_def MAX_EVENTS_def push_ready_def event_ready_def epoll_masks)

text \<open>A wait that fetches nothing returns \<open>nil\<close> with \<open>timeout\<close>, \<open>signal\<close> (interrupted) or the
  system's error, and leaves no event pending: the next wait asks the system again.\<close>

theorem epoll_wait_none:
  assumes "epoll_wait_documented E" and "epoll_wf s" and "epoll_pending s = []"
    and "0 \<le> t" and "t * 1000 < 2 ^ 31"
    and "epoll_wait E (epoll_fd s) MAX_EVENTS (truncate_number (t * 1000)) k = (ret, errno, evs, k')"
    and "ret \<le> 0"
  shows "epoll_waits (H, E, [LNumber t]) (s, k) =
    Ret (if ret = 0 then [LNil, LString (bs ''timeout'')]
         else if errno = EINTR then [LNil, LString (bs ''signal'')]
         else [LNil, LString (strerror H errno), LNumber (of_int errno)], s, k')"
  using Lwait_fetch [OF assms(2-6)] epoll_wait_documentedD(1) [OF assms(1,6)] assms(7)
  by (simp add: wait_failure_def push_errno_def)

theorem epoll_wait_none_witness:
  "epoll_waits (plain_host, script_os, [LNumber 1]) (idle_state, []) =
    Ret ([LNil, LString (bs ''timeout'')], idle_state, [])"
  using epoll_wait_none [OF script_os_documented idle_state_ok(1,2), of 1 "[]" 0 0 "[]" "[]" plain_host]
  by (simp add: script_os_def MAX_EVENTS_def)

section \<open>Reachable states\<close>

text \<open>The states of a poller between calls, with any arguments to the calls.\<close>

inductive epoll_reachable :: "host \<Rightarrow> 'k epoll_os \<Rightarrow> epoll_state \<Rightarrow> 'k \<Rightarrow> bool" for H E where
  r_new: "length junk = MAX_EVENTS \<Longrightarrow> Lnew H E p junk k = (r, s, k') \<Longrightarrow> epoll_reachable H E s k'"
| r_add: "epoll_reachable H E s k \<Longrightarrow> Ladd H E L (s, k) = Ret (r, s', k') \<Longrightarrow> epoll_reachable H E s' k'"
| r_set: "epoll_reachable H E s k \<Longrightarrow> Lset H E L (s, k) = Ret (r, s', k') \<Longrightarrow> epoll_reachable H E s' k'"
| r_del: "epoll_reachable H E s k \<Longrightarrow> Ldel H E L (s, k) = Ret (r, s', k') \<Longrightarrow> epoll_reachable H E s' k'"
| r_wait: "epoll_reachable H E s k \<Longrightarrow> Lwait H E L (s, k) = Ret (r, s', k') \<Longrightarrow> epoll_reachable H E s' k'"
| r_gc: "epoll_reachable H E s k \<Longrightarrow> Lgc H E L (s, k) = Ret (r, s', k') \<Longrightarrow> epoll_reachable H E s' k'"

lemma Lnew_wf: "length junk = MAX_EVENTS \<Longrightarrow> Lnew H E p junk k = (r, s, k') \<Longrightarrow> epoll_wf s"
  by (auto simp: Lnew_def epoll_wf_def MAX_EVENTS_def Let_def split: prod.splits if_splits)

lemma ctl_same_state:
  "Ladd H E L (s, k) = Ret (r, s', k') \<Longrightarrow> s' = s"
  "Lset H E L (s, k) = Ret (r, s', k') \<Longrightarrow> s' = s"
  "Ldel H E L (s, k) = Ret (r, s', k') \<Longrightarrow> s' = s"
  by (auto simp: Ladd_def Lset_def Ldel_def cbind_eq_Ret Let_def case_prod_beta split: if_splits)

lemma Lgc_state: "Lgc H E L (s, k) = Ret (r, s', k') \<Longrightarrow> s' = s \<or> s' = s\<lparr>epoll_fd := - 1\<rparr>"
  by (auto simp: Lgc_def cbind_eq_Ret Let_def case_prod_beta split: if_splits)

lemma Lpushevent_wf: "epoll_wf s \<Longrightarrow> \<exists>r s'. Lpushevent s = Ret (r, s') \<and> epoll_wf s'"
  using epoll.push_invar by blast

lemma fetch_wf:
  assumes "epoll_wf s" and "epoll_wait_documented E" and "epoll_wait E fd MAX_EVENTS ms k = (ret, errno, evs, k')"
  shows "epoll_wf (s\<lparr>events := evs @ drop (length evs) (events s)\<rparr>)"
    and "epoll_wf (s\<lparr>events := evs @ drop (length evs) (events s), processed := ret\<rparr>)"
  using epoll_wait_documentedD [OF assms(2,3)] assms(1) by (auto simp: epoll_wf_def MAX_EVENTS_def)

lemma Lwait_wf:
  assumes "epoll_wf s" and "epoll_wait_documented E"
  shows "outcome (\<lambda>(r, s', k'). epoll_wf s') (\<lambda>u. u = CastOutOfRange) (Lwait H E L (s, k))"
proof -
  have push: "outcome (\<lambda>(r, s'). epoll_wf s') U (Lpushevent s)" if "epoll_wf s" for U s
    using Lpushevent_wf [OF that] by auto
  have fetch: "outcome (\<lambda>(r, s', k'). epoll_wf s') (\<lambda>u. u = CastOutOfRange) (fetch_events H E ms (s, k))"
    if wf: "epoll_wf s" for s ms
  proof -
    obtain ret errno evs k' where w: "epoll_wait E (epoll_fd s) MAX_EVENTS ms k = (ret, errno, evs, k')"
      by (rule prod_cases4)
    show ?thesis
      using fetch_wf [OF wf assms(2) w]
      by (auto simp: fetch_events_def w Let_def intro!: outcome_bind outcome_conseq [OF push])
  qed
  show ?thesis
    unfolding Lwait_def prod.case
    by (intro outcome_bind outcome_checks(1) outcome_conseq [OF push [OF assms(1)]])
      (auto intro!: outcome_rules fetch)
qed

lemma epoll_reachable_wf: "epoll_reachable H E s k \<Longrightarrow> epoll_wait_documented E \<Longrightarrow> epoll_wf s"
proof (induction rule: epoll_reachable.induct)
  case (r_wait s k L r s' k')
  then show ?case using outcomeD(1) [OF Lwait_wf [of s E H L k]] by blast
next
  case (r_gc s k L r s' k')
  then show ?case using Lgc_state [OF r_gc.hyps(2)] by (auto simp: epoll_wf_def)
qed (auto simp: Lnew_wf dest: ctl_same_state)

text \<open>C15: in every state that calls with any arguments can reach, at most \<open>MAX_EVENTS\<close> events are
  pending and a wait reads inside \<open>events\<close>; the only undefined behaviour left is the conversion of
  a timeout of about 25 days or more to milliseconds.\<close>

theorem epoll_memory_safe:
  assumes "epoll_reachable H E s k" and "epoll_wait_documented E"
  shows "processed s \<le> 64 \<and> length (events s) = 64 \<and>
    (\<forall>L u. Lwait H E L (s, k) = Undef u \<longrightarrow> u = CastOutOfRange)"
proof -
  have wf: "epoll_wf s" by (rule epoll_reachable_wf) (fact assms)+
  then have "u = CastOutOfRange" if "Lwait H E L (s, k) = Undef u" for L u
    using outcomeD(2) [OF Lwait_wf [OF wf assms(2)] that] by simp
  with wf show ?thesis by (auto simp: epoll_wf_def MAX_EVENTS_def)
qed

theorem epoll_memory_safe_witness:
  "processed idle_state \<le> 64 \<and>
    Lwait plain_host script_os [LUserdata EPOLL_MT 0, LNumber 1] (idle_state, []) \<noteq> Undef OutOfBounds"
proof -
  have "Lnew plain_host script_os 0 (replicate 64 \<lparr>ev_events = 0, ev_fd = 0\<rparr>) [] =
      ([LUserdata EPOLL_MT 0], idle_state, [])"
    by (simp add: Lnew_def script_os_def idle_state_def)
  then have "epoll_reachable plain_host script_os idle_state []"
    by (rule r_new [rotated]) (simp add: MAX_EVENTS_def)
  from epoll_memory_safe [OF this script_os_documented] show ?thesis by blast
qed

section \<open>Registration\<close>

lemma epoll_mask_powers:
  "EPOLLIN = 2 ^ 0" "EPOLLOUT = 2 ^ 2" "EPOLLERR = 2 ^ 3" "EPOLLHUP = 2 ^ 4" "EPOLLRDHUP = 2 ^ 13"
  by (simp_all add: epoll_masks)

lemma bit_epoll_masks:
  "bit EPOLLIN n \<longleftrightarrow> n = 0" "bit EPOLLOUT n \<longleftrightarrow> n = 2" "bit EPOLLERR n \<longleftrightarrow> n = 3" "bit EPOLLHUP n \<longleftrightarrow> n = 4"
  "bit EPOLLRDHUP n \<longleftrightarrow> n = 13"
  unfolding epoll_mask_powers bit_exp_iff by (auto simp: possible_bit_def)

lemma bit_interest:
  "bit (ev_events (interest fd r w)) n \<longleftrightarrow> (n = 0 \<and> r) \<or> (n = 2 \<and> w) \<or> n = 3 \<or> n = 4 \<or> n = 13"
  by (auto simp: interest_def bit_or_iff bit_epoll_masks)

lemma and_mask_nonzero: "(m :: uint32) AND c \<noteq> 0 \<longleftrightarrow> (\<exists>n. bit m n \<and> bit c n)"
proof
  assume "m AND c \<noteq> 0"
  then obtain n where "bit (m AND c) n" using bit_eq_iff [of "m AND c" 0] by auto
  then show "\<exists>n. bit m n \<and> bit c n" by (auto simp: bit_and_iff)
next
  assume "\<exists>n. bit m n \<and> bit c n"
  then obtain n where "bit (m AND c) n" by (auto simp: bit_and_iff)
  then show "m AND c \<noteq> 0" by (metis bit_0_eq bot_apply bot_bool_def)
qed

lemma event_ready_bits:
  "ready_read (event_ready \<lparr>ev_events = m, ev_fd = fd\<rparr>) \<longleftrightarrow> bit m 0 \<or> bit m 3 \<or> bit m 4 \<or> bit m 13"
  "ready_write (event_ready \<lparr>ev_events = m, ev_fd = fd\<rparr>) \<longleftrightarrow> bit m 2"
  by (auto simp: event_ready_def and_mask_nonzero bit_or_iff bit_epoll_masks)

text \<open>C33: \<open>add\<close> registers a descriptor, and \<open>set\<close> changes its registration, with an event that names the
  descriptor and whose mask has the bit of \<open>EPOLLIN\<close> exactly when reading is asked for, the bit of
  \<open>EPOLLOUT\<close> exactly when writing is, the bits of errors and of both hang-ups always, and no other
  bit; they return the answer of the system. \<open>add\<close> refuses a negative descriptor without a system
  call. An event is reported as readable exactly when it has input, an error or one of the hang-ups,
  and as writable exactly when it has output.\<close>

theorem epoll_add_interest:
  assumes "- (2 ^ 31) \<le> fd" and "fd < 2 ^ 31"
  shows "\<exists>ev. ev_fd ev = fd \<and>
      (\<forall>n. bit (ev_events ev) n \<longleftrightarrow> (n = 0 \<and> r) \<or> (n = 2 \<and> w) \<or> n = 3 \<or> n = 4 \<or> n = 13) \<and>
      Ladd H E [LUserdata EPOLL_MT 0, LNumber (of_int fd), LBool r, LBool w] (s, k) =
        (if fd < 0 then Ret (push_errno H EBADF, s, k)
         else case epoll_ctl E (epoll_fd s) EPOLL_CTL_ADD fd (Some ev) k of
           (ret, errno, k') \<Rightarrow> Ret (if ret < 0 then push_errno H errno else [LBool True], s, k')) \<and>
      Lset H E [LUserdata EPOLL_MT 0, LNumber (of_int fd), LBool r, LBool w] (s, k) =
        (case epoll_ctl E (epoll_fd s) EPOLL_CTL_MOD fd (Some ev) k of
           (ret, errno, k') \<Rightarrow> Ret (if ret = 0 then [LBool True] else push_errno H errno, s, k')) \<and>
      (\<forall>m. (ready_read (event_ready \<lparr>ev_events = m, ev_fd = fd\<rparr>) \<longleftrightarrow> bit m 0 \<or> bit m 3 \<or> bit m 4 \<or> bit m 13) \<and>
           (ready_write (event_ready \<lparr>ev_events = m, ev_fd = fd\<rparr>) \<longleftrightarrow> bit m 2))"
proof -
  have "- (2 ^ 63) \<le> fd \<and> fd < 2 ^ 63" using assms by simp
  moreover have "cast_int fd = fd" using assms by (simp add: cast_int_id)
  moreover have "ev_fd (interest fd r w) = fd" by (simp add: interest_def)
  ultimately show ?thesis
    using bit_interest [of fd r w] event_ready_bits
    by (intro exI [of _ "interest fd r w"]) (auto simp: Ladd_def Lset_def lua_api case_prod_beta)
qed

theorem epoll_add_interest_witness:
  "\<exists>ev. ev_fd ev = 7 \<and> bit (ev_events ev) 0 \<and> \<not> bit (ev_events ev) 2 \<and>
    Ladd plain_host script_os [LUserdata EPOLL_MT 0, LNumber (of_int 7), LBool True, LBool False] (idle_state, []) =
      (case epoll_ctl script_os (epoll_fd idle_state) EPOLL_CTL_ADD 7 (Some ev) [] of
         (ret, errno, k') \<Rightarrow> Ret (if ret < 0 then push_errno plain_host errno else [LBool True], idle_state, k'))"
proof -
  have "- (2 ^ 31) \<le> (7 :: int)" "(7 :: int) < 2 ^ 31" "\<not> (7 :: int) < 0" by simp_all
  from epoll_add_interest [OF this(1,2), of True False plain_host script_os idle_state "[]"] this(3)
  obtain ev where "ev_fd ev = 7" and "\<And>n. bit (ev_events ev) n \<longleftrightarrow> n = 0 \<or> n = 3 \<or> n = 4 \<or> n = 13"
    and "Ladd plain_host script_os [LUserdata EPOLL_MT 0, LNumber (of_int 7), LBool True, LBool False] (idle_state, []) =
      (case epoll_ctl script_os (epoll_fd idle_state) EPOLL_CTL_ADD 7 (Some ev) [] of
         (ret, errno, k') \<Rightarrow> Ret (if ret < 0 then push_errno plain_host errno else [LBool True], idle_state, k'))"
    by auto
  then show ?thesis by (intro exI [of _ ev]) simp
qed

text \<open>\<open>Ldel\<close> does not withdraw events that were fetched before: when the descriptor of the next
  pending event is removed, the next wait still reports it.\<close>

theorem epoll_del_stale:
  assumes "epoll_wf s" and "epoll_pending s = e # es" and "0 \<le> ready_fd e" and "ready_fd e < 2 ^ 31"
    and "epoll_ctl E (epoll_fd s) EPOLL_CTL_DEL (ready_fd e) None k = (0, errno, k')"
  shows "\<exists>s'. cbind (Ldel H E [LUserdata EPOLL_MT 0, LNumber (of_int (ready_fd e))] (s, k))
      (\<lambda>(r, c). cbind (epoll_waits (H, E, L) c) (\<lambda>(r', c'). Ret (r, r', c'))) =
    Ret ([LBool True], push_ready e, s', k')"
proof -
  have "- (2 ^ 63) \<le> ready_fd e \<and> ready_fd e < 2 ^ 63" "cast_int (ready_fd e) = ready_fd e"
    using assms(3,4) by (simp_all add: cast_int_id)
  then have "Ldel H E [LUserdata EPOLL_MT 0, LNumber (of_int (ready_fd e))] (s, k) = Ret ([LBool True], s, k')"
    using assms(5) by (simp add: Ldel_def lua_api)
  moreover obtain s' where "epoll_waits (H, E, L) (s, k') = Ret (push_ready e, s', k')"
    using epoll.wait_next [OF assms(1,2), where env = "(H, E, L)" and k = k'] by blast
  ultimately show ?thesis by simp
qed

theorem epoll_del_stale_witness:
  "\<exists>s'. cbind (Ldel plain_host script_os [LUserdata EPOLL_MT 0, LNumber (of_int 7)]
        (idle_state\<lparr>events := (events idle_state)[0 := \<lparr>ev_events = 1, ev_fd = 7\<rparr>], processed := 1\<rparr>, []))
      (\<lambda>(r, c). cbind (epoll_waits (plain_host, script_os, []) c) (\<lambda>(r', c'). Ret (r, r', c'))) =
    Ret ([LBool True], [LNumber 7, LBool True, LBool False], s', [])"
proof -
  let ?s = "idle_state\<lparr>events := (events idle_state)[0 := \<lparr>ev_events = 1, ev_fd = 7\<rparr>], processed := 1\<rparr>"
  have "epoll_wf ?s" by (simp add: epoll_wf_def idle_state_def MAX_EVENTS_def)
  moreover have "epoll_pending ?s = [\<lparr>ready_fd = 7, ready_read = True, ready_write = False\<rparr>]"
    by (simp add: epoll_pending_def idle_state_def event_ready_def epoll_masks take_Suc numeral_eq_Suc)
  ultimately show ?thesis
    using epoll_del_stale [of ?s _ "[]" script_os "[]" 0 "[]" plain_host "[]"]
    by (simp add: script_os_def push_ready_def)
qed

section \<open>Creation and release\<close>

text \<open>A poller whose creation succeeded holds the descriptor it was given; releasing it closes that
  descriptor once, and a second release does nothing.\<close>

theorem epoll_new_gc:
  assumes "epoll_create1 E k = (fd, errno, k1)" and "0 < fd" and "os_close E fd k1 = (0, errno', k2)"
  shows "\<exists>s. Lnew H E p junk k = ([LUserdata EPOLL_MT p], s, k1) \<and>
    Lgetfd [LUserdata EPOLL_MT p] s = Ret [LNumber (of_int fd)] \<and>
    (\<exists>s'. Lgc H E [LUserdata EPOLL_MT p] (s, k1) = Ret ([], s', k2) \<and>
       Lgc H E [LUserdata EPOLL_MT p] (s', k2) = Ret ([], s', k2))"
  using assms by (simp add: Lnew_def Lgetfd_def Lgc_def lua_api)

theorem epoll_new_gc_witness:
  "\<exists>s. Lnew plain_host script_os 5 [] [] = ([LUserdata EPOLL_MT 5], s, []) \<and>
    Lgetfd [LUserdata EPOLL_MT 5] s = Ret [LNumber 3]"
  using epoll_new_gc [of script_os "[]" 3 0 "[]" 0 "[]" plain_host 5 "[]"]
  by (auto simp: script_os_def)

text \<open>Descriptor 0 is a valid result of \<open>epoll_create1\<close>, but \<open>Lnew\<close> takes it for an error: it
  returns an error from whatever \<open>errno\<close> holds, and the release does not close the descriptor.\<close>

theorem epoll_new_descriptor_0:
  assumes "epoll_create1 E k = (0, errno, k1)"
  shows "\<exists>s. Lnew H E p junk k = (push_errno H errno, s, k1) \<and>
    Lgc H E [LUserdata EPOLL_MT p] (s, k1) = Ret ([], s, k1)"
  using assms by (simp add: Lnew_def Lgc_def lua_api)

theorem epoll_new_descriptor_0_witness:
  "\<exists>s. Lnew plain_host (script_os\<lparr>epoll_create1 := \<lambda>k. (0, 0, k)\<rparr>) 5 [] [] = (push_errno plain_host 0, s, [])"
  using epoll_new_descriptor_0 [of "script_os\<lparr>epoll_create1 := \<lambda>k. (0, 0, k)\<rparr>" "[]" 0 "[]" plain_host 5 "[]"]
  by auto

end
