(* ===== verification/PollSelect.thy ===== *)
theory PollSelect
  imports Poll
begin

text \<open>
  The select backend of \<open>util-src/poll.c\<close>, for systems without epoll. The macros on \<open>fd_set\<close> are
  defined for descriptors from 0 to \<open>FD_SETSIZE - 1\<close> only; outside they write or read outside the
  set. \<open>processed\<close> is the last descriptor reported of the current batch.
\<close>

section \<open>Descriptor sets\<close>

definition FD_SETSIZE :: int where "FD_SETSIZE = 1024"

type_synonym fd_set = "int set"

definition in_fd_set :: "int \<Rightarrow> bool" where
  "in_fd_set fd \<longleftrightarrow> 0 \<le> fd \<and> fd < FD_SETSIZE"

definition FD_SET :: "int \<Rightarrow> fd_set \<Rightarrow> fd_set cres" where
  "FD_SET fd S = (if in_fd_set fd then Ret (insert fd S) else Undef OutOfBounds)"

definition FD_CLR :: "int \<Rightarrow> fd_set \<Rightarrow> fd_set cres" where
  "FD_CLR fd S = (if in_fd_set fd then Ret (S - {fd}) else Undef OutOfBounds)"

definition FD_ISSET :: "int \<Rightarrow> fd_set \<Rightarrow> bool cres" where
  "FD_ISSET fd S = (if in_fd_set fd then Ret (fd \<in> S) else Undef OutOfBounds)"

lemmas fd_set_defs = FD_SET_def FD_CLR_def FD_ISSET_def

definition SELECT_MT :: string where "SELECT_MT = ''util.poll<select>''"

record select_state =
  sel_processed :: int
  wantread :: fd_set
  wantwrite :: fd_set
  readable :: fd_set
  writable :: fd_set
  all_fds :: fd_set
  err_fds :: fd_set

text \<open>\<open>select(2)\<close>: the three sets and the timeout in seconds and microseconds give the result, the
  \<open>errno\<close> and the sets as the call leaves them.\<close>

type_synonym 'k select_os =
  "fd_set \<Rightarrow> fd_set \<Rightarrow> fd_set \<Rightarrow> int \<times> int \<Rightarrow> 'k \<Rightarrow> int \<times> int \<times> (fd_set \<times> fd_set \<times> fd_set) \<times> 'k"

section \<open>Operations\<close>

definition set_or_clr :: "bool \<Rightarrow> int \<Rightarrow> fd_set \<Rightarrow> fd_set cres" where
  "set_or_clr want fd S = (if want then FD_SET fd S else FD_CLR fd S)"

definition Ladd_select :: "host \<Rightarrow> lua_args \<Rightarrow> select_state \<Rightarrow> (lua_value list \<times> select_state) cres" where
  "Ladd_select H L s =
    cbind (luaL_checkudata L 1 SELECT_MT) (\<lambda>_.
    cbind (luaL_checkinteger H L 2) (\<lambda>n.
      let fd = cast_int n;
          want_read = lua_toboolean (lua_arg L 3);
          want_write = lua_toboolean (lua_arg L 4)
      in if fd < 0 then Ret (push_errno H EBADF, s)
         else if fd > FD_SETSIZE then Ret (push_errno H EBADF, s)
         else cbind (FD_ISSET fd (all_fds s)) (\<lambda>known.
           if known then Ret (push_errno H EEXIST, s)
           else
             cbind (FD_CLR fd (readable s)) (\<lambda>r.
             cbind (FD_CLR fd (writable s)) (\<lambda>w.
             cbind (FD_CLR fd (err_fds s)) (\<lambda>e.
             cbind (FD_SET fd (all_fds s)) (\<lambda>a.
             cbind (set_or_clr want_read fd (wantread s)) (\<lambda>wr.
             cbind (set_or_clr want_write fd (wantwrite s)) (\<lambda>ww.
               Ret ([LBool True],
                 s\<lparr>readable := r, writable := w, err_fds := e, all_fds := a,
                   wantread := wr, wantwrite := ww\<rparr>)))))))))) "

text \<open>\<open>Lset\<close> pushes the three values of the error on the stack of arguments and goes on: the indices 3
  and 4 then read the stack with the pushed values. Lua sees the last value pushed.\<close>

definition Lset_select :: "host \<Rightarrow> lua_args \<Rightarrow> select_state \<Rightarrow> (lua_value list \<times> select_state) cres" where
  "Lset_select H L s =
    cbind (luaL_checkudata L 1 SELECT_MT) (\<lambda>_.
    cbind (luaL_checkinteger H L 2) (\<lambda>n.
      let fd = cast_int n in
      cbind (FD_ISSET fd (all_fds s)) (\<lambda>known.
        let st = (if known then L else L @ push_errno H ENOENT) in
        cbind (if lua_isnoneornil (lua_arg st 3) then Ret (wantread s)
               else set_or_clr (lua_toboolean (lua_arg st 3)) fd (wantread s)) (\<lambda>wr.
        cbind (if lua_isnoneornil (lua_arg st 4) then Ret (wantwrite s)
               else set_or_clr (lua_toboolean (lua_arg st 4)) fd (wantwrite s)) (\<lambda>ww.
          let st = st @ [LBool True] in
          Ret ([last st], s\<lparr>wantread := wr, wantwrite := ww\<rparr>))))))"

definition Ldel_select :: "host \<Rightarrow> lua_args \<Rightarrow> select_state \<Rightarrow> (lua_value list \<times> select_state) cres" where
  "Ldel_select H L s =
    cbind (luaL_checkudata L 1 SELECT_MT) (\<lambda>_.
    cbind (luaL_checkinteger H L 2) (\<lambda>n.
      let fd = cast_int n in
      cbind (FD_ISSET fd (all_fds s)) (\<lambda>known.
        let st = (if known then L else L @ push_errno H ENOENT) in
        cbind (FD_CLR fd (wantread s)) (\<lambda>wr.
        cbind (FD_CLR fd (wantwrite s)) (\<lambda>ww.
        cbind (FD_CLR fd (readable s)) (\<lambda>r.
        cbind (FD_CLR fd (writable s)) (\<lambda>w.
        cbind (FD_CLR fd (all_fds s)) (\<lambda>a.
        cbind (FD_CLR fd (err_fds s)) (\<lambda>e.
          let st = st @ [LBool True] in
          Ret ([last st],
            s\<lparr>wantread := wr, wantwrite := ww, readable := r, writable := w, all_fds := a, err_fds := e\<rparr>))))))))))"

text \<open>The loop of \<open>Lpushevent\<close>, from descriptor \<open>fd\<close> on.\<close>

function scan_fds :: "int \<Rightarrow> select_state \<Rightarrow> (lua_value list \<times> select_state) cres" where
  "scan_fds fd s =
    (if fd < FD_SETSIZE then
       cbind (FD_ISSET fd (readable s)) (\<lambda>r.
       cbind (FD_ISSET fd (writable s)) (\<lambda>w.
       cbind (FD_ISSET fd (err_fds s)) (\<lambda>e.
         if r \<or> w \<or> e then
           cbind (FD_CLR fd (readable s)) (\<lambda>rs.
           cbind (FD_CLR fd (writable s)) (\<lambda>ws.
           cbind (FD_CLR fd (err_fds s)) (\<lambda>es.
             Ret (push_ready \<lparr>ready_fd = fd, ready_read = (r \<or> e), ready_write = w\<rparr>,
               s\<lparr>readable := rs, writable := ws, err_fds := es, sel_processed := fd\<rparr>))))
         else scan_fds (fd + 1) s)))
     else Ret ([], s))"
  by pat_completeness auto
termination
  by (relation "measure (\<lambda>(fd, s). nat (FD_SETSIZE - fd))") auto

declare scan_fds.simps [simp del]

definition Lpushevent_select :: "select_state \<Rightarrow> (lua_value list \<times> select_state) cres" where
  "Lpushevent_select s = scan_fds (sel_processed s + 1) s"

text \<open>The call of \<open>select\<close> in \<open>Lwait\<close> and what follows it.\<close>

definition select_fds :: "host \<Rightarrow> 'k select_os \<Rightarrow> int \<times> int \<Rightarrow> select_state \<times> 'k \<Rightarrow>
    (lua_value list \<times> select_state \<times> 'k) cres" where
  "select_fds H E tv = (\<lambda>(s, k).
    let (ret, errno, (r, w, e), k) = E (wantread s) (wantwrite s) (all_fds s) tv k;
        s = s\<lparr>readable := r, writable := w, err_fds := e\<rparr>
    in if ret \<le> 0 then Ret (wait_failure H ret errno, s, k)
       else cbind (Lpushevent_select (s\<lparr>sel_processed := - 1\<rparr>)) (\<lambda>(r, s). Ret (r, s, k)))"

definition Lwait_select :: "host \<Rightarrow> 'k select_os \<Rightarrow> lua_args \<Rightarrow> select_state \<times> 'k \<Rightarrow>
    (lua_value list \<times> select_state \<times> 'k) cres" where
  "Lwait_select H E L = (\<lambda>(s, k).
    cbind (luaL_checkudata L 1 SELECT_MT) (\<lambda>_.
    cbind (Lpushevent_select s) (\<lambda>(r, s).
      if r \<noteq> [] then Ret (r, s, k)
      else
        cbind (luaL_checknumber H L 2) (\<lambda>timeout.
        cbind (luaL_argcheck (timeout \<ge> 0) 1 ''positive number expected'') (\<lambda>_.
        cbind (number_to_integer timeout) (\<lambda>tv_sec.
        cbind (number_to_integer (timeout * 1000000)) (\<lambda>usec.
          select_fds H E (tv_sec, usec mod 1000000) (s, k))))))))"

definition Lnew_select :: "nat \<Rightarrow> lua_value list \<times> select_state" where
  "Lnew_select p = ([LUserdata SELECT_MT p],
    \<lparr>sel_processed = FD_SETSIZE, wantread = {}, wantwrite = {}, readable = {}, writable = {},
     all_fds = {}, err_fds = {}\<rparr>)"

section \<open>The queue of ready descriptors\<close>

definition fds_from :: "int \<Rightarrow> int list" where
  "fds_from fd = [fd..FD_SETSIZE - 1]"

definition fd_ready :: "select_state \<Rightarrow> int \<Rightarrow> ready" where
  "fd_ready s fd = \<lparr>ready_fd = fd, ready_read = (fd \<in> readable s \<or> fd \<in> err_fds s),
     ready_write = (fd \<in> writable s)\<rparr>"

definition is_ready :: "select_state \<Rightarrow> int \<Rightarrow> bool" where
  "is_ready s fd \<longleftrightarrow> fd \<in> readable s \<or> fd \<in> writable s \<or> fd \<in> err_fds s"

definition select_pending :: "select_state \<Rightarrow> ready list" where
  "select_pending s = map (fd_ready s) (filter (is_ready s) (fds_from (sel_processed s + 1)))"

definition select_wf :: "select_state \<Rightarrow> bool" where
  "select_wf s \<longleftrightarrow> - 1 \<le> sel_processed s"

definition select_waits :: "host \<times> 'k select_os \<times> lua_args \<Rightarrow> select_state \<times> 'k \<Rightarrow>
    (lua_value list \<times> select_state \<times> 'k) cres" where
  "select_waits = (\<lambda>(H, E, L). Lwait_select H E (LUserdata SELECT_MT 0 # L))"

lemma fds_from_Cons: "fd < FD_SETSIZE \<Longrightarrow> fds_from fd = fd # fds_from (fd + 1)"
  by (simp add: fds_from_def upto_rec1)

lemma fds_from_Nil: "FD_SETSIZE \<le> fd \<Longrightarrow> fds_from fd = []"
  by (simp add: fds_from_def)

text \<open>What the scan leaves when it reports \<open>fd\<close>.\<close>

definition reported :: "int \<Rightarrow> select_state \<Rightarrow> select_state" where
  "reported fd s = s\<lparr>readable := readable s - {fd}, writable := writable s - {fd},
     err_fds := err_fds s - {fd}, sel_processed := fd\<rparr>"

lemma scan_fds_first:
  "0 \<le> fd \<Longrightarrow> scan_fds fd s =
    (case filter (is_ready s) (fds_from fd) of
       [] \<Rightarrow> Ret ([], s)
     | f # fs \<Rightarrow> Ret (push_ready (fd_ready s f), reported f s))"
proof (induction fd s rule: scan_fds.induct)
  case (1 fd s)
  show ?case
  proof (cases "fd < FD_SETSIZE")
    case True
    with 1 show ?thesis
      by (subst scan_fds.simps)
        (auto simp: fds_from_Cons fd_set_defs in_fd_set_def is_ready_def [of s fd]
          fd_ready_def [of s fd] reported_def [of fd s])
  qed (simp add: scan_fds.simps fds_from_Nil)
qed

lemma filter_fds_from_ConsD:
  "filter P (fds_from fd) = f # fs \<Longrightarrow> fd \<le> f \<and> f < FD_SETSIZE \<and> fs = filter P (fds_from (f + 1))"
proof (induction "nat (FD_SETSIZE - fd)" arbitrary: fd)
  case (Suc n)
  then have "fd < FD_SETSIZE" by simp
  show ?case
  proof (cases "P fd")
    case True
    with \<open>fd < FD_SETSIZE\<close> Suc.prems show ?thesis by (auto simp: fds_from_Cons)
  next
    case False
    then have "filter P (fds_from (fd + 1)) = f # fs"
      using \<open>fd < FD_SETSIZE\<close> Suc.prems by (simp add: fds_from_Cons)
    with Suc.hyps(1) [of "fd + 1"] Suc.hyps(2) show ?thesis by fastforce
  qed
qed (simp add: fds_from_Nil)

lemma Lpushevent_select_none:
  "select_wf s \<Longrightarrow> select_pending s = [] \<Longrightarrow> Lpushevent_select s = Ret ([], s)"
  by (simp add: select_wf_def select_pending_def Lpushevent_select_def scan_fds_first)

lemma Lpushevent_select_next:
  assumes "select_wf s" and "select_pending s = e # es"
  shows "\<exists>s'. Lpushevent_select s = Ret (push_ready e, s') \<and> select_wf s' \<and> select_pending s' = es"
proof -
  from assms(2) obtain f fs
    where f: "filter (is_ready s) (fds_from (sel_processed s + 1)) = f # fs"
      "e = fd_ready s f" "es = map (fd_ready s) fs"
    by (auto simp: select_pending_def)
  note fs = filter_fds_from_ConsD [OF f(1)]
  let ?s = "reported f s"
  have "filter (is_ready ?s) (fds_from (f + 1)) = filter (is_ready s) (fds_from (f + 1))"
    by (rule filter_cong) (auto simp: fds_from_def is_ready_def reported_def)
  moreover have "map (fd_ready ?s) fs = map (fd_ready s) fs"
    using fs by (auto simp: fds_from_def fd_ready_def reported_def)
  moreover have "sel_processed ?s = f" by (simp add: reported_def)
  ultimately have "select_pending ?s = es" using fs f(3) by (simp add: select_pending_def)
  moreover have "Lpushevent_select s = Ret (push_ready e, ?s)"
    using assms(1) f by (simp add: Lpushevent_select_def scan_fds_first select_wf_def)
  moreover have "select_wf ?s" using assms(1) fs by (simp add: select_wf_def reported_def)
  ultimately show ?thesis by blast
qed

interpretation sel: poller select_wf select_pending Lpushevent_select select_waits
proof unfold_locales
  fix s :: select_state and env :: "host \<times> 'a select_os \<times> lua_args" and k :: 'a
  assume wf: "select_wf s" and "select_pending s \<noteq> []"
  then obtain e es where "select_pending s = e # es" by (cases "select_pending s") auto
  from Lpushevent_select_next [OF wf this] obtain s' where "Lpushevent_select s = Ret (push_ready e, s')" by blast
  then show "select_waits env (s, k) = cbind (Lpushevent_select s) (\<lambda>(r, s'). Ret (r, s', k))"
    by (cases env) (simp add: select_waits_def Lwait_select_def lua_api)
qed (fact Lpushevent_select_none Lpushevent_select_next)+

section \<open>Waiting\<close>

text \<open>What \<open>select(2)\<close> documents: on success the sets are reduced to the ready descriptors, on
  timeout they are empty, and on an error they are not changed.\<close>

definition select_documented :: "'k select_os \<Rightarrow> bool" where
  "select_documented E \<longleftrightarrow>
    (\<forall>r w e tv k ret errno r' w' e' k'. E r w e tv k = (ret, errno, (r', w', e'), k') \<longrightarrow>
       (if ret < 0 then r' = r \<and> w' = w \<and> e' = e
        else r' \<subseteq> r \<and> w' \<subseteq> w \<and> e' \<subseteq> e \<and> (ret = 0 \<longleftrightarrow> r' \<union> w' \<union> e' = {})))"

lemma select_documentedD:
  assumes "select_documented E" and "E r w e tv k = (ret, errno, (r', w', e'), k')"
  shows "if ret < 0 then r' = r \<and> w' = w \<and> e' = e
    else r' \<subseteq> r \<and> w' \<subseteq> w \<and> e' \<subseteq> e \<and> (ret = 0 \<longleftrightarrow> r' \<union> w' \<union> e' = {})"
  using assms unfolding select_documented_def by blast

definition select_tv :: "rat \<Rightarrow> int \<times> int" where
  "select_tv t = (truncate_number t, truncate_number (t * 1000000) mod 1000000)"

definition selected :: "fd_set \<times> fd_set \<times> fd_set \<Rightarrow> select_state \<Rightarrow> select_state" where
  "selected = (\<lambda>(r, w, e) s. s\<lparr>readable := r, writable := w, err_fds := e\<rparr>)"

lemma timeout_conversions:
  assumes "0 \<le> t" and "t * 1000000 < 2 ^ 63"
  shows "number_to_integer t = Ret (truncate_number t)"
    and "number_to_integer (t * 1000000) = Ret (truncate_number (t * 1000000))"
proof -
  have "t \<le> t * 1000000" using assms(1) by simp
  with assms have "t < 2 ^ 63" by linarith
  with assms have "0 \<le> truncate_number t" "truncate_number t < 2 ^ 63"
    by (simp_all add: truncate_number_def floor_less_iff)
  then show "number_to_integer t = Ret (truncate_number t)"
    unfolding number_to_integer_def by (simp add: Let_def)
  have "0 \<le> truncate_number (t * 1000000)" "truncate_number (t * 1000000) < 2 ^ 63"
    using assms by (simp_all add: truncate_number_def floor_less_iff)
  then show "number_to_integer (t * 1000000) = Ret (truncate_number (t * 1000000))"
    unfolding number_to_integer_def by (simp add: Let_def)
qed

lemma Lwait_select_fetch:
  assumes "select_wf s" and "select_pending s = []" and "0 \<le> t" and "t * 1000000 < 2 ^ 63"
    and "E (wantread s) (wantwrite s) (all_fds s) (select_tv t) k = (ret, errno, sets, k')"
  shows "select_waits (H, E, [LNumber t]) (s, k) =
    (if ret \<le> 0 then Ret (wait_failure H ret errno, selected sets s, k')
     else cbind (Lpushevent_select ((selected sets s)\<lparr>sel_processed := - 1\<rparr>)) (\<lambda>(r, s). Ret (r, s, k')))"
  using assms timeout_conversions [OF assms(3,4)] Lpushevent_select_none [OF assms(1,2)]
  by (cases sets)
    (simp add: select_waits_def Lwait_select_def luaL_checkudata_def lua_arg_def luaL_checknumber_def
      luaL_argcheck_def select_fds_def select_tv_def selected_def)

text \<open>The events of an answer of \<open>select\<close>, in ascending order of the descriptors.\<close>

definition select_answer :: "fd_set \<times> fd_set \<times> fd_set \<Rightarrow> ready list" where
  "select_answer = (\<lambda>(r, w, e).
     map (\<lambda>fd. \<lparr>ready_fd = fd, ready_read = (fd \<in> r \<or> fd \<in> e), ready_write = (fd \<in> w)\<rparr>)
       (filter (\<lambda>fd. fd \<in> r \<or> fd \<in> w \<or> fd \<in> e) [0..FD_SETSIZE - 1]))"

lemma selected_pending:
  "select_pending ((selected sets s)\<lparr>sel_processed := - 1\<rparr>) = select_answer sets"
  by (cases sets) (simp add: selected_def select_answer_def select_pending_def fds_from_def
      fd_ready_def [abs_def] is_ready_def [abs_def])

text \<open>C13: the descriptors a successful \<open>select\<close> leaves in its sets are reported by successive calls of
  \<open>wait\<close>, each once, in ascending order (an exceptional condition counts as readable), and \<open>select\<close>
  is called once for all of them.\<close>

theorem select_wait_batch:
  assumes "select_wf s" and "select_pending s = []" and "0 \<le> t" and "t * 1000000 < 2 ^ 63"
    and "E (wantread s) (wantwrite s) (all_fds s) (select_tv t) k = (ret, errno, sets, k')"
    and "0 < ret" and "length (select_answer sets) = Suc (length envs)"
  shows "\<exists>s'. run_ops select_waits ((H, E, [LNumber t]) # envs) (s, k) =
      Ret (map push_ready (select_answer sets), s', k') \<and>
    select_wf s' \<and> select_pending s' = []"
proof -
  let ?s = "(selected sets s)\<lparr>sel_processed := - 1\<rparr>"
  have wf: "select_wf ?s" by (simp add: select_wf_def)
  from assms(7) obtain e es where es: "select_answer sets = e # es" by (cases "select_answer sets") auto
  then have "select_pending ?s = e # es" by (simp add: selected_pending)
  from Lpushevent_select_next [OF wf this] obtain s1 where s1: "Lpushevent_select ?s = Ret (push_ready e, s1)"
    "select_wf s1" "select_pending s1 = es" by blast
  have len: "length envs = length (select_pending s1)" using assms(7) es s1(3) by simp
  have "select_waits (H, E, [LNumber t]) (s, k) = Ret (push_ready e, s1, k')"
    using Lwait_select_fetch [where E = E, OF assms(1-5)] assms(6) s1(1) by simp
  with sel.waits_drain [OF s1(2) len, of k'] s1(3) es show ?thesis by auto
qed

text \<open>A system for concrete runs: a script of answers.\<close>

definition script_select :: "(int \<times> int \<times> (fd_set \<times> fd_set \<times> fd_set)) list select_os" where
  "script_select r w e tv k =
    (case k of [] \<Rightarrow> (0, 0, ({}, {}, {}), [])
     | (ret, errno, (r', w', e')) # k' \<Rightarrow>
         if ret < 0 then (- 1, errno, (r, w, e), k')
         else if r \<inter> r' \<union> w \<inter> w' \<union> e \<inter> e' = {} then (0, 0, ({}, {}, {}), k')
         else (1, 0, (r \<inter> r', w \<inter> w', e \<inter> e'), k'))"

lemma script_select_documented: "select_documented script_select"
  unfolding select_documented_def script_select_def by (auto split: list.splits prod.splits if_splits)

definition watching :: "int \<Rightarrow> fd_set \<Rightarrow> select_state" where
  "watching n S = \<lparr>sel_processed = n, wantread = S, wantwrite = {}, readable = {}, writable = {},
     all_fds = S, err_fds = {}\<rparr>"

lemma watching_ok: "- 1 \<le> n \<Longrightarrow> select_wf (watching n S)" "select_pending (watching n S) = []"
  by (simp_all add: select_wf_def select_pending_def watching_def is_ready_def)

lemma select_answer_57: "select_answer ({5, 7}, {}, {}) =
   [\<lparr>ready_fd = 5, ready_read = True, ready_write = False\<rparr>, \<lparr>ready_fd = 7, ready_read = True, ready_write = False\<rparr>]"
proof -
  have "filter (\<lambda>fd. fd = 5 \<or> fd = 7) [0..1023::int] = [5, 7]"
    by (rule sorted_distinct_set_unique) (auto simp: sorted_wrt_filter)
  then show ?thesis by (simp add: select_answer_def FD_SETSIZE_def)
qed

theorem select_wait_batch_witness:
  "\<exists>s'. run_ops select_waits [(plain_host, script_select, [LNumber 1]), (plain_host, script_select, [])]
      (watching 1024 {5, 7}, [(1, 0, ({5, 7}, {}, {}))]) =
      Ret ([[LNumber 5, LBool True, LBool False], [LNumber 7, LBool True, LBool False]], s', []) \<and>
    select_wf s' \<and> select_pending s' = []"
  using select_wait_batch [OF watching_ok, of 1024 1 script_select "{5, 7}" "[(1, 0, ({5, 7}, {}, {}))]" 1 0
      "({5, 7}, {}, {})" "[]" "[(plain_host, script_select, [])]" plain_host]
  by (simp add: script_select_def watching_def select_answer_57 push_ready_def)

text \<open>C34: a wait interrupted by a signal leaves the copies of the wanted sets behind as if they were
  results: if the lowest registered descriptor above the last reported one is \<open>fd\<close>, and nothing else is
  watched in between, the next wait reports \<open>fd\<close> as readable (and as writable if that was asked for)
  without asking \<open>select\<close>, whatever its timeout.\<close>

theorem select_interrupted_spurious:
  assumes "select_documented E" and "select_wf s" and "select_pending s = []"
    and "0 \<le> t" and "t * 1000000 < 2 ^ 63"
    and "E (wantread s) (wantwrite s) (all_fds s) (select_tv t) k = (- 1, EINTR, sets, k')"
    and "fd \<in> all_fds s" and "sel_processed s < fd" and "fd < FD_SETSIZE"
    and "\<forall>f \<in> all_fds s \<union> wantread s \<union> wantwrite s. sel_processed s < f \<longrightarrow> fd \<le> f"
  shows "\<exists>s'. run_ops select_waits [(H, E, [LNumber t]), (H', E', L)] (s, k) =
    Ret ([[LNil, LString (bs ''signal'')], [LNumber (of_int fd), LBool True, LBool (fd \<in> wantwrite s)]], s', k')"
proof -
  obtain r w e where sets: "sets = (r, w, e)" by (cases sets)
  have same: "r = wantread s" "w = wantwrite s" "e = all_fds s"
    using select_documentedD [OF assms(1) assms(6) [unfolded sets]] by simp_all
  let ?s = "selected sets s"
  have pos: "sel_processed ?s = sel_processed s" by (simp add: selected_def sets)
  have wf: "select_wf ?s" using assms(2) pos by (simp add: select_wf_def)
  have ready: "is_ready ?s f \<longleftrightarrow> f \<in> all_fds s \<union> wantread s \<union> wantwrite s" for f
    by (auto simp: is_ready_def selected_def sets same)
  have split: "fds_from (sel_processed s + 1) = [sel_processed s + 1..fd - 1] @ fd # fds_from (fd + 1)"
    unfolding fds_from_def by (rule upto_split3) (use assms(8,9) in auto)
  have none: "filter (is_ready ?s) [sel_processed s + 1..fd - 1] = []"
  proof (rule ccontr)
    assume "filter (is_ready ?s) [sel_processed s + 1..fd - 1] \<noteq> []"
    then obtain f where "f \<in> set (filter (is_ready ?s) [sel_processed s + 1..fd - 1])" by (meson list.set_sel(1))
    then have "sel_processed s < f" "f < fd" "is_ready ?s f" by auto
    with assms(10) ready show False by fastforce
  qed
  have "is_ready ?s fd" using ready assms(7) by blast
  then have "filter (is_ready ?s) (fds_from (sel_processed s + 1)) = fd # filter (is_ready ?s) (fds_from (fd + 1))"
    unfolding split using none by simp
  then obtain es where "select_pending ?s = fd_ready ?s fd # es" unfolding select_pending_def pos by simp
  from sel.wait_next [OF wf this, of "(H', E', L)" k'] obtain s'
    where next_wait: "select_waits (H', E', L) (?s, k') = Ret (push_ready (fd_ready ?s fd), s', k')" by blast
  have "push_ready (fd_ready ?s fd) = [LNumber (of_int fd), LBool True, LBool (fd \<in> wantwrite s)]"
    using assms(7) by (simp add: push_ready_def fd_ready_def selected_def sets same)
  with Lwait_select_fetch [where E = E, OF assms(2-6)] next_wait show ?thesis by (simp add: wait_failure_def)
qed

theorem select_interrupted_spurious_witness:
  "\<exists>s'. run_ops select_waits [(plain_host, script_select, [LNumber 1]), (plain_host, script_select, [LNumber 0])]
      (watching 5 {5, 7}, [(- 1, EINTR, ({}, {}, {}))]) =
    Ret ([[LNil, LString (bs ''signal'')], [LNumber (of_int 7), LBool True, LBool False]], s', [])"
  using select_interrupted_spurious [OF script_select_documented watching_ok, of 5 1 "{5, 7}"
      "[(- 1, EINTR, ({}, {}, {}))]" "({5, 7}, {}, {5, 7})" "[]" 7 plain_host plain_host script_select "[LNumber 0]"]
  by (simp add: script_select_def watching_def FD_SETSIZE_def)

section \<open>Registration\<close>

text \<open>The registry is a map from descriptors to the wanted directions; the sets that \<open>select\<close> is given
  are the ones of the map, and nothing else.\<close>

definition registry_view :: "(int \<rightharpoonup> bool \<times> bool) \<Rightarrow> select_state \<Rightarrow> bool" where
  "registry_view m s \<longleftrightarrow> all_fds s = dom m \<and> wantread s = {fd. \<exists>w. m fd = Some (True, w)} \<and>
    wantwrite s = {fd. \<exists>r. m fd = Some (r, True)}"

text \<open>What \<open>add\<close>, \<open>set\<close> and \<open>del\<close> return and do to the map; an argument \<open>nil\<close> of \<open>set\<close> keeps the
  direction.\<close>

datatype reg_op = RAdd int bool bool | RSet int "bool option" "bool option" | RDel int

fun reg_spec :: "host \<Rightarrow> reg_op \<Rightarrow> (int \<rightharpoonup> bool \<times> bool) \<Rightarrow> lua_value list \<times> (int \<rightharpoonup> bool \<times> bool)" where
  "reg_spec H (RAdd fd r w) m =
     (if m fd = None then ([LBool True], m(fd \<mapsto> (r, w))) else (push_errno H EEXIST, m))"
| "reg_spec H (RSet fd r w) m =
     ([LBool True],
      case m fd of None \<Rightarrow> m
      | Some (r0, w0) \<Rightarrow> m(fd \<mapsto> (case r of None \<Rightarrow> r0 | Some b \<Rightarrow> b, case w of None \<Rightarrow> w0 | Some b \<Rightarrow> b)))"
| "reg_spec H (RDel fd) m = ([LBool True], m(fd := None))"

text \<open>Programs that stay below \<open>FD_SETSIZE\<close> and call \<open>set\<close> only on registered descriptors.\<close>

fun reg_legal :: "reg_op \<Rightarrow> (int \<rightharpoonup> bool \<times> bool) \<Rightarrow> bool" where
  "reg_legal (RAdd fd r w) m = in_fd_set fd"
| "reg_legal (RSet fd r w) m = (in_fd_set fd \<and> m fd \<noteq> None)"
| "reg_legal (RDel fd) m = in_fd_set fd"

fun reg_program :: "host \<Rightarrow> reg_op list \<Rightarrow> (int \<rightharpoonup> bool \<times> bool) \<Rightarrow> bool" where
  "reg_program H [] m = True"
| "reg_program H (x # xs) m = (reg_legal x m \<and> reg_program H xs (snd (reg_spec H x m)))"

fun opt_bool :: "bool option \<Rightarrow> lua_value" where
  "opt_bool None = LNil"
| "opt_bool (Some b) = LBool b"

fun select_step :: "host \<Rightarrow> reg_op \<Rightarrow> select_state \<Rightarrow> (lua_value list \<times> select_state) cres" where
  "select_step H (RAdd fd r w) s = Ladd_select H [LUserdata SELECT_MT 0, LNumber (of_int fd), LBool r, LBool w] s"
| "select_step H (RSet fd r w) s = Lset_select H [LUserdata SELECT_MT 0, LNumber (of_int fd), opt_bool r, opt_bool w] s"
| "select_step H (RDel fd) s = Ldel_select H [LUserdata SELECT_MT 0, LNumber (of_int fd)] s"

lemma fd_argument: "in_fd_set fd \<Longrightarrow> cast_int fd = fd \<and> - (2 ^ 63) \<le> fd \<and> fd < 2 ^ 63 \<and> 0 \<le> fd \<and> fd < 1024"
  by (auto simp: in_fd_set_def FD_SETSIZE_def intro!: cast_int_id)

lemmas select_reg_simps = Ladd_select_def Lset_select_def Ldel_select_def lua_api fd_set_defs set_or_clr_def
  FD_SETSIZE_def Let_def

lemma registry_add:
  assumes "in_fd_set fd" and "registry_view m s"
  shows "\<exists>s'. select_step H (RAdd fd r w) s = Ret (fst (reg_spec H (RAdd fd r w) m), s') \<and>
    registry_view (snd (reg_spec H (RAdd fd r w) m)) s'"
  using fd_argument [OF assms(1)] assms by (auto simp: select_reg_simps registry_view_def dom_def)

lemma registry_set:
  assumes "in_fd_set fd" and "m fd \<noteq> None" and "registry_view m s"
  shows "\<exists>s'. select_step H (RSet fd r w) s = Ret (fst (reg_spec H (RSet fd r w) m), s') \<and>
    registry_view (snd (reg_spec H (RSet fd r w) m)) s'"
proof -
  obtain r0 w0 where m: "m fd = Some (r0, w0)" using assms(2) by auto
  have known: "fd \<in> all_fds s" using assms(3) m by (auto simp: registry_view_def)
  show ?thesis
    using fd_argument [OF assms(1)] assms(1,3) m known
    by (cases r; cases w) (auto simp: select_reg_simps registry_view_def split: if_splits)
qed

lemma registry_del:
  assumes "in_fd_set fd" and "registry_view m s"
  shows "\<exists>s'. select_step H (RDel fd) s = Ret (fst (reg_spec H (RDel fd) m), s') \<and>
    registry_view (snd (reg_spec H (RDel fd) m)) s'"
  using fd_argument [OF assms(1)] assms by (auto simp: select_reg_simps registry_view_def)

lemma registry_step:
  assumes "reg_legal x m" and "registry_view m s"
  shows "\<exists>s'. select_step H x s = Ret (fst (reg_spec H x m), s') \<and> registry_view (snd (reg_spec H x m)) s'"
  using assms registry_add registry_set registry_del by (cases x) (simp_all del: reg_spec.simps select_step.simps)

lemma registry_run:
  "reg_program H xs m \<Longrightarrow> registry_view m s \<Longrightarrow>
    \<exists>s'. run_ops (select_step H) xs s = Ret (fst (spec_run (reg_spec H) xs m), s') \<and>
      registry_view (snd (spec_run (reg_spec H) xs m)) s'"
proof (induction xs arbitrary: m s)
  case (Cons x xs)
  from registry_step [of x m s H] Cons.prems obtain s1 where
    s1: "select_step H x s = Ret (fst (reg_spec H x m), s1)" "registry_view (snd (reg_spec H x m)) s1" by auto
  from Cons.IH [OF _ s1(2)] Cons.prems obtain s2 where
    "run_ops (select_step H) xs s1 = Ret (fst (spec_run (reg_spec H) xs (snd (reg_spec H x m))), s2)"
    "registry_view (snd (spec_run (reg_spec H) xs (snd (reg_spec H x m)))) s2" by auto
  with s1(1) show ?case by (auto simp: case_prod_beta Let_def)
qed simp

text \<open>C14: on a new poller of the select backend, a program that uses descriptors below \<open>FD_SETSIZE\<close> and
  calls \<open>set\<close> only on registered ones gets from every \<open>add\<close>, \<open>set\<close> and \<open>del\<close> the values that the map
  of registrations gives (true, or \<open>EEXIST\<close> for a second \<open>add\<close>), without undefined behaviour, and the
  three sets that \<open>select\<close> is called with are exactly the descriptors and directions of the map.\<close>

theorem select_registry:
  assumes "reg_program H xs Map.empty"
  shows "\<exists>s'. run_ops (select_step H) xs (snd (Lnew_select p)) = Ret (fst (spec_run (reg_spec H) xs Map.empty), s') \<and>
    all_fds s' = dom (snd (spec_run (reg_spec H) xs Map.empty)) \<and>
    wantread s' = {fd. \<exists>w. snd (spec_run (reg_spec H) xs Map.empty) fd = Some (True, w)} \<and>
    wantwrite s' = {fd. \<exists>r. snd (spec_run (reg_spec H) xs Map.empty) fd = Some (r, True)}"
  using registry_run [OF assms, of "snd (Lnew_select p)"] by (auto simp: registry_view_def Lnew_select_def)

theorem select_registry_witness:
  "\<exists>s'. run_ops (select_step plain_host)
      [RAdd 5 True False, RSet 5 None (Some True), RAdd 5 True True, RAdd 9 True False, RDel 9] (snd (Lnew_select 0)) =
      Ret ([[LBool True], [LBool True], push_errno plain_host EEXIST, [LBool True], [LBool True]], s') \<and>
    all_fds s' = {5} \<and> wantread s' = {5} \<and> wantwrite s' = {5}"
proof -
  let ?xs = "[RAdd 5 True False, RSet 5 None (Some True), RAdd 5 True True, RAdd 9 True False, RDel 9]"
  let ?m = "[5 \<mapsto> (True, True)] :: int \<rightharpoonup> bool \<times> bool"
  have spec: "spec_run (reg_spec plain_host) ?xs Map.empty =
      ([[LBool True], [LBool True], push_errno plain_host EEXIST, [LBool True], [LBool True]], ?m)"
    by (simp add: fun_eq_iff)
  have "reg_program plain_host ?xs Map.empty" by (simp add: in_fd_set_def FD_SETSIZE_def)
  from select_registry [OF this, of 0] show ?thesis unfolding spec by (auto split: if_splits)
qed

text \<open>A removed descriptor is reported no more and not passed to \<open>select\<close>, even when it was ready
  in the current batch.\<close>

theorem select_del_clean:
  assumes "in_fd_set fd"
  shows "\<exists>s'. Ldel_select H [LUserdata SELECT_MT 0, LNumber (of_int fd)] s = Ret ([LBool True], s') \<and>
    fd \<notin> ready_fd ` set (select_pending s') \<and>
    fd \<notin> wantread s' \<union> wantwrite s' \<union> all_fds s' \<and>
    filter (\<lambda>e. ready_fd e \<noteq> fd) (select_pending s) = select_pending s'"
proof -
  define s' where "s' = s\<lparr>wantread := wantread s - {fd}, wantwrite := wantwrite s - {fd},
    readable := readable s - {fd}, writable := writable s - {fd}, all_fds := all_fds s - {fd}, err_fds := err_fds s - {fd}\<rparr>"
  have del: "Ldel_select H [LUserdata SELECT_MT 0, LNumber (of_int fd)] s = Ret ([LBool True], s')"
    using fd_argument [OF assms] assms by (simp add: select_reg_simps s'_def)
  have "is_ready s' f \<longleftrightarrow> is_ready s f \<and> f \<noteq> fd" for f
    unfolding is_ready_def s'_def by auto
  then have ready: "filter (is_ready s') l = filter (\<lambda>f. f \<noteq> fd) (filter (is_ready s) l)" for l
    unfolding filter_filter by (intro filter_cong refl)
  have fds: "map (fd_ready s') (filter (\<lambda>f. f \<noteq> fd) l) = filter (\<lambda>e. ready_fd e \<noteq> fd) (map (fd_ready s) l)" for l
    by (induction l) (auto simp: fd_ready_def s'_def)
  have same: "sel_processed s' = sel_processed s" by (simp add: s'_def)
  have pend: "select_pending s' = filter (\<lambda>e. ready_fd e \<noteq> fd) (select_pending s)"
    unfolding select_pending_def ready fds same by (rule refl)
  from pend have "fd \<notin> ready_fd ` set (select_pending s')" by auto
  moreover have "fd \<notin> wantread s' \<union> wantwrite s' \<union> all_fds s'" by (simp add: s'_def)
  ultimately show ?thesis using del pend by metis
qed

theorem select_del_clean_witness:
  "\<exists>s'. Ldel_select plain_host [LUserdata SELECT_MT 0, LNumber (of_int 7)] (watching 5 {5, 7}) = Ret ([LBool True], s') \<and>
    7 \<notin> all_fds s'"
  using select_del_clean [of 7 plain_host "watching 5 {5, 7}"] by (auto simp: in_fd_set_def FD_SETSIZE_def)

text \<open>The guard of \<open>add\<close> lets descriptor \<open>FD_SETSIZE\<close> itself through to the macros, which reach
  outside the sets; \<open>set\<close> and \<open>del\<close> have no guard at all.\<close>

theorem select_out_of_range:
  "Ladd_select H [LUserdata SELECT_MT 0, LNumber (of_int FD_SETSIZE), r, w] s = Undef OutOfBounds \<and>
   Lset_select H [LUserdata SELECT_MT 0, LNumber (of_int (- 1)), r, w] s = Undef OutOfBounds \<and>
   Ldel_select H [LUserdata SELECT_MT 0, LNumber (of_int (- 1))] s = Undef OutOfBounds"
proof -
  have "cast_int 1024 = 1024" "cast_int (- 1) = - 1" by (simp_all add: cast_int_id)
  then show ?thesis by (simp add: select_reg_simps in_fd_set_def Let_def)
qed

text \<open>\<open>set\<close> and \<open>del\<close> on a descriptor that is not registered report success instead of the error
  \<open>ENOENT\<close>. With a direction, \<open>set\<close> makes \<open>select\<close> watch the descriptor; with the descriptor alone it
  makes \<open>select\<close> watch it for writing, because the values of the error that it has pushed are read as
  the arguments 3 and 4.\<close>

theorem select_unregistered_success:
  assumes "in_fd_set fd" and "fd \<notin> all_fds s"
  shows "(\<exists>s'. Lset_select H [LUserdata SELECT_MT 0, LNumber (of_int fd), LBool True, LNil] s = Ret ([LBool True], s') \<and>
      fd \<in> wantread s' \<and> fd \<notin> all_fds s') \<and>
    (\<exists>s'. Lset_select H [LUserdata SELECT_MT 0, LNumber (of_int fd)] s = Ret ([LBool True], s') \<and>
      wantread s' = wantread s \<and> fd \<in> wantwrite s' \<and> fd \<notin> all_fds s') \<and>
    (\<exists>s'. Ldel_select H [LUserdata SELECT_MT 0, LNumber (of_int fd)] s = Ret ([LBool True], s') \<and> fd \<notin> all_fds s')"
  using fd_argument [OF assms(1)] assms
  by (auto simp: select_reg_simps push_errno_def nth_append)

theorem select_unregistered_success_witness:
  "\<exists>s'. Lset_select plain_host [LUserdata SELECT_MT 0, LNumber (of_int 4)] (watching 1024 {}) =
      Ret ([LBool True], s') \<and> 4 \<in> wantwrite s'"
  using select_unregistered_success [of 4 "watching 1024 {}" plain_host]
  by (auto simp: in_fd_set_def FD_SETSIZE_def watching_def)

section \<open>Reachable states\<close>

text \<open>The states of a select poller between calls, with any arguments to the calls.\<close>

inductive select_reachable :: "host \<Rightarrow> 'k select_os \<Rightarrow> select_state \<Rightarrow> 'k \<Rightarrow> bool" for H E where
  s_new: "select_reachable H E (snd (Lnew_select p)) k"
| s_add: "select_reachable H E s k \<Longrightarrow> Ladd_select H L s = Ret (r, s') \<Longrightarrow> select_reachable H E s' k"
| s_set: "select_reachable H E s k \<Longrightarrow> Lset_select H L s = Ret (r, s') \<Longrightarrow> select_reachable H E s' k"
| s_del: "select_reachable H E s k \<Longrightarrow> Ldel_select H L s = Ret (r, s') \<Longrightarrow> select_reachable H E s' k"
| s_wait: "select_reachable H E s k \<Longrightarrow> Lwait_select H E L (s, k) = Ret (r, s', k') \<Longrightarrow> select_reachable H E s' k'"

text \<open>The position is a descriptor, -1 or \<open>FD_SETSIZE\<close>, and the sets hold descriptors below
  \<open>FD_SETSIZE\<close>.\<close>

definition in_range :: "fd_set \<Rightarrow> bool" where
  "in_range S \<longleftrightarrow> (\<forall>fd \<in> S. in_fd_set fd)"

definition select_inv :: "select_state \<Rightarrow> bool" where
  "select_inv s \<longleftrightarrow> - 1 \<le> sel_processed s \<and> sel_processed s \<le> FD_SETSIZE \<and>
    in_range (wantread s) \<and> in_range (wantwrite s) \<and> in_range (readable s) \<and> in_range (writable s) \<and>
    in_range (all_fds s) \<and> in_range (err_fds s)"

lemma in_range_simps [simp]:
  "in_range {}" "in_range (insert fd S) \<longleftrightarrow> in_fd_set fd \<and> in_range S" "in_range S \<Longrightarrow> in_range (S - T)"
  by (auto simp: in_range_def)

lemma in_range_subset: "in_range S \<Longrightarrow> T \<subseteq> S \<Longrightarrow> in_range T"
  by (auto simp: in_range_def)

lemma fd_macro_RetD:
  "FD_SET fd S = Ret S' \<Longrightarrow> in_fd_set fd \<and> S' = insert fd S"
  "FD_CLR fd S = Ret S' \<Longrightarrow> in_fd_set fd \<and> S' = S - {fd}"
  by (auto simp: fd_set_defs split: if_splits)

lemma set_or_clr_RetD: "set_or_clr b fd S = Ret S' \<Longrightarrow> in_fd_set fd \<and> S' = (if b then insert fd S else S - {fd})"
  by (auto simp: set_or_clr_def dest: fd_macro_RetD)

lemma register_inv:
  "Ladd_select H L s = Ret (r, s') \<Longrightarrow> select_inv s \<Longrightarrow> select_inv s'"
  "Lset_select H L s = Ret (r, s') \<Longrightarrow> select_inv s \<Longrightarrow> select_inv s'"
  "Ldel_select H L s = Ret (r, s') \<Longrightarrow> select_inv s \<Longrightarrow> select_inv s'"
  unfolding Ladd_select_def Lset_select_def Ldel_select_def Let_def
  by (auto simp: cbind_eq_Ret select_inv_def split: if_splits dest!: fd_macro_RetD set_or_clr_RetD)

lemma pushevent_select_inv:
  assumes "select_inv s"
  shows "\<exists>r s'. Lpushevent_select s = Ret (r, s') \<and> select_inv s'"
proof (cases "filter (is_ready s) (fds_from (sel_processed s + 1))")
  case Nil
  with assms show ?thesis by (simp add: Lpushevent_select_def scan_fds_first select_inv_def)
next
  case (Cons f fs)
  from filter_fds_from_ConsD [OF Cons] assms have "select_inv (reported f s)"
    by (auto simp: select_inv_def reported_def)
  with Cons assms show ?thesis by (simp add: Lpushevent_select_def scan_fds_first select_inv_def)
qed

lemma Lwait_select_inv:
  assumes "select_inv s" and "select_documented E"
  shows "outcome (\<lambda>(r, s', k'). select_inv s') (\<lambda>u. u = CastOutOfRange) (Lwait_select H E L (s, k))"
proof -
  have push: "outcome (\<lambda>(r, s'). select_inv s') U (Lpushevent_select s)" if "select_inv s" for U s
    using pushevent_select_inv [OF that] by auto
  have fetch: "outcome (\<lambda>(r, s', k'). select_inv s') (\<lambda>u. u = CastOutOfRange) (select_fds H E tv (s, k))"
    if inv: "select_inv s" for s tv
  proof -
    obtain ret errno r w e k' where c: "E (wantread s) (wantwrite s) (all_fds s) tv k = (ret, errno, (r, w, e), k')"
      by (metis prod_cases4 prod_cases3)
    have sub: "r \<subseteq> wantread s" "w \<subseteq> wantwrite s" "e \<subseteq> all_fds s"
      using assms(2) [unfolded select_documented_def, rule_format, OF c] by (auto split: if_splits)
    then have "select_inv (s\<lparr>readable := r, writable := w, err_fds := e\<rparr>)"
      "select_inv (s\<lparr>readable := r, writable := w, err_fds := e, sel_processed := - 1\<rparr>)"
      using inv by (auto simp: select_inv_def FD_SETSIZE_def intro: in_range_subset)
    then show ?thesis
      by (auto simp: select_fds_def c Let_def intro!: outcome_bind outcome_conseq [OF push])
  qed
  show ?thesis
    unfolding Lwait_select_def prod.case
    by (intro outcome_bind outcome_checks(1) outcome_conseq [OF push [OF assms(1)]])
      (auto intro!: outcome_rules fetch)
qed

lemma select_reachable_inv: "select_reachable H E s k \<Longrightarrow> select_documented E \<Longrightarrow> select_inv s"
proof (induction rule: select_reachable.induct)
  case (s_wait s k L r s' k')
  then show ?case using outcomeD(1) [OF Lwait_select_inv [of s E H L k]] by blast
qed (auto simp: Lnew_select_def select_inv_def FD_SETSIZE_def in_fd_set_def dest: register_inv)

text \<open>The bound of \<open>add\<close> lets one descriptor too many through.\<close>

lemma Ladd_select_undef:
  assumes "Ladd_select H L s = Undef u"
  shows "u = CastOutOfRange \<or> (\<exists>n. luaL_checkinteger H L 2 = Ret n \<and> cast_int n = FD_SETSIZE)"
proof (cases "luaL_checkinteger H L 2")
  case (Ret n)
  have "in_fd_set (cast_int n) \<Longrightarrow> False" if "\<not> cast_int n < 0" "\<not> FD_SETSIZE < cast_int n"
    using assms Ret
    by (auto simp: Ladd_select_def Let_def cbind_eq_Undef fd_set_defs set_or_clr_def lua_api that
        split: if_splits option.splits lua_value.splits)
  then show ?thesis
    using assms Ret by (fastforce simp: Ladd_select_def Let_def in_fd_set_def cbind_eq_Undef lua_api
        split: if_splits option.splits lua_value.splits)
next
  case (Undef v)
  then have "v = CastOutOfRange"
    by (auto simp: lua_api cbind_eq_Undef Let_def split: option.splits if_splits)
  with assms Undef show ?thesis
    by (auto simp: Ladd_select_def cbind_eq_Undef lua_api split: option.splits lua_value.splits if_splits)
qed (use assms in \<open>auto simp: Ladd_select_def cbind_eq_Undef lua_api split: option.splits lua_value.splits if_splits\<close>)

text \<open>C16: in every state that calls with any arguments can reach, the sets of the select backend hold
  only descriptors below \<open>FD_SETSIZE\<close>, and a wait stays inside them; the only undefined behaviour of
  a wait is a timeout out of range, and of \<open>add\<close> also the descriptor \<open>FD_SETSIZE\<close>.\<close>

theorem select_memory_safe:
  assumes "select_reachable H E s k" and "select_documented E"
  shows "(\<forall>fd \<in> wantread s \<union> wantwrite s \<union> readable s \<union> writable s \<union> all_fds s \<union> err_fds s. 0 \<le> fd \<and> fd < 1024) \<and>
    (\<forall>L u. Lwait_select H E L (s, k) = Undef u \<longrightarrow> u = CastOutOfRange) \<and>
    (\<forall>L u. Ladd_select H L s = Undef u \<longrightarrow>
       u = CastOutOfRange \<or> (\<exists>n. luaL_checkinteger H L 2 = Ret n \<and> cast_int n = 1024))"
proof -
  have inv: "select_inv s" by (rule select_reachable_inv) (fact assms)+
  have "u = CastOutOfRange" if "Lwait_select H E L (s, k) = Undef u" for L u
    using outcomeD(2) [OF Lwait_select_inv [OF inv assms(2)] that] by simp
  moreover have "\<forall>fd \<in> wantread s \<union> wantwrite s \<union> readable s \<union> writable s \<union> all_fds s \<union> err_fds s. 0 \<le> fd \<and> fd < 1024"
    using inv by (auto simp: select_inv_def in_range_def in_fd_set_def FD_SETSIZE_def)
  ultimately show ?thesis using Ladd_select_undef [of H _ s] by (auto simp: FD_SETSIZE_def)
qed

theorem select_memory_safe_witness:
  "Lwait_select plain_host script_select [LUserdata SELECT_MT 0, LNumber 1] (snd (Lnew_select 0), []) \<noteq> Undef OutOfBounds"
proof -
  have "select_reachable plain_host script_select (snd (Lnew_select 0)) []" by (rule s_new)
  from select_memory_safe [OF this script_select_documented] show ?thesis by blast
qed

end
