(* ===== verification/Signal.thy ===== *)
theory Signal
  imports LuaApi
begin

text \<open>
  \<open>util-src/signal.c\<close>: Unix signals delivered to Lua functions. The C handler \<open>handle\<close> only queues
  the signal and installs a debug hook; the hook \<open>sighook\<close> runs at the next instruction of the
  interpreter and calls the Lua handlers. \<open>handle\<close> runs statement by statement on top of whatever it
  interrupts: the program, the hook, or the handler of another signal (\<open>signal\<close> blocks a signal only
  while its own handler runs). The state machine \<open>sig_step\<close> has one step per statement of \<open>handle\<close> and
  one per point of \<open>sighook\<close> where a signal can come in between. The Lua handlers are not part of the
  module: a call of one may end normally or raise an error, and may install and remove handlers. The
  program may set a debug hook of its own. The model has one Lua thread, the one \<open>Lsig\<close> points to.
\<close>

section \<open>Signal names\<close>

text \<open>\<open>lua_signals\<close> with the numbers of Linux.\<close>

definition lua_signals :: "(string \<times> int) list" where
  "lua_signals =
    [(''SIGABRT'', 6), (''SIGFPE'', 8), (''SIGILL'', 4), (''SIGINT'', 2), (''SIGSEGV'', 11),
     (''SIGTERM'', 15), (''SIGHUP'', 1), (''SIGQUIT'', 3), (''SIGTRAP'', 5), (''SIGKILL'', 9),
     (''SIGUSR1'', 10), (''SIGUSR2'', 12), (''SIGPIPE'', 13), (''SIGALRM'', 14), (''SIGCHLD'', 17),
     (''SIGCONT'', 18), (''SIGSTOP'', 19), (''SIGTTIN'', 21), (''SIGTTOU'', 22), (''SIGIOT'', 6),
     (''SIGBUS'', 7), (''SIGCLD'', 17), (''SIGURG'', 23), (''SIGXCPU'', 24), (''SIGXFSZ'', 25),
     (''SIGVTALRM'', 26), (''SIGPROF'', 27), (''SIGWINCH'', 28), (''SIGPOLL'', 29), (''SIGIO'', 29),
     (''SIGSTKFLT'', 16), (''SIGSYS'', 31)]"

section \<open>State\<close>

definition MAX_PENDING_SIGNALS :: nat where "MAX_PENDING_SIGNALS = 32"

datatype hook_fn = NoHook | Sighook | OtherHook nat

record lua_hook =
  hk_fn :: hook_fn
  hk_mask :: nat
  hk_count :: int

text \<open>\<open>lua_sethook\<close>: no function or an empty mask turns the hook off.\<close>

definition lua_sethook :: "lua_hook \<Rightarrow> lua_hook" where
  "lua_sethook h = (if hk_fn h = NoHook \<or> hk_mask h = 0 then h\<lparr>hk_fn := NoHook, hk_mask := 0\<rparr> else h)"

text \<open>\<open>LUA_MASKCALL | LUA_MASKRET | LUA_MASKCOUNT\<close>, with a count of 1\<close>

definition signal_hook :: lua_hook where
  "signal_hook = \<lparr>hk_fn = Sighook, hk_mask = 11, hk_count = 1\<rparr>"

text \<open>The globals of the file, the hook of the interpreter, the table \<open>lua_signal\<close> of the registry
  and the dispositions: the signals for which \<open>handle\<close> is installed.\<close>

record sig_state =
  Lsig :: bool                 \<comment> \<open>\<open>Lsig != NULL\<close>\<close>
  Hsaved :: lua_hook           \<comment> \<open>\<open>Hsig\<close>, \<open>Hmask\<close>, \<open>Hcount\<close>\<close>
  signals :: "int list"
  nsig :: nat
  lhook :: lua_hook
  sigtable :: "lua_value \<rightharpoonup> lua_value"
  handled :: "int set"

section \<open>The handler and the hook\<close>

text \<open>\<open>handle\<close>, statement by statement; the call of \<open>lua_gethook\<close> dereferences \<open>Lsig\<close>.\<close>

datatype handle_pc =
    AtTest       \<comment> \<open>\<open>if(nsig == 0)\<close>\<close>
  | SaveHook | SaveMask | SaveCount
  | SetHook
  | AtBound      \<comment> \<open>\<open>if(nsig < MAX_PENDING_SIGNALS)\<close>\<close>
  | Store        \<comment> \<open>\<open>signals[nsig++] = sig\<close>\<close>

text \<open>One statement: the next one, \<open>None\<close> at the return, and the new state.\<close>

fun handle_stmt :: "int \<Rightarrow> handle_pc \<Rightarrow> sig_state \<Rightarrow> (handle_pc option \<times> sig_state) cres" where
  "handle_stmt sig AtTest s = Ret (Some (if nsig s = 0 then SaveHook else AtBound), s)"
| "handle_stmt sig SaveHook s =
     (if Lsig s then Ret (Some SaveMask, s\<lparr>Hsaved := (Hsaved s)\<lparr>hk_fn := hk_fn (lhook s)\<rparr>\<rparr>) else Undef NullDeref)"
| "handle_stmt sig SaveMask s = Ret (Some SaveCount, s\<lparr>Hsaved := (Hsaved s)\<lparr>hk_mask := hk_mask (lhook s)\<rparr>\<rparr>)"
| "handle_stmt sig SaveCount s = Ret (Some SetHook, s\<lparr>Hsaved := (Hsaved s)\<lparr>hk_count := hk_count (lhook s)\<rparr>\<rparr>)"
| "handle_stmt sig SetHook s = Ret (Some AtBound, s\<lparr>lhook := lua_sethook signal_hook\<rparr>)"
| "handle_stmt sig AtBound s = Ret (if nsig s < MAX_PENDING_SIGNALS then Some Store else None, s)"
| "handle_stmt sig Store s =
     (if nsig s < length (signals s)
      then Ret (None, s\<lparr>signals := (signals s)[nsig s := sig], nsig := nsig s + 1\<rparr>)
      else Undef OutOfBounds)"

text \<open>The statements up to the return, without interruption; seven are enough from the first one.\<close>

fun handle_stmts :: "nat \<Rightarrow> int \<Rightarrow> handle_pc \<Rightarrow> sig_state \<Rightarrow> sig_state option cres" where
  "handle_stmts 0 sig pc s = Ret None"
| "handle_stmts (Suc n) sig pc s =
     cbind (handle_stmt sig pc s) (\<lambda>(next, s').
       case next of None \<Rightarrow> Ret (Some s') | Some pc' \<Rightarrow> handle_stmts n sig pc' s')"

definition handle :: "int \<Rightarrow> sig_state \<Rightarrow> sig_state option cres" where
  "handle sig s = handle_stmts 7 sig AtTest s"

text \<open>\<open>sighook\<close> in three parts: its start, one round of the loop, and its end.\<close>

definition sighook_start :: "sig_state \<Rightarrow> sig_state" where
  "sighook_start s = s\<lparr>lhook := lua_sethook (Hsaved s)\<rparr>"

text \<open>The function called in round \<open>i\<close>, or \<open>None\<close> when the loop is over.\<close>

definition sighook_round :: "nat \<Rightarrow> sig_state \<Rightarrow> lua_value option option cres" where
  "sighook_round i s =
    (if i < nsig s then
       cbind (mem_at (signals s) i) (\<lambda>sig. Ret (Some (sigtable s (LNumber (of_int sig)))))
     else Ret None)"

definition sighook_end :: "sig_state \<Rightarrow> sig_state" where
  "sighook_end s = s\<lparr>nsig := 0\<rparr>"

section \<open>The Lua functions\<close>

text \<open>A signal given by number or by name.\<close>

definition signal_arg :: "host \<Rightarrow> lua_args \<Rightarrow> nat \<Rightarrow> sig_state \<Rightarrow> int cres" where
  "signal_arg H L i s =
    (case lua_arg L i of
       Some (LNumber q) \<Rightarrow> number_to_int q
     | Some (LString n) \<Rightarrow>
         (case lua_tonumber_opt H (sigtable s (LString n)) of
            None \<Rightarrow> Raise (RuntimeError (bs ''invalid signal string''))
          | Some q \<Rightarrow> number_to_int q)
     | _ \<Rightarrow> Raise (TypeError i))"

text \<open>\<open>signal_ok sig\<close>: does \<open>signal(2)\<close> accept the number?\<close>

definition l_signal :: "host \<Rightarrow> (int \<Rightarrow> bool) \<Rightarrow> lua_args \<Rightarrow> sig_state \<Rightarrow> (lua_value list \<times> sig_state) cres" where
  "l_signal H signal_ok L s =
    cbind (luaL_checkany L 1) (\<lambda>_.
    cbind (signal_arg H L 1 s) (\<lambda>sig.
      let key = LNumber (of_int sig) in
      if length L = 1 \<or> lua_arg L 2 = Some LNil then
        let old = (case sigtable s key of Some v \<Rightarrow> v | None \<Rightarrow> LNil) in
        Ret ([old], s\<lparr>sigtable := (sigtable s)(key := None),
               handled := (if signal_ok sig then handled s - {sig} else handled s)\<rparr>)
      else
        (case lua_arg L 2 of
           Some f \<Rightarrow>
             if \<not> lua_isfunction f then Raise (TypeError 2)
             else
               let s = s\<lparr>sigtable := (sigtable s)(key \<mapsto> f), Lsig := True\<rparr> in
               if signal_ok sig then Ret ([LBool True], s\<lparr>handled := insert sig (handled s)\<rparr>)
               else Ret ([LBool False], s)
         | None \<Rightarrow> Raise (TypeError 2))))"

text \<open>\<open>raise_call\<close> and \<open>kill_call\<close> are \<open>raise(3)\<close> and \<open>kill(2)\<close>.\<close>

definition l_raise :: "host \<Rightarrow> (int \<Rightarrow> int) \<Rightarrow> lua_args \<Rightarrow> sig_state \<Rightarrow> lua_value list cres" where
  "l_raise H raise_call L s =
    cbind (luaL_checkany L 1) (\<lambda>_.
    cbind (signal_arg H L 1 s) (\<lambda>sig. Ret [LNumber (of_int (raise_call sig))]))"

definition l_kill :: "host \<Rightarrow> (int \<Rightarrow> int \<Rightarrow> int) \<Rightarrow> lua_args \<Rightarrow> sig_state \<Rightarrow> lua_value list cres" where
  "l_kill H kill_call L s =
    cbind (luaL_checknumber H L 1) (\<lambda>p.
    cbind (luaL_checkany L 2) (\<lambda>_.
    cbind (signal_arg H L 2 s) (\<lambda>sig.
    cbind (number_to_int p) (\<lambda>pid. Ret [LNumber (of_int (kill_call pid sig))]))))"

text \<open>\<open>luaopen_util_signal\<close> fills the table of the registry with the names; the loop of settings.\<close>

definition luaopen_util_signal :: "lua_hook \<Rightarrow> sig_state" where
  "luaopen_util_signal h =
    \<lparr>Lsig = False, Hsaved = \<lparr>hk_fn = NoHook, hk_mask = 0, hk_count = 0\<rparr>,
     signals = replicate MAX_PENDING_SIGNALS 0, nsig = 0, lhook = h,
     sigtable = fold (\<lambda>(name, sig) t. t(LString (bs name) \<mapsto> LNumber (of_int sig))) lua_signals Map.empty,
     handled = {}\<rparr>"

section \<open>The state machine\<close>

datatype sig_phase =
    Running              \<comment> \<open>ordinary Lua or C code\<close>
  | Dispatching nat      \<comment> \<open>in \<open>sighook\<close>, at the test of the loop with index \<open>i\<close>\<close>
  | Calling nat          \<comment> \<open>in \<open>sighook\<close>, inside the Lua handler of index \<open>i\<close>\<close>
  | Clearing nat         \<comment> \<open>in \<open>sighook\<close>, after the loop ended at \<open>i\<close> and before \<open>nsig = 0\<close>\<close>

datatype sig_label =
    Arrive int           \<comment> \<open>a signal interrupts the program or the hook\<close>
  | Interrupt int        \<comment> \<open>a signal interrupts the handler of another one\<close>
  | Stored int           \<comment> \<open>a signal is stored in the array\<close>
  | Call int             \<comment> \<open>the Lua handler of a signal is called\<close>
  | CallError            \<comment> \<open>a Lua handler raised an error, or was missing\<close>
  | Leave                \<comment> \<open>the loop of \<open>sighook\<close> ends\<close>
  | Cleared "int list"   \<comment> \<open>\<open>nsig = 0\<close>, and the signals that it throws away\<close>
  | ProgHook lua_hook    \<comment> \<open>the program sets a debug hook\<close>
  | Quiet                \<comment> \<open>anything else\<close>

text \<open>The handlers that are active, the innermost first, over the phase and the state of the program.\<close>

type_synonym sig_config = "(int \<times> handle_pc) list \<times> sig_phase \<times> sig_state"

fun pending :: "sig_phase \<times> sig_state \<Rightarrow> int list" where
  "pending (Running, s) = take (nsig s) (signals s)"
| "pending (Dispatching i, s) = drop i (take (nsig s) (signals s))"
| "pending (Calling i, s) = drop (Suc i) (take (nsig s) (signals s))"
| "pending (Clearing i, s) = drop i (take (nsig s) (signals s))"

text \<open>A hook does not run inside a hook, so \<open>hook\<close> needs the phase \<open>Running\<close>. Lua code runs in the
  phases \<open>Running\<close> and \<open>Calling\<close>; there the program may call \<open>l_signal\<close> and set hooks. It waits while a
  handler is active.\<close>

inductive sig_step :: "sig_config \<Rightarrow> sig_label \<Rightarrow> sig_config \<Rightarrow> bool" where
  arrive: "sig \<in> handled s \<Longrightarrow> sig_step ([], p, s) (Arrive sig) ([(sig, AtTest)], p, s)"
| interrupt: "sig \<in> handled s \<Longrightarrow> fs \<noteq> [] \<Longrightarrow> sig \<notin> fst ` set fs \<Longrightarrow>
     sig_step (fs, p, s) (Interrupt sig) ((sig, AtTest) # fs, p, s)"
| stmt: "handle_stmt sig pc s = Ret (Some pc', s') \<Longrightarrow> sig_step ((sig, pc) # fs, p, s) Quiet ((sig, pc') # fs, p, s')"
| dropped: "handle_stmt sig pc s = Ret (None, s') \<Longrightarrow> pc \<noteq> Store \<Longrightarrow> sig_step ((sig, pc) # fs, p, s) Quiet (fs, p, s')"
| store: "handle_stmt sig Store s = Ret (None, s') \<Longrightarrow> sig_step ((sig, Store) # fs, p, s) (Stored sig) (fs, p, s')"
| hook: "hk_fn (lhook s) = Sighook \<Longrightarrow> sig_step ([], Running, s) Quiet ([], Dispatching 0, sighook_start s)"
| call: "sighook_round i s = Ret (Some (Some f)) \<Longrightarrow> lua_isfunction f \<Longrightarrow>
     sig_step ([], Dispatching i, s) (Call (signals s ! i)) ([], Calling i, s)"
| missing: "sighook_round i s = Ret (Some v) \<Longrightarrow> (\<And>f. v = Some f \<Longrightarrow> \<not> lua_isfunction f) \<Longrightarrow>
     sig_step ([], Dispatching i, s) CallError ([], Running, s)"
| return: "sig_step ([], Calling i, s) Quiet ([], Dispatching (Suc i), s)"
| error: "sig_step ([], Calling i, s) CallError ([], Running, s)"
| leave: "sighook_round i s = Ret None \<Longrightarrow> sig_step ([], Dispatching i, s) Leave ([], Clearing i, s)"
| clear: "sig_step ([], Clearing i, s) (Cleared (pending (Clearing i, s))) ([], Running, sighook_end s)"
| set_handler: "p = Running \<or> p = Calling i \<Longrightarrow> l_signal H signal_ok L s = Ret (r, s') \<Longrightarrow>
     sig_step ([], p, s) Quiet ([], p, s')"
| prog_hook: "p = Running \<or> p = Calling i \<Longrightarrow> hk_fn g \<noteq> Sighook \<Longrightarrow>
     sig_step ([], p, s) (ProgHook g) ([], p, s\<lparr>lhook := lua_sethook g\<rparr>)"

inductive sig_run :: "sig_config \<Rightarrow> sig_label list \<Rightarrow> sig_config \<Rightarrow> bool" where
  run_nil: "sig_run c [] c"
| run_snoc: "sig_run c ls c' \<Longrightarrow> sig_step c' l c'' \<Longrightarrow> sig_run c (ls @ [l]) c''"

inductive_cases sig_stepE: "sig_step c l c'"

definition sig_init :: "lua_hook \<Rightarrow> sig_config" where
  "sig_init h = ([], Running, luaopen_util_signal h)"

lemma run_step: "sig_run c ls c' \<Longrightarrow> sig_step c' l c'' \<Longrightarrow> ls' = ls @ [l] \<Longrightarrow> sig_run c ls' c''"
  using run_snoc by simp

lemma run_one: "sig_step c l c' \<Longrightarrow> sig_run c [l] c'"
  by (rule run_step [OF run_nil]) simp_all

lemma run_append: "sig_run b ys c \<Longrightarrow> sig_run a xs b \<Longrightarrow> sig_run a (xs @ ys) c"
proof (induction rule: sig_run.induct)
  case (run_snoc c ls c' l c'')
  from sig_run.run_snoc [OF run_snoc.IH [OF run_snoc.prems] run_snoc.hyps(2)] show ?case by simp
qed simp

lemma run_invariant:
  assumes "sig_run c ls c'" and "\<And>c l c'. sig_step c l c' \<Longrightarrow> ok l \<Longrightarrow> I c \<Longrightarrow> I c'"
  shows "I c \<Longrightarrow> \<forall>l \<in> set ls. ok l \<Longrightarrow> I c'"
  using assms(1) by (induction rule: sig_run.induct) (auto intro: assms(2))

section \<open>Invariants\<close>

fun phase_ok :: "sig_phase \<Rightarrow> nat \<Rightarrow> bool" where
  "phase_ok Running n = True"
| "phase_ok (Dispatching i) n = (i \<le> n)"
| "phase_ok (Calling i) n = (i < n)"
| "phase_ok (Clearing i) n = (i \<le> n)"

text \<open>What holds in every reachable configuration, whatever interrupts what.\<close>

definition sig_inv :: "sig_config \<Rightarrow> bool" where
  "sig_inv = (\<lambda>(fs, p, s).
     length (signals s) = MAX_PENDING_SIGNALS \<and> nsig s \<le> MAX_PENDING_SIGNALS \<and>
     fst ` set fs \<subseteq> handled s \<and> (handled s \<noteq> {} \<longrightarrow> Lsig s) \<and> phase_ok p (nsig s))"

lemma sethook_not_Sighook: "hk_fn h \<noteq> Sighook \<Longrightarrow> hk_fn (lua_sethook h) \<noteq> Sighook"
  by (simp add: lua_sethook_def)

lemma sethook_signal_hook [simp]: "lua_sethook signal_hook = signal_hook"
  by (simp add: lua_sethook_def signal_hook_def)

lemma hk_fn_signal_hook [simp]: "hk_fn signal_hook = Sighook"
  by (simp add: signal_hook_def)

lemma sethook_idem [simp]: "lua_sethook (lua_sethook h) = lua_sethook h"
  by (simp add: lua_sethook_def)

lemma handle_stmt_fields:
  assumes "handle_stmt sig pc s = Ret (x, s')"
  shows "sigtable s' = sigtable s" "handled s' = handled s" "Lsig s' = Lsig s"
    "length (signals s') = length (signals s)"
    "pc \<noteq> Store \<Longrightarrow> signals s' = signals s \<and> nsig s' = nsig s"
    "pc = Store \<Longrightarrow> x = None \<and> nsig s < length (signals s) \<and>
       s' = s\<lparr>signals := (signals s)[nsig s := sig], nsig := nsig s + 1\<rparr>"
  using assms by (cases pc; auto split: if_splits)+

lemma l_signal_fields:
  assumes "l_signal H ok L s = Ret (r, s')"
  shows "signals s' = signals s" "nsig s' = nsig s" "lhook s' = lhook s" "Hsaved s' = Hsaved s"
    "handled s \<noteq> {} \<longrightarrow> Lsig s \<Longrightarrow> handled s' \<noteq> {} \<longrightarrow> Lsig s'"
  using assms by (auto simp: l_signal_def cbind_eq_Ret Let_def split: if_splits option.splits lua_value.splits)

lemma phase_ok_mono: "phase_ok p n \<Longrightarrow> n \<le> m \<Longrightarrow> phase_ok p m"
  by (cases p) auto

lemma sighook_round_Some: "sighook_round i s = Ret (Some v) \<Longrightarrow> i < nsig s"
  by (auto simp: sighook_round_def split: if_splits)

lemma sighook_round_None: "sighook_round i s = Ret None \<Longrightarrow> nsig s \<le> i"
  by (auto simp: sighook_round_def mem_at_def split: if_splits)

lemma sig_inv_step: "sig_step c l c' \<Longrightarrow> sig_inv c \<Longrightarrow> sig_inv c'"
proof (induction rule: sig_step.induct)
  case (stmt sig pc s pc' s' fs p)
  then have "pc \<noteq> Store" by (auto split: if_splits)
  with stmt handle_stmt_fields [OF stmt.hyps] show ?case by (auto simp: sig_inv_def)
next
  case (dropped sig pc s s' fs p)
  with handle_stmt_fields [OF dropped.hyps(1)] show ?case by (auto simp: sig_inv_def)
next
  case (store sig s s' fs p)
  with handle_stmt_fields [OF store.hyps] phase_ok_mono [of p "nsig s" "nsig s + 1"] show ?case
    by (auto simp: sig_inv_def simp del: handle_stmt.simps)
next
  case (set_handler p i H signal_ok L s r s')
  then show ?case using l_signal_fields [OF set_handler.hyps(2)] by (auto simp: sig_inv_def)
qed (auto simp: sig_inv_def sighook_start_def sighook_end_def dest: sighook_round_Some sighook_round_None)

lemma sig_inv_init: "sig_inv (sig_init h)"
  by (simp add: sig_inv_def sig_init_def luaopen_util_signal_def)

lemma sig_inv_run: "sig_run c ls c' \<Longrightarrow> sig_inv c \<Longrightarrow> sig_inv c'"
  using run_invariant [of c ls c' "\<lambda>_. True" sig_inv] sig_inv_step by blast

lemma sig_inv_reachable: "sig_run (sig_init h) ls c \<Longrightarrow> sig_inv c"
  using sig_inv_run sig_inv_init by blast

section \<open>The account of the signals\<close>

fun called :: "sig_label list \<Rightarrow> int list" where
  "called [] = []"
| "called (Call sig # ls) = sig # called ls"
| "called (l # ls) = called ls"

fun stored :: "sig_label list \<Rightarrow> int list" where
  "stored [] = []"
| "stored (Stored sig # ls) = sig # stored ls"
| "stored (l # ls) = stored ls"

fun lost :: "sig_label list \<Rightarrow> int list" where
  "lost [] = []"
| "lost (Cleared sigs # ls) = sigs @ lost ls"
| "lost (l # ls) = lost ls"

text \<open>The signals that left the queue, in order: called or thrown away.\<close>

fun settled :: "sig_label list \<Rightarrow> int list" where
  "settled [] = []"
| "settled (Call sig # ls) = sig # settled ls"
| "settled (Cleared sigs # ls) = sigs @ settled ls"
| "settled (l # ls) = settled ls"

text \<open>The signals stored between the end of a loop of \<open>sighook\<close> and its \<open>nsig = 0\<close>.\<close>

fun in_window :: "bool \<Rightarrow> sig_label list \<Rightarrow> bool" where
  "in_window w [] = w"
| "in_window w (Leave # ls) = in_window True ls"
| "in_window w (Cleared sigs # ls) = in_window False ls"
| "in_window w (l # ls) = in_window w ls"

fun window_stored :: "bool \<Rightarrow> sig_label list \<Rightarrow> int list" where
  "window_stored w [] = []"
| "window_stored w (Leave # ls) = window_stored True ls"
| "window_stored w (Cleared sigs # ls) = window_stored False ls"
| "window_stored w (Stored sig # ls) = (if w then [sig] else []) @ window_stored w ls"
| "window_stored w (l # ls) = window_stored w ls"

lemma called_append: "called (xs @ ys) = called xs @ called ys"
  by (induction xs rule: called.induct) auto

lemma stored_append: "stored (xs @ ys) = stored xs @ stored ys"
  by (induction xs rule: stored.induct) auto

lemma lost_append: "lost (xs @ ys) = lost xs @ lost ys"
  by (induction xs rule: lost.induct) auto

lemma settled_append: "settled (xs @ ys) = settled xs @ settled ys"
  by (induction xs rule: settled.induct) auto

lemma in_window_append: "in_window w (xs @ ys) = in_window (in_window w xs) ys"
  by (induction w xs rule: in_window.induct) auto

lemma window_stored_append: "window_stored w (xs @ ys) = window_stored w xs @ window_stored (in_window w xs) ys"
  by (induction w xs rule: window_stored.induct) auto

lemmas label_append = called_append stored_append lost_append settled_append in_window_append window_stored_append

lemma settled_called: "lost ls = [] \<Longrightarrow> settled ls = called ls"
  by (induction ls rule: settled.induct) auto

lemma take_snoc: "n < length xs \<Longrightarrow> take (n + 1) (xs[n := x]) = take n xs @ [x]"
  by (simp add: take_Suc_conv_app_nth)

lemma pending_store:
  assumes "phase_ok p (nsig s)" and "nsig s < length (signals s)"
  shows "pending (p, s\<lparr>signals := (signals s)[nsig s := sig], nsig := nsig s + 1\<rparr>) = pending (p, s) @ [sig]"
  using assms by (cases p) (simp_all add: take_snoc [simplified])

lemma pending_same: "signals s' = signals s \<Longrightarrow> nsig s' = nsig s \<Longrightarrow> pending (p, s') = pending (p, s)"
  by (cases p) auto

lemma round_drop:
  assumes "sighook_round i s = Ret (Some v)" and "sig_inv (fs, p, s)"
  shows "drop i (take (nsig s) (signals s)) = signals s ! i # drop (Suc i) (take (nsig s) (signals s))"
  using sighook_round_Some [OF assms(1)] assms(2) by (simp add: sig_inv_def Cons_nth_drop_Suc [symmetric])

lemma account_step:
  "sig_step c l c' \<Longrightarrow> sig_inv c \<Longrightarrow> l \<noteq> CallError \<Longrightarrow> settled [l] @ pending (snd c') = pending (snd c) @ stored [l]"
proof (induction rule: sig_step.induct)
  case (stmt sig pc s pc' s' fs p)
  then have "pc \<noteq> Store" by (auto split: if_splits)
  with handle_stmt_fields [OF stmt.hyps] pending_same [of s' s p] show ?case by simp
next
  case (dropped sig pc s s' fs p)
  with handle_stmt_fields [OF dropped.hyps(1)] pending_same [of s' s p] show ?case by simp
next
  case (store sig s s' fs p)
  then have "phase_ok p (nsig s)" by (simp add: sig_inv_def)
  with handle_stmt_fields(6) [OF store.hyps] pending_store show ?case by simp
next
  case (call i s f)
  with round_drop [OF call.hyps(1) call.prems(1)] show ?case by simp
next
  case (set_handler p i H signal_ok L s r s')
  with l_signal_fields [OF set_handler.hyps(2)] pending_same [of s' s p] show ?case by simp
next
  case (leave i s)
  with sighook_round_None [OF leave.hyps] show ?case by simp
next
  case (prog_hook p i g s)
  with pending_same [of "s\<lparr>lhook := lua_sethook g\<rparr>" s p] show ?case by simp
qed (auto simp: sighook_start_def sighook_end_def)

lemma account_run:
  "sig_run c ls c' \<Longrightarrow> sig_inv c \<Longrightarrow> CallError \<notin> set ls \<Longrightarrow>
    settled ls @ pending (snd c') = pending (snd c) @ stored ls"
proof (induction rule: sig_run.induct)
  case (run_snoc c ls c' l c'')
  then have "settled [l] @ pending (snd c'') = pending (snd c') @ stored [l]"
    using account_step [OF run_snoc.hyps(2) sig_inv_run [OF run_snoc.hyps(1)]] by auto
  with run_snoc show ?case by (simp only: label_append append_assoc) (simp flip: append_assoc)
qed simp

fun clearing :: "sig_phase \<Rightarrow> bool" where
  "clearing (Clearing i) = True"
| "clearing p = False"

lemma window_step:
  "sig_step c l c' \<Longrightarrow> sig_inv c \<Longrightarrow>
    in_window (clearing (fst (snd c))) [l] = clearing (fst (snd c')) \<and>
    lost [l] @ (if clearing (fst (snd c')) then pending (snd c') else []) =
      (if clearing (fst (snd c)) then pending (snd c) else []) @ window_stored (clearing (fst (snd c))) [l]"
proof (induction rule: sig_step.induct)
  case (stmt sig pc s pc' s' fs p)
  then have "pc \<noteq> Store" by (auto split: if_splits)
  with handle_stmt_fields [OF stmt.hyps] pending_same [of s' s p] show ?case by simp
next
  case (dropped sig pc s s' fs p)
  with handle_stmt_fields [OF dropped.hyps(1)] pending_same [of s' s p] show ?case by simp
next
  case (store sig s s' fs p)
  then have "phase_ok p (nsig s)" by (simp add: sig_inv_def)
  with handle_stmt_fields(6) [OF store.hyps] pending_store show ?case by simp
next
  case (leave i s)
  with sighook_round_None [OF leave.hyps] show ?case by simp
next
  case (set_handler p i H signal_ok L s r s')
  then have "\<not> clearing p" by auto
  then show ?case by simp
next
  case (prog_hook p i g s)
  then have "\<not> clearing p" by auto
  then show ?case by simp
qed auto

lemma window_run:
  "sig_run c ls c' \<Longrightarrow> sig_inv c \<Longrightarrow> \<not> clearing (fst (snd c)) \<Longrightarrow>
    in_window False ls = clearing (fst (snd c')) \<and>
    lost ls @ (if clearing (fst (snd c')) then pending (snd c') else []) = window_stored False ls"
proof (induction rule: sig_run.induct)
  case (run_snoc c ls c' l c'')
  have step: "in_window (clearing (fst (snd c'))) [l] = clearing (fst (snd c''))"
    "lost [l] @ (if clearing (fst (snd c'')) then pending (snd c'') else []) =
      (if clearing (fst (snd c')) then pending (snd c') else []) @ window_stored (clearing (fst (snd c'))) [l]"
    using window_step [OF run_snoc.hyps(2) sig_inv_run [OF run_snoc.hyps(1) run_snoc.prems(1)]] by blast+
  from run_snoc.IH [OF run_snoc.prems] have
    IH: "in_window False ls = clearing (fst (snd c'))"
      "window_stored False ls = lost ls @ (if clearing (fst (snd c')) then pending (snd c') else [])" by simp_all
  show ?case using step by (simp add: label_append IH del: in_window.simps lost.simps window_stored.simps)
qed simp

text \<open>The hook is armed while signals are queued.\<close>

definition armed_inv :: "sig_config \<Rightarrow> bool" where
  "armed_inv = (\<lambda>(fs, p, s). p = Running \<and> (0 < nsig s \<or> (\<exists>f \<in> set fs. snd f = AtBound \<or> snd f = Store)) \<longrightarrow>
     hk_fn (lhook s) = Sighook)"

definition no_error :: "sig_label \<Rightarrow> bool" where
  "no_error l \<longleftrightarrow> l \<noteq> CallError \<and> (\<forall>g. l \<noteq> ProgHook g)"

lemma armed_step: "sig_step c l c' \<Longrightarrow> no_error l \<Longrightarrow> armed_inv c \<Longrightarrow> armed_inv c'"
proof (induction rule: sig_step.induct)
  case (stmt sig pc s pc' s' fs p)
  then show ?case by (cases pc) (auto simp: armed_inv_def split: if_splits)
next
  case (dropped sig pc s s' fs p)
  then show ?case by (cases pc) (auto simp: armed_inv_def split: if_splits)
next
  case (store sig s s' fs p)
  then show ?case by (auto simp: armed_inv_def split: if_splits)
next
  case (set_handler p i H signal_ok L s r s')
  then show ?case using l_signal_fields [OF set_handler.hyps(2)] by (auto simp: armed_inv_def)
qed (auto simp: armed_inv_def no_error_def sighook_end_def)

lemma armed_init: "armed_inv (sig_init h)"
  by (simp add: armed_inv_def sig_init_def luaopen_util_signal_def)

lemma armed_run: "sig_run (sig_init h) ls c \<Longrightarrow> \<forall>l \<in> set ls. no_error l \<Longrightarrow> armed_inv c"
  using run_invariant [of "sig_init h" ls c no_error armed_inv] armed_step armed_init by blast

text \<open>C6: every signal that is stored is accounted for: as long as no Lua handler fails, the signals
  called and the ones thrown away, with the pending ones, are the stored ones in the order in which
  they were stored, however handlers interrupt each other. The ones thrown away are exactly those
  stored between the end of the loop of \<open>sighook\<close> and its \<open>nsig = 0\<close>; without one in that window the
  Lua handlers called, with the pending signals, are the stored signals. While signals are pending in
  the running program, and the program set no hook of its own meanwhile, the signal hook is installed.\<close>

theorem signal_delivery:
  assumes "sig_run (sig_init h) ls (fs, p, s)" and "CallError \<notin> set ls"
  shows "settled ls @ pending (p, s) = stored ls \<and>
    lost ls @ (if clearing p then pending (p, s) else []) = window_stored False ls \<and>
    (window_stored False ls = [] \<longrightarrow> called ls @ pending (p, s) = stored ls) \<and>
    (p = Running \<and> pending (p, s) \<noteq> [] \<and> (\<forall>g. ProgHook g \<notin> set ls) \<longrightarrow> hk_fn (lhook s) = Sighook)"
proof -
  have init: "pending (snd (sig_init h)) = []" "\<not> clearing (fst (snd (sig_init h)))"
    by (simp_all add: sig_init_def luaopen_util_signal_def)
  have 1: "settled ls @ pending (p, s) = stored ls"
    using account_run [OF assms(1) sig_inv_init assms(2)] init by simp
  have 2: "lost ls @ (if clearing p then pending (p, s) else []) = window_stored False ls"
    using window_run [OF assms(1) sig_inv_init init(2)] unfolding fst_conv snd_conv by blast
  have 3: "window_stored False ls = [] \<longrightarrow> called ls @ pending (p, s) = stored ls"
    using 1 2 settled_called [of ls] by auto
  have "\<forall>l \<in> set ls. no_error l" if "\<forall>g. ProgHook g \<notin> set ls"
    using assms(2) that by (auto simp: no_error_def)
  with armed_run [OF assms(1)] have 4: "p = Running \<and> pending (p, s) \<noteq> [] \<and> (\<forall>g. ProgHook g \<notin> set ls) \<longrightarrow>
      hk_fn (lhook s) = Sighook"
    by (auto simp: armed_inv_def)
  from 1 2 3 4 show ?thesis by blast
qed

text \<open>The hook calls the handlers of all pending signals, one after the other.\<close>

lemma dispatch_run:
  assumes "i \<le> nsig s" and "nsig s \<le> length (signals s)"
    and "\<And>sig. sig \<in> set (take (nsig s) (signals s)) \<Longrightarrow> \<exists>f. sigtable s (LNumber (of_int sig)) = Some (LFunction f)"
  shows "\<exists>ls. sig_run ([], Dispatching i, s) ls ([], Dispatching (nsig s), s) \<and>
    called ls = drop i (take (nsig s) (signals s)) \<and> CallError \<notin> set ls"
  using assms(1)
proof (induction "nsig s - i" arbitrary: i)
  case 0
  then show ?case using run_nil by (intro exI [of _ "[]"]) auto
next
  case (Suc n)
  then have i: "i < nsig s" by simp
  then have "signals s ! i \<in> set (take (nsig s) (signals s))"
    using assms(2) by (auto simp: in_set_conv_nth)
  from assms(3) [OF this] obtain f where "sigtable s (LNumber (of_int (signals s ! i))) = Some (LFunction f)" ..
  then have "sighook_round i s = Ret (Some (Some (LFunction f)))"
    using i assms(2) by (simp add: sighook_round_def mem_at_def)
  from call [OF this] have "sig_run ([], Dispatching i, s) [Call (signals s ! i)] ([], Calling i, s)"
    by (intro run_one) simp
  from run_snoc [OF this return] have first: "sig_run ([], Dispatching i, s) [Call (signals s ! i), Quiet] ([], Dispatching (Suc i), s)"
    by simp
  have "n = nsig s - Suc i" "Suc i \<le> nsig s" using Suc.hyps(2) i by simp_all
  from Suc.hyps(1) [OF this] obtain ls where ls:
    "sig_run ([], Dispatching (Suc i), s) ls ([], Dispatching (nsig s), s)"
    "called ls = drop (Suc i) (take (nsig s) (signals s))" "CallError \<notin> set ls" by blast
  have "drop i (take (nsig s) (signals s)) = signals s ! i # drop (Suc i) (take (nsig s) (signals s))"
    using i assms(2) by (simp add: Cons_nth_drop_Suc [symmetric])
  with run_append [OF ls(1) first] ls show ?case
    by (intro exI [of _ "[Call (signals s ! i), Quiet] @ ls"]) simp
qed

text \<open>C11: what is pending gets delivered: in a running program that set no hook of its own and in which
  no handler failed, the interpreter can always go on to call the handlers of all pending signals, in
  order, and return to the program with an empty queue and the saved hook in place.\<close>

theorem signal_delivered:
  assumes "sig_run (sig_init h) ls ([], Running, s)" and "CallError \<notin> set ls" and "\<And>g. ProgHook g \<notin> set ls"
    and "\<And>sig. sig \<in> set (take (nsig s) (signals s)) \<Longrightarrow> \<exists>f. sigtable s (LNumber (of_int sig)) = Some (LFunction f)"
    and "nsig s \<noteq> 0"
  shows "\<exists>ls' s'. sig_run ([], Running, s) ls' ([], Running, s') \<and> called ls' = take (nsig s) (signals s) \<and>
    nsig s' = 0 \<and> lhook s' = lua_sethook (Hsaved s) \<and> CallError \<notin> set ls'"
proof -
  define s1 where "s1 = sighook_start s"
  have same: "nsig s1 = nsig s" "signals s1 = signals s" "sigtable s1 = sigtable s" "lhook s1 = lua_sethook (Hsaved s)"
    by (simp_all add: s1_def sighook_start_def)
  have "\<forall>l \<in> set ls. no_error l" using assms(2,3) by (auto simp: no_error_def)
  with armed_run [OF assms(1)] assms(5) have "hk_fn (lhook s) = Sighook" by (auto simp: armed_inv_def)
  from hook [OF this] have start: "sig_run ([], Running, s) [Quiet] ([], Dispatching 0, s1)"
    unfolding s1_def by (rule run_one)
  have "nsig s \<le> length (signals s)" using sig_inv_reachable [OF assms(1)] by (simp add: sig_inv_def)
  with dispatch_run [of 0 s1] assms(4) obtain ls1 where ls1:
    "sig_run ([], Dispatching 0, s1) ls1 ([], Dispatching (nsig s1), s1)" "called ls1 = take (nsig s) (signals s)"
    "CallError \<notin> set ls1" by (auto simp: same)
  have "sighook_round (nsig s1) s1 = Ret None" by (simp add: sighook_round_def)
  from run_snoc [OF run_snoc [OF run_append [OF ls1(1) start] leave [OF this]] clear]
  have "sig_run ([], Running, s) ((([Quiet] @ ls1) @ [Leave]) @ [Cleared (pending (Clearing (nsig s1), s1))])
    ([], Running, sighook_end s1)" .
  then show ?thesis using ls1(2,3) same
    by (intro exI [of _ "(([Quiet] @ ls1) @ [Leave]) @ [Cleared (pending (Clearing (nsig s1), s1))]"] exI [of _ "sighook_end s1"])
      (simp add: called_append sighook_end_def)
qed

section \<open>Failing handlers, and hooks of the program\<close>

definition jammed :: "sig_config \<Rightarrow> bool" where
  "jammed = (\<lambda>(fs, p, s). p = Running \<and> 0 < nsig s \<and> hk_fn (lhook s) \<noteq> Sighook \<and>
     (\<forall>f \<in> set fs. snd f = AtTest \<or> snd f = AtBound \<or> snd f = Store))"

lemma jammed_step: "sig_step c l c' \<Longrightarrow> jammed c \<Longrightarrow> jammed c' \<and> called [l] = []"
proof (induction rule: sig_step.induct)
  case (stmt sig pc s pc' s' fs p)
  then show ?case by (cases pc) (auto simp: jammed_def split: if_splits)
next
  case (dropped sig pc s s' fs p)
  then show ?case by (cases pc) (auto simp: jammed_def split: if_splits)
next
  case (store sig s s' fs p)
  then show ?case by (auto simp: jammed_def split: if_splits)
next
  case (set_handler p i H signal_ok L s r s')
  then show ?case using l_signal_fields [OF set_handler.hyps(2)] by (auto simp: jammed_def)
qed (auto simp: jammed_def sethook_not_Sighook)

lemma jammed_run: "sig_run c ls c' \<Longrightarrow> jammed c \<Longrightarrow> jammed c' \<and> called ls = []"
  by (induction rule: sig_run.induct) (use jammed_step called_append in \<open>force+\<close>)

text \<open>What holds as long as no handler interrupted another one: at most one handler is active, and it
  installs the signal hook only on an empty queue.\<close>

fun frame_ok :: "handle_pc \<Rightarrow> sig_state \<Rightarrow> bool" where
  "frame_ok AtTest s = (hk_fn (lhook s) = Sighook \<longrightarrow> 0 < nsig s)"
| "frame_ok SaveHook s = (nsig s = 0 \<and> hk_fn (lhook s) \<noteq> Sighook)"
| "frame_ok SaveMask s = (nsig s = 0 \<and> hk_fn (lhook s) \<noteq> Sighook \<and> hk_fn (Hsaved s) = hk_fn (lhook s))"
| "frame_ok SaveCount s = (nsig s = 0 \<and> hk_fn (lhook s) \<noteq> Sighook \<and> hk_fn (Hsaved s) = hk_fn (lhook s) \<and>
     hk_mask (Hsaved s) = hk_mask (lhook s))"
| "frame_ok SetHook s = (nsig s = 0 \<and> hk_fn (lhook s) \<noteq> Sighook \<and> Hsaved s = lhook s)"
| "frame_ok AtBound s = True"
| "frame_ok Store s = (nsig s < MAX_PENDING_SIGNALS)"

definition seq_inv :: "sig_config \<Rightarrow> bool" where
  "seq_inv = (\<lambda>(fs, p, s).
     hk_fn (Hsaved s) \<noteq> Sighook \<and> (hk_fn (lhook s) = Sighook \<longrightarrow> p = Running) \<and> (p \<noteq> Running \<longrightarrow> 0 < nsig s) \<and>
     (case fs of [] \<Rightarrow> hk_fn (lhook s) = Sighook \<longrightarrow> 0 < nsig s | [(sig, pc)] \<Rightarrow> frame_ok pc s | _ \<Rightarrow> False))"

definition no_interrupt :: "sig_label \<Rightarrow> bool" where
  "no_interrupt l \<longleftrightarrow> (\<forall>sig. l \<noteq> Interrupt sig)"

lemma hook_eqI: "hk_fn g = hk_fn h \<Longrightarrow> hk_mask g = hk_mask h \<Longrightarrow> hk_count g = hk_count h \<Longrightarrow> g = (h :: lua_hook)"
  by (cases g; cases h) simp

lemma seq_step: "sig_step c l c' \<Longrightarrow> no_interrupt l \<Longrightarrow> seq_inv c \<Longrightarrow> seq_inv c'"
proof (induction rule: sig_step.induct)
  case (stmt sig pc s pc' s' fs p)
  then have "fs = []" by (cases fs) (auto simp: seq_inv_def)
  with stmt show ?case by (cases pc) (auto simp: seq_inv_def intro: hook_eqI split: if_splits)
next
  case (dropped sig pc s s' fs p)
  then have "fs = []" by (cases fs) (auto simp: seq_inv_def)
  with dropped show ?case by (cases pc) (auto simp: seq_inv_def MAX_PENDING_SIGNALS_def split: if_splits)
next
  case (store sig s s' fs p)
  then have "fs = []" by (cases fs) (auto simp: seq_inv_def)
  with store show ?case by (auto simp: seq_inv_def split: if_splits)
next
  case (set_handler p i H signal_ok L s r s')
  then show ?case using l_signal_fields [OF set_handler.hyps(2)] by (auto simp: seq_inv_def)
qed (auto simp: seq_inv_def no_interrupt_def sighook_start_def sighook_end_def sethook_not_Sighook
    dest: sighook_round_Some sighook_round_None)

lemma seq_run:
  assumes "hk_fn h \<noteq> Sighook" and "sig_run (sig_init h) ls c" and "\<And>sig. Interrupt sig \<notin> set ls"
  shows "seq_inv c"
proof -
  have "seq_inv (sig_init h)" using assms(1) by (simp add: seq_inv_def sig_init_def luaopen_util_signal_def)
  moreover have "\<forall>l \<in> set ls. no_interrupt l" using assms(3) by (auto simp: no_interrupt_def)
  ultimately show ?thesis using run_invariant [OF assms(2), of no_interrupt seq_inv] seq_step by blast
qed

lemma error_jams: "sig_step c CallError c' \<Longrightarrow> seq_inv c \<Longrightarrow> jammed c'"
  by (erule sig_stepE) (auto simp: jammed_def seq_inv_def)

text \<open>C21: once a Lua handler has raised an error, or was missing, no Lua handler is called ever again: \<open>nsig\<close>
  stays positive, so \<open>handle\<close> does not install the signal hook any more. Up to the error no C handler
  was interrupted by another one; after it anything may happen.\<close>

theorem signal_error_jams:
  assumes "hk_fn h \<noteq> Sighook" and "sig_run (sig_init h) ls c" and "\<And>sig. Interrupt sig \<notin> set ls"
    and "sig_step c CallError c'" and "sig_run c' ls' (fs, p, s)"
  shows "called ls' = [] \<and> p = Running \<and> 0 < nsig s \<and> hk_fn (lhook s) \<noteq> Sighook"
  using jammed_run [OF assms(5) error_jams [OF assms(4) seq_run [OF assms(1-3)]]] by (simp add: jammed_def)

text \<open>A debug hook that the program sets while signals are queued replaces the signal hook, and no Lua
  handler is called ever again: \<open>handle\<close> installs the signal hook on an empty queue only, and only
  the signal hook empties it.\<close>

theorem signal_hook_replaced:
  assumes "sig_run (sig_init h) ls ([], Running, s)" and "0 < nsig s" and "hk_fn g \<noteq> Sighook"
    and "sig_run ([], Running, s\<lparr>lhook := lua_sethook g\<rparr>) ls' (fs, p, s')"
  shows "sig_step ([], Running, s) (ProgHook g) ([], Running, s\<lparr>lhook := lua_sethook g\<rparr>) \<and>
    called ls' = [] \<and> 0 < nsig s' \<and> hk_fn (lhook s') \<noteq> Sighook"
proof -
  have "jammed ([], Running, s\<lparr>lhook := lua_sethook g\<rparr>)"
    using assms(2) sethook_not_Sighook [OF assms(3)] by (simp add: jammed_def)
  from jammed_run [OF assms(4) this] prog_hook [of Running 0 g s] assms(3) show ?thesis by (simp add: jammed_def)
qed

section \<open>Memory safety of the handler\<close>

text \<open>\<open>handle\<close> without interruption.\<close>

lemma save_hook_fields:
  "h\<lparr>hk_fn := hk_fn g, hk_mask := hk_mask g, hk_count := hk_count g\<rparr> = (g :: lua_hook)"
  by (cases h; cases g) simp

lemma seven: "7 = Suc (Suc (Suc (Suc (Suc (Suc (Suc 0))))))"
  by simp

lemma handle_result:
  assumes "length (signals s) = MAX_PENDING_SIGNALS" and "Lsig s"
  shows "handle sig s = Ret (Some (let s1 = (if nsig s = 0 then s\<lparr>Hsaved := lhook s, lhook := signal_hook\<rparr> else s)
    in if nsig s < MAX_PENDING_SIGNALS
       then s1\<lparr>signals := (signals s)[nsig s := sig], nsig := nsig s + 1\<rparr> else s1))"
  using assms by (auto simp: handle_def seven save_hook_fields Let_def)

lemma stmts_run:
  "handle_stmts n sig pc s = Ret (Some s') \<Longrightarrow> \<exists>ls. sig_run ((sig, pc) # fs, p, s) ls (fs, p, s') \<and>
    (\<forall>l \<in> set ls. l = Quiet \<or> l = Stored sig)"
proof (induction n arbitrary: pc s)
  case (Suc n)
  from Suc.prems obtain nxt s1 where step: "handle_stmt sig pc s = Ret (nxt, s1)"
    and rest: "(case nxt of None \<Rightarrow> Ret (Some s1) | Some pc' \<Rightarrow> handle_stmts n sig pc' s1) = Ret (Some s')"
    by (auto simp: cbind_eq_Ret)
  show ?case
  proof (cases nxt)
    case None
    with step rest have "handle_stmt sig pc s = Ret (None, s')" by simp
    then have "sig_step ((sig, pc) # fs, p, s) (if pc = Store then Stored sig else Quiet) (fs, p, s')"
      using store dropped by auto
    then show ?thesis by (intro exI conjI, rule run_one) auto
  next
    case (Some pc')
    with rest have "handle_stmts n sig pc' s1 = Ret (Some s')" by simp
    from Suc.IH [OF this] obtain ls where ls: "sig_run ((sig, pc') # fs, p, s1) ls (fs, p, s')"
      "\<forall>l \<in> set ls. l = Quiet \<or> l = Stored sig" by blast
    from step Some have "sig_run ((sig, pc) # fs, p, s) [Quiet] ((sig, pc') # fs, p, s1)"
      by (intro run_one stmt) simp
    from run_append [OF ls(1) this] ls(2) show ?thesis by (intro exI [of _ "[Quiet] @ ls"]) auto
  qed
qed simp

lemma handle_run:
  assumes "handle sig s = Ret (Some s')" and "sig \<in> handled s" and "sig \<notin> fst ` set fs"
  shows "\<exists>ls. sig_run (fs, p, s) ls (fs, p, s') \<and> (\<forall>l \<in> set ls. l \<in> {Quiet, Stored sig, Arrive sig, Interrupt sig}) \<and>
    (fs = [] \<longrightarrow> Interrupt sig \<notin> set ls)"
proof -
  from stmts_run assms(1) obtain ls where ls: "sig_run ((sig, AtTest) # fs, p, s) ls (fs, p, s')"
    "\<forall>l \<in> set ls. l = Quiet \<or> l = Stored sig" unfolding handle_def by metis
  have "sig_run (fs, p, s) [if fs = [] then Arrive sig else Interrupt sig] ((sig, AtTest) # fs, p, s)"
    using assms(2,3) by (intro run_one) (auto intro: arrive interrupt)
  from run_append [OF ls(1) this] ls(2) show ?thesis
    by (intro exI [of _ "[if fs = [] then Arrive sig else Interrupt sig] @ ls"]) auto
qed

lemma handle_stmt_Undef:
  assumes "sig_inv ((sig, pc) # fs, p, s)"
  shows "handle_stmt sig pc s = Undef u \<longleftrightarrow> pc = Store \<and> nsig s = MAX_PENDING_SIGNALS \<and> u = OutOfBounds"
  using assms by (cases pc) (auto simp: sig_inv_def)

text \<open>C22: \<open>handle\<close> never works without the interpreter's state, and the only undefined behaviour it can
  have is a store behind the array of 32 signals, with exactly 32 of them queued; when no C handler was
  interrupted by another one, it has none. Uninterrupted, a handler called on a program or hook
  queues its signal after the others, or drops it when 32 are queued.\<close>

theorem signal_handler_safe:
  assumes "hk_fn h \<noteq> Sighook" and "sig_run (sig_init h) ls (fs, p, s)"
  shows "nsig s \<le> 32 \<and>
    (\<forall>sig pc gs u. fs = (sig, pc) # gs \<longrightarrow>
       (handle_stmt sig pc s = Undef u \<longleftrightarrow> pc = Store \<and> nsig s = 32 \<and> u = OutOfBounds)) \<and>
    (\<forall>sig pc gs. fs = (sig, pc) # gs \<and> (\<forall>b. Interrupt b \<notin> set ls) \<longrightarrow> (\<exists>r. handle_stmt sig pc s = Ret r)) \<and>
    (\<forall>sig \<in> handled s. \<exists>s'. handle sig s = Ret (Some s') \<and>
       take (nsig s') (signals s') = take 32 (take (nsig s) (signals s) @ [sig]) \<and> (nsig s = 32 \<longrightarrow> s' = s))"
proof (intro conjI allI impI ballI)
  have inv: "sig_inv (fs, p, s)" using sig_inv_reachable [OF assms(2)] .
  then have n: "nsig s \<le> 32" "length (signals s) = 32" by (simp_all add: sig_inv_def MAX_PENDING_SIGNALS_def)
  then show "nsig s \<le> 32" by simp
  show undef: "handle_stmt sig pc s = Undef u \<longleftrightarrow> pc = Store \<and> nsig s = 32 \<and> u = OutOfBounds"
    if "fs = (sig, pc) # gs" for sig pc gs u
    using handle_stmt_Undef inv that by (simp add: MAX_PENDING_SIGNALS_def)
  show "\<exists>r. handle_stmt sig pc s = Ret r"
    if *: "fs = (sig, pc) # gs \<and> (\<forall>b. Interrupt b \<notin> set ls)" for sig pc gs
  proof -
    from seq_run [OF assms] * have "seq_inv ((sig, pc) # gs, p, s)" by blast
    then have "gs = []" "frame_ok pc s" by (cases gs; auto simp: seq_inv_def)+
    moreover have "Lsig s" using inv * by (auto simp: sig_inv_def)
    ultimately show ?thesis using n by (cases pc) (auto simp: MAX_PENDING_SIGNALS_def)
  qed
  show "\<exists>s'. handle sig s = Ret (Some s') \<and>
      take (nsig s') (signals s') = take 32 (take (nsig s) (signals s) @ [sig]) \<and> (nsig s = 32 \<longrightarrow> s' = s)"
    if "sig \<in> handled s" for sig
  proof -
    have "Lsig s" using inv that by (auto simp: sig_inv_def)
    with handle_result [of s sig] n show ?thesis
      by (auto simp: Let_def MAX_PENDING_SIGNALS_def take_snoc [simplified])
  qed
qed

section \<open>The hook of the program\<close>

text \<open>The hook the program set, whether or not the signal hook stands in for it.\<close>

definition program_hook :: "sig_state \<Rightarrow> lua_hook" where
  "program_hook s = (if hk_fn (lhook s) = Sighook then lua_sethook (Hsaved s) else lhook s)"

fun last_hook :: "lua_hook \<Rightarrow> sig_label list \<Rightarrow> lua_hook" where
  "last_hook h [] = h"
| "last_hook h (ProgHook g # ls) = last_hook (lua_sethook g) ls"
| "last_hook h (l # ls) = last_hook h ls"

lemma last_hook_append: "last_hook h (xs @ ys) = last_hook (last_hook h xs) ys"
  by (induction h xs rule: last_hook.induct) auto

lemma program_hook_step:
  "sig_step c l c' \<Longrightarrow> no_interrupt l \<Longrightarrow> seq_inv c \<Longrightarrow> lua_sethook (program_hook (snd (snd c))) = program_hook (snd (snd c)) \<Longrightarrow>
    program_hook (snd (snd c')) = last_hook (program_hook (snd (snd c))) [l]"
proof (induction rule: sig_step.induct)
  case (stmt sig pc s pc' s' fs p)
  then have "fs = []" by (cases fs) (auto simp: seq_inv_def)
  with stmt show ?case by (cases pc) (auto simp: seq_inv_def program_hook_def split: if_splits)
next
  case (dropped sig pc s s' fs p)
  then show ?case by (cases pc) (auto simp: program_hook_def split: if_splits)
next
  case (store sig s s' fs p)
  then show ?case by (auto simp: program_hook_def split: if_splits)
next
  case (set_handler p i H signal_ok L s r s')
  then show ?case using l_signal_fields [OF set_handler.hyps(2)] by (simp add: program_hook_def)
qed (auto simp: program_hook_def sighook_start_def sighook_end_def seq_inv_def sethook_not_Sighook)

lemma program_hook_run:
  "sig_run c ls c' \<Longrightarrow> \<forall>l \<in> set ls. no_interrupt l \<Longrightarrow> seq_inv c \<Longrightarrow>
    lua_sethook (program_hook (snd (snd c))) = program_hook (snd (snd c)) \<Longrightarrow>
    program_hook (snd (snd c')) = last_hook (program_hook (snd (snd c))) ls \<and>
    lua_sethook (program_hook (snd (snd c'))) = program_hook (snd (snd c')) \<and> seq_inv c'"
proof (induction rule: sig_run.induct)
  case (run_snoc c ls c' l c'')
  then have IH: "program_hook (snd (snd c')) = last_hook (program_hook (snd (snd c))) ls"
    "lua_sethook (program_hook (snd (snd c'))) = program_hook (snd (snd c'))" "seq_inv c'" and l: "no_interrupt l" by auto
  have new: "program_hook (snd (snd c'')) = last_hook (program_hook (snd (snd c'))) [l]"
    by (rule program_hook_step [OF run_snoc.hyps(2) l IH(3,2)])
  moreover have "lua_sethook (last_hook (program_hook (snd (snd c'))) [l]) = last_hook (program_hook (snd (snd c'))) [l]"
    using IH(2) by (cases l) simp_all
  ultimately show ?case using seq_step [OF run_snoc.hyps(2) l IH(3)] IH(1) by (simp add: last_hook_append)
qed simp

text \<open>C23: as long as no C handler interrupts another one, the debug hook of the program is kept: the last
  hook that the program set, or the one it had at first, is the interpreter's hook or the one that
  will be put back, it is the interpreter's hook while Lua handlers are called, and whenever no
  signal is queued and no C handler is active.\<close>

theorem signal_hook_kept:
  assumes "hk_fn h \<noteq> Sighook" and "lua_sethook h = h" and "sig_run (sig_init h) ls (fs, p, s)"
    and "\<And>sig. Interrupt sig \<notin> set ls"
  shows "program_hook s = last_hook h ls \<and> (p \<noteq> Running \<or> fs = [] \<and> nsig s = 0 \<longrightarrow> lhook s = last_hook h ls)"
proof -
  have init: "program_hook (snd (snd (sig_init h))) = h" "seq_inv (sig_init h)"
    using assms(1) by (simp_all add: program_hook_def seq_inv_def sig_init_def luaopen_util_signal_def)
  have "\<forall>l \<in> set ls. no_interrupt l" using assms(4) by (auto simp: no_interrupt_def)
  from program_hook_run [OF assms(3) this init(2)] init(1) assms(2)
  have "program_hook s = last_hook h ls" "seq_inv (fs, p, s)" by simp_all
  moreover from this(2) have "p \<noteq> Running \<or> fs = [] \<and> nsig s = 0 \<longrightarrow> hk_fn (lhook s) \<noteq> Sighook"
    by (auto simp: seq_inv_def)
  ultimately show ?thesis by (auto simp: program_hook_def)
qed

section \<open>Example runs\<close>

definition plain_hook :: lua_hook where
  "plain_hook = \<lparr>hk_fn = NoHook, hk_mask = 0, hk_count = 0\<rparr>"

definition other_hook :: lua_hook where
  "other_hook = \<lparr>hk_fn = OtherHook 1, hk_mask = 4, hk_count = 0\<rparr>"

text \<open>The state after a handler was set for signal 15.\<close>

definition with_handler :: sig_state where
  "with_handler = (luaopen_util_signal plain_hook)\<lparr>
     sigtable := (sigtable (luaopen_util_signal plain_hook))(LNumber (of_int 15) \<mapsto> LFunction 1),
     Lsig := True, handled := {15}\<rparr>"

definition one_queued :: sig_state where
  "one_queued = with_handler\<lparr>Hsaved := plain_hook, lhook := signal_hook,
     signals := 15 # replicate 31 0, nsig := 1\<rparr>"

definition one_dispatched :: sig_state where
  "one_dispatched = one_queued\<lparr>lhook := plain_hook\<rparr>"

definition two_queued :: sig_state where
  "two_queued = one_dispatched\<lparr>signals := 15 # 15 # replicate 30 0, nsig := 2\<rparr>"

lemma replicate_32: "replicate 32 (0 :: int) = 0 # replicate 31 0" "replicate 31 (0 :: int) = 0 # replicate 30 0"
  by (simp_all add: numeral_eq_Suc)

lemmas example_defs = with_handler_def one_queued_def one_dispatched_def two_queued_def luaopen_util_signal_def
  plain_hook_def MAX_PENDING_SIGNALS_def

definition queue_labels :: "sig_label list" where
  "queue_labels = [Quiet, Arrive 15, Quiet, Quiet, Quiet, Quiet, Quiet, Quiet, Stored 15]"

lemma plain_hook_ok [simp]: "hk_fn plain_hook \<noteq> Sighook" "lua_sethook plain_hook = plain_hook"
  by (simp_all add: plain_hook_def lua_sethook_def)

lemma other_hook_ok [simp]: "hk_fn other_hook \<noteq> Sighook" "lua_sethook other_hook = other_hook"
  by (simp_all add: other_hook_def lua_sethook_def)

lemma example_handler_step: "sig_step (sig_init plain_hook) Quiet ([], Running, with_handler)"
  unfolding sig_init_def
proof (rule set_handler [of _ 0 plain_host "\<lambda>_. True" "[LNumber 15, LFunction 1]" _ "[LBool True]"])
  show "l_signal plain_host (\<lambda>_. True) [LNumber 15, LFunction 1] (luaopen_util_signal plain_hook) =
      Ret ([LBool True], with_handler)"
    by (simp add: l_signal_def signal_arg_def lua_api with_handler_def luaopen_util_signal_def)
qed simp

lemma queue_run: "sig_run (sig_init plain_hook) queue_labels ([], Running, one_queued)"
proof -
  let ?armed = "with_handler\<lparr>lhook := signal_hook\<rparr>"
  have s1: "sig_step ([], Running, with_handler) (Arrive 15) ([(15, AtTest)], Running, with_handler)"
    by (rule arrive) (simp add: with_handler_def)
  have s2: "sig_step ([(15, AtTest)], Running, with_handler) Quiet ([(15, SaveHook)], Running, with_handler)"
    by (rule stmt) (simp add: example_defs)
  have s3: "sig_step ([(15, SaveHook)], Running, with_handler) Quiet ([(15, SaveMask)], Running, with_handler)"
    by (rule stmt) (simp add: example_defs)
  have s4: "sig_step ([(15, SaveMask)], Running, with_handler) Quiet ([(15, SaveCount)], Running, with_handler)"
    by (rule stmt) (simp add: example_defs)
  have s5: "sig_step ([(15, SaveCount)], Running, with_handler) Quiet ([(15, SetHook)], Running, with_handler)"
    by (rule stmt) (simp add: example_defs)
  have s6: "sig_step ([(15, SetHook)], Running, with_handler) Quiet ([(15, AtBound)], Running, ?armed)"
    by (rule stmt) simp
  have s7: "sig_step ([(15, AtBound)], Running, ?armed) Quiet ([(15, Store)], Running, ?armed)"
    by (rule stmt) (simp add: example_defs)
  have s8: "sig_step ([(15, Store)], Running, ?armed) (Stored 15) ([], Running, one_queued)"
    by (rule store) (simp add: example_defs replicate_32)
  show ?thesis
    using run_snoc [OF run_snoc [OF run_snoc [OF run_snoc [OF run_snoc [OF run_snoc [OF run_snoc [OF run_snoc [OF
      run_one [OF example_handler_step] s1] s2] s3] s4] s5] s6] s7] s8]
    by (simp add: queue_labels_def)
qed

lemma example_run: "sig_run (sig_init plain_hook) (queue_labels @ [Quiet, Call 15]) ([], Calling 0, one_dispatched)"
proof -
  have "sighook_start one_queued = one_dispatched"
    by (simp add: sighook_start_def lua_sethook_def example_defs)
  then have start: "sig_step ([], Running, one_queued) Quiet ([], Dispatching 0, one_dispatched)"
    using hook [of one_queued] by (simp add: one_queued_def)
  have "sighook_round 0 one_dispatched = Ret (Some (Some (LFunction 1)))"
    by (simp add: sighook_round_def mem_at_def example_defs)
  from call [OF this] have "sig_step ([], Dispatching 0, one_dispatched) (Call 15) ([], Calling 0, one_dispatched)"
    by (simp add: example_defs)
  from run_snoc [OF run_snoc [OF queue_run start] this] show ?thesis by simp
qed

text \<open>After the first signal was queued, another one arrives.\<close>

lemma second_run: "sig_run ([], p, one_dispatched) [Arrive 15, Quiet, Quiet, Stored 15] ([], p, two_queued)"
proof -
  have s1: "sig_step ([], p, one_dispatched) (Arrive 15) ([(15, AtTest)], p, one_dispatched)"
    by (rule arrive) (simp add: example_defs)
  have s2: "sig_step ([(15, AtTest)], p, one_dispatched) Quiet ([(15, AtBound)], p, one_dispatched)"
    by (rule stmt) (simp add: example_defs)
  have s3: "sig_step ([(15, AtBound)], p, one_dispatched) Quiet ([(15, Store)], p, one_dispatched)"
    by (rule stmt) (simp add: example_defs)
  have s4: "sig_step ([(15, Store)], p, one_dispatched) (Stored 15) ([], p, two_queued)"
    by (rule store) (simp add: example_defs replicate_32)
  show ?thesis using run_snoc [OF run_snoc [OF run_snoc [OF run_one [OF s1] s2] s3] s4] by simp
qed

theorem signal_delivery_witness:
  "settled queue_labels @ pending (Running, one_queued) = [15] \<and> hk_fn (lhook one_queued) = Sighook"
  using signal_delivery [OF queue_run] by (simp add: queue_labels_def example_defs)

theorem signal_delivered_witness:
  "\<exists>ls' s'. sig_run ([], Running, one_queued) ls' ([], Running, s') \<and> called ls' = [15] \<and> nsig s' = 0"
proof -
  have "CallError \<notin> set queue_labels" "\<And>g. ProgHook g \<notin> set queue_labels" by (simp_all add: queue_labels_def)
  moreover have "\<exists>f. sigtable one_queued (LNumber (of_int sig)) = Some (LFunction f)"
    if "sig \<in> set (take (nsig one_queued) (signals one_queued))" for sig
    using that by (simp add: example_defs)
  moreover have "nsig one_queued \<noteq> 0" "take (nsig one_queued) (signals one_queued) = [15]" by (simp_all add: example_defs)
  ultimately show ?thesis using signal_delivered [OF queue_run] by metis
qed

theorem signal_error_jams_witness:
  "called [Arrive 15, Quiet, Quiet, Stored 15] = [] \<and> 0 < nsig two_queued \<and>
    sig_run ([], Running, one_dispatched) [Arrive 15, Quiet, Quiet, Stored 15] ([], Running, two_queued)"
proof -
  have "\<And>sig. Interrupt sig \<notin> set (queue_labels @ [Quiet, Call 15])" by (simp add: queue_labels_def)
  from signal_error_jams [OF plain_hook_ok(1) example_run this error second_run] second_run show ?thesis by blast
qed

theorem signal_hook_replaced_witness:
  "sig_step ([], Running, one_queued) (ProgHook other_hook) ([], Running, one_queued\<lparr>lhook := other_hook\<rparr>) \<and>
    0 < nsig (one_queued\<lparr>lhook := other_hook\<rparr>)"
proof -
  have "0 < nsig one_queued" by (simp add: example_defs)
  from signal_hook_replaced [OF queue_run this other_hook_ok(1) run_nil] show ?thesis by simp
qed

theorem signal_handler_safe_witness:
  "\<exists>s'. handle 15 one_dispatched = Ret (Some s') \<and> take (nsig s') (signals s') = [15, 15]"
  using signal_handler_safe [OF plain_hook_ok(1) example_run] by (simp add: example_defs)

theorem signal_hook_kept_witness:
  "program_hook one_queued = plain_hook \<and> lhook (one_dispatched\<lparr>lhook := other_hook\<rparr>) = other_hook"
proof -
  have no: "\<And>sig. Interrupt sig \<notin> set queue_labels"
    "\<And>sig. Interrupt sig \<notin> set ((queue_labels @ [Quiet, Call 15]) @ [ProgHook other_hook])"
    by (simp_all add: queue_labels_def)
  have "sig_run (sig_init plain_hook) ((queue_labels @ [Quiet, Call 15]) @ [ProgHook other_hook])
      ([], Calling 0, one_dispatched\<lparr>lhook := other_hook\<rparr>)"
    using run_snoc [OF example_run prog_hook [of "Calling 0" 0 other_hook]] by simp
  from signal_hook_kept [OF plain_hook_ok this no(2)] signal_hook_kept [OF plain_hook_ok queue_run no(1)]
  show ?thesis by (simp add: queue_labels_def)
qed

text \<open>A signal that arrives after the loop of the hook has ended and before it clears the queue is
  lost: there is a run without errors and without interrupted handlers that ends with an empty queue,
  in which signal 15 was stored twice and its Lua handler was called once.\<close>

theorem signal_lost_in_window:
  "\<exists>ls s. sig_run (sig_init plain_hook) ls ([], Running, s) \<and> nsig s = 0 \<and>
    CallError \<notin> set ls \<and> stored ls = [15, 15] \<and> called ls = [15] \<and> lost ls = [15]"
proof -
  let ?ls = "queue_labels @ [Quiet, Call 15]"
  have "sig_run (sig_init plain_hook) (?ls @ [Quiet]) ([], Dispatching 1, one_dispatched)"
    using run_snoc [OF example_run return] by simp
  moreover have "sighook_round 1 one_dispatched = Ret None" by (simp add: sighook_round_def example_defs)
  ultimately have "sig_run (sig_init plain_hook) ((?ls @ [Quiet]) @ [Leave]) ([], Clearing 1, one_dispatched)"
    using run_snoc leave by blast
  from run_snoc [OF run_append [OF second_run this] clear]
  have "sig_run (sig_init plain_hook) ((((?ls @ [Quiet]) @ [Leave]) @ [Arrive 15, Quiet, Quiet, Stored 15]) @
      [Cleared (pending (Clearing 1, two_queued))]) ([], Running, sighook_end two_queued)" .
  moreover have "nsig (sighook_end two_queued) = 0" by (simp add: sighook_end_def)
  moreover have "pending (Clearing 1, two_queued) = [15]" by (simp add: two_queued_def numeral_2_eq_2)
  ultimately show ?thesis by (intro exI conjI) (auto simp: queue_labels_def)
qed

section \<open>Signal names\<close>

lemma fold_names:
  "distinct (map fst xs) \<Longrightarrow> (n, v) \<in> set xs \<Longrightarrow>
    fold (\<lambda>(name, sig) t. t(LString (bs name) \<mapsto> LNumber (of_int sig))) xs m (LString (bs n)) = Some (LNumber (of_int v))"
proof (induction xs arbitrary: m)
  case (Cons x xs)
  have other: "fold (\<lambda>(name, sig) t. t(LString (bs name) \<mapsto> LNumber (of_int sig))) xs m' (LString (bs n)) = m' (LString (bs n))"
    if "n \<notin> fst ` set xs" for m' :: "lua_value \<rightharpoonup> lua_value"
    using that by (induction xs arbitrary: m') auto
  show ?case
  proof (cases "x = (n, v)")
    case True
    with Cons.prems other show ?thesis by (simp add: fun_upd_same del: fun_upd_apply)
  next
    case False
    with Cons.prems have "(n, v) \<in> set xs" by auto
    with Cons show ?thesis by (cases x) simp
  qed
qed simp

lemma l_signal_names: "l_signal H ok L s = Ret (r, s') \<Longrightarrow> sigtable s' (LString n) = sigtable s (LString n)"
  by (auto simp: l_signal_def cbind_eq_Ret Let_def split: if_splits option.splits lua_value.splits)

lemma names_step: "sig_step c l c' \<Longrightarrow> sigtable (snd (snd c')) (LString n) = sigtable (snd (snd c)) (LString n)"
  by (induction rule: sig_step.induct)
    (auto simp: sighook_start_def sighook_end_def l_signal_names dest: handle_stmt_fields(1) split: if_splits)

lemma names_run: "sig_run c ls c' \<Longrightarrow> sigtable (snd (snd c')) (LString n) = sigtable (snd (snd c)) (LString n)"
proof (induction rule: sig_run.induct)
  case (run_snoc c ls c' l c'')
  with names_step [OF run_snoc.hyps(2)] show ?case by simp
qed simp

lemma distinct_signal_names: "distinct (map fst lua_signals)"
  by (simp add: lua_signals_def)

lemma signal_arg_name:
  assumes "sig_run (sig_init h) ls (fs, p, s)" and "(n, v) \<in> set lua_signals"
  shows "signal_arg H (xs @ [LString (bs n)]) (Suc (length xs)) s = Ret v"
proof -
  have "sigtable s (LString (bs n)) = Some (LNumber (of_int v))"
    using names_run [OF assms(1), of "bs n"] fold_names [OF distinct_signal_names assms(2)]
    by (simp add: sig_init_def luaopen_util_signal_def)
  moreover have "\<forall>x \<in> set lua_signals. 0 \<le> snd x \<and> snd x < 32" by (simp add: lua_signals_def)
  with assms(2) have "0 \<le> v \<and> v < 32" by fastforce
  then have "- (2 ^ 31) \<le> v \<and> v < 2 ^ 31" by auto
  ultimately show ?thesis by (simp add: signal_arg_def lua_arg_def number_to_int_def)
qed

text \<open>In every reachable state a name of the table stands for its number: \<open>raise\<close> and \<open>kill\<close> send
  the signal that the name says, whatever handlers were set in between.\<close>

theorem signal_names:
  assumes "sig_run (sig_init h) ls (fs, p, s)" and "(n, v) \<in> set lua_signals"
    and "- (2 ^ 31) \<le> pid" and "pid < 2 ^ 31"
  shows "l_raise H raise_call [LString (bs n)] s = Ret [LNumber (of_int (raise_call v))] \<and>
    l_kill H kill_call [LNumber (of_int pid), LString (bs n)] s = Ret [LNumber (of_int (kill_call pid v))]"
proof -
  have "signal_arg H [LString (bs n)] 1 s = Ret v" "signal_arg H [LNumber (of_int pid), LString (bs n)] 2 s = Ret v"
    using signal_arg_name [OF assms(1,2), of H "[]"] signal_arg_name [OF assms(1,2), of H "[LNumber (of_int pid)]"]
    by (simp_all add: numeral_2_eq_2)
  with assms(3,4) show ?thesis by (simp add: l_raise_def l_kill_def lua_api)
qed

theorem signal_names_witness:
  "l_raise plain_host (\<lambda>_. 0) [LString (bs ''SIGTERM'')] one_dispatched = Ret [LNumber 0] \<and>
   l_kill plain_host (\<lambda>p s. s) [LNumber (of_int 7), LString (bs ''SIGHUP'')] one_dispatched = Ret [LNumber 1]"
  using signal_names [OF example_run, of "''SIGTERM''" 15 7 plain_host "\<lambda>_. 0" "\<lambda>p s. s"]
    signal_names [OF example_run, of "''SIGHUP''" 1 7 plain_host "\<lambda>_. 0" "\<lambda>p s. s"]
  by (simp add: lua_signals_def)

end
