(* ===== verification/Crand.thy ===== *)
theory Crand
  imports LuaApi
begin

text \<open>
  \<open>util-src/crand.c\<close>: random bytes for Lua. The three sources (\<open>getrandom\<close>, \<open>arc4random_buf\<close> and
  OpenSSL) are parameters over a state \<open>'k\<close>; the buffer starts with arbitrary content. The loop
  around \<open>getrandom\<close> ends only if the source makes progress, so it is a partial function.
\<close>

definition SMALLBUFSIZ :: nat where "SMALLBUFSIZ = 32"

text \<open>Writing bytes into the buffer at an offset.\<close>

definition mem_write :: "byte list \<Rightarrow> int \<Rightarrow> byte list \<Rightarrow> byte list cres" where
  "mem_write buf p bytes =
    (if 0 \<le> p \<and> nat p + length bytes \<le> length buf
     then Ret (take (nat p) buf @ bytes @ drop (nat p + length bytes) buf)
     else Undef OutOfBounds)"

text \<open>\<open>getrandom(p, left, 0)\<close>: result, \<open>errno\<close>, bytes written and the next state. The length is a
  \<open>size_t\<close>.\<close>

type_synonym 'k getrandom = "size_t \<Rightarrow> 'k \<Rightarrow> int \<times> int \<times> byte list \<times> 'k"

text \<open>With an older C library \<open>getrandom\<close> is a wrapper around the system call, whose result, a \<open>long\<close>,
  becomes an \<open>int\<close>.\<close>

definition getrandom :: "'k getrandom \<Rightarrow> 'k getrandom" where
  "getrandom syscall n k = (let (ret, errno, bytes, k') = syscall n k in (cast_int ret, errno, bytes, k'))"

section \<open>Filling the buffer\<close>

text \<open>The loop of the \<open>getrandom\<close> build, with the offset \<open>p\<close> and the \<open>int\<close> \<open>left\<close>.\<close>

partial_function (option) getrandom_loop ::
    "host \<Rightarrow> 'k getrandom \<Rightarrow> int \<Rightarrow> int \<Rightarrow> byte list \<Rightarrow> 'k \<Rightarrow> (byte list \<times> 'k) cres option" where
  "getrandom_loop H G p left buf k =
    (let (ret, errno, bytes, k') = G (word_of_int left) k in
     if cast_int ret < 0 then Some (Raise (RuntimeError (strerror H errno)))
     else case mem_write buf p bytes of
            Ret buf' \<Rightarrow>
              if left - cast_int ret < - (2 ^ 31) then Some (Undef IntOverflow)
              else if left - cast_int ret > 0
              then getrandom_loop H G (p + cast_int ret) (left - cast_int ret) buf' k'
              else Some (Ret (buf', k'))
          | Raise e \<Rightarrow> Some (Raise e)
          | Undef u \<Rightarrow> Some (Undef u))"

definition fill_getrandom ::
    "host \<Rightarrow> 'k getrandom \<Rightarrow> size_t \<Rightarrow> byte list \<Rightarrow> 'k \<Rightarrow> (byte list \<times> 'k) cres option" where
  "fill_getrandom H G len buf k = getrandom_loop H G 0 (cast_int (uint len)) buf k"

definition fill_arc4random ::
    "(size_t \<Rightarrow> 'k \<Rightarrow> byte list \<times> 'k) \<Rightarrow> size_t \<Rightarrow> byte list \<Rightarrow> 'k \<Rightarrow> (byte list \<times> 'k) cres option" where
  "fill_arc4random arc4random_buf len buf k =
    (let (bytes, k') = arc4random_buf len k in
     Some (cbind (mem_write buf 0 bytes) (\<lambda>buf'. Ret (buf', k'))))"

record 'k openssl_rand =
  RAND_status :: "'k \<Rightarrow> int"
  RAND_bytes :: "int \<Rightarrow> 'k \<Rightarrow> int \<times> byte list \<times> 'k"

definition fill_openssl ::
    "'k openssl_rand \<Rightarrow> size_t \<Rightarrow> byte list \<Rightarrow> 'k \<Rightarrow> (byte list \<times> 'k) cres option" where
  "fill_openssl R len buf k =
    (if RAND_status R k = 0 then Some (Raise (RuntimeError (bs ''OpenSSL PRNG not seeded'')))
     else let (ret, bytes, k') = RAND_bytes R (cast_int (uint len)) k in
          if ret \<noteq> 1 then Some (Raise (RuntimeError (bs ''RAND_bytes() failed'')))
          else Some (cbind (mem_write buf 0 bytes) (\<lambda>buf'. Ret (buf', k'))))"

section \<open>The Lua function\<close>

text \<open>\<open>fill\<close> is the part of the build that was chosen. The buffer is the small one of 32 bytes or a
  userdata of \<open>len\<close> bytes; \<open>alloc\<close> tells for which sizes \<open>lua_newuserdata\<close> gets its memory, and \<open>junk\<close>
  gives the first content of the buffer, as a function of its size.\<close>

definition Lrandom :: "host \<Rightarrow> (nat \<Rightarrow> bool) \<Rightarrow> (size_t \<Rightarrow> byte list \<Rightarrow> 'k \<Rightarrow> (byte list \<times> 'k) cres option) \<Rightarrow>
    (nat \<Rightarrow> byte list) \<Rightarrow> lua_args \<Rightarrow> 'k \<Rightarrow> (lua_value list \<times> 'k) cres option" where
  "Lrandom H alloc fill junk L k =
    (case luaL_checkinteger H L 1 of
       Raise e \<Rightarrow> Some (Raise e)
     | Undef u \<Rightarrow> Some (Undef u)
     | Ret l \<Rightarrow>
         let len = (word_of_int l :: size_t) in
         if l < 0 then Some (Raise (ArgError 1 ''must be > 0''))
         else if len = 0 then Some (Ret ([LString []], k))
         else if unat len > SMALLBUFSIZ \<and> \<not> alloc (unat len) then Some (Raise OutOfMemory)
         else
           let buf = junk (if unat len > SMALLBUFSIZ then unat len else SMALLBUFSIZ) in
           case fill len buf k of
             None \<Rightarrow> None
           | Some r \<Rightarrow> Some (cbind r (\<lambda>(buf, k).
               cbind (mem_slice buf 0 (unat len)) (\<lambda>s. Ret ([LString s], k)))))"

section \<open>Correctness\<close>

text \<open>What \<open>getrandom(2)\<close> documents for a non-empty request: it fails with a negative result, or
  writes a positive number of bytes, at most the number asked for, and returns it. \<open>drawn\<close> reads
  the bytes delivered so far off the state.\<close>

definition getrandom_documented :: "('k \<Rightarrow> byte list) \<Rightarrow> 'k getrandom \<Rightarrow> bool" where
  "getrandom_documented drawn G \<longleftrightarrow>
    (\<forall>n k ret errno bytes k'. 0 < n \<longrightarrow> unat n < 2 ^ 31 \<longrightarrow> G n k = (ret, errno, bytes, k') \<longrightarrow>
       - (2 ^ 31) \<le> ret \<and>
       (0 \<le> ret \<longrightarrow> 0 < ret \<and> ret \<le> int (unat n) \<and> length bytes = nat ret \<and> drawn k' = drawn k @ bytes))"

lemma getrandom_wrapper:
  assumes "getrandom_documented drawn syscall"
  shows "getrandom_documented drawn (getrandom syscall)"
  unfolding getrandom_documented_def
proof (intro allI impI)
  fix n k ret errno bytes k'
  assume n: "0 < n" "unat n < 2 ^ 31" and call: "getrandom syscall n k = (ret, errno, bytes, k')"
  obtain r e bytes2 k2 where sys: "syscall n k = (r, e, bytes2, k2)" by (metis prod_cases4)
  with call have r: "syscall n k = (r, errno, bytes, k')" "ret = cast_int r" by (simp_all add: getrandom_def)
  have b: "- (2 ^ 31) \<le> r \<and> (0 \<le> r \<longrightarrow> 0 < r \<and> r \<le> int (unat n) \<and>
      length bytes = nat r \<and> drawn k' = drawn k @ bytes)"
    by (rule assms [unfolded getrandom_documented_def, rule_format (no_asm), OF n r(1)])
  from n(2) have "int (unat n) < int (2 ^ 31)" by (simp only: of_nat_less_iff)
  then have "int (unat n) < 2 ^ 31" by (simp only: of_nat_power of_nat_numeral)
  moreover from b have "r < 0 \<or> r \<le> int (unat n)" by linarith
  ultimately have "r < 2 ^ 31" by linarith
  with b have "ret = r" using r(2) cast_int_id [of r] by metis
  with b show "- (2 ^ 31) \<le> ret \<and> (0 \<le> ret \<longrightarrow> 0 < ret \<and> ret \<le> int (unat n) \<and>
      length bytes = nat ret \<and> drawn k' = drawn k @ bytes)" by simp
qed

lemma getrandom_documentedD:
  assumes "getrandom_documented drawn G" and "0 < left" and "left < 2 ^ 31"
    and "G (word_of_int left) k = (ret, errno, bytes, k')"
  shows "- (2 ^ 31) \<le> ret \<and>
    (0 \<le> ret \<longrightarrow> 0 < ret \<and> ret \<le> left \<and> length bytes = nat ret \<and> drawn k' = drawn k @ bytes)"
proof -
  have u: "unat (word_of_int left :: size_t) = nat left" using assms(2,3) by (intro unat_word_of_int) auto
  with assms(2) have "(0 :: size_t) < word_of_int left" by (simp add: word_less_nat_alt)
  moreover have "unat (word_of_int left :: size_t) < 2 ^ 31" using u assms(2,3) by simp
  moreover have "int (unat (word_of_int left :: size_t)) = left" using u assms(2) by simp
  ultimately show ?thesis using assms(1,4) unfolding getrandom_documented_def by metis
qed

text \<open>The successful reads of a request for \<open>n\<close> bytes, each for the bytes that are still missing: the
  bytes delivered and the state of the source.\<close>

inductive reads :: "'k getrandom \<Rightarrow> nat \<Rightarrow> 'k \<Rightarrow> byte list \<Rightarrow> 'k \<Rightarrow> bool" for G n k where
  reads_none: "reads G n k [] k"
| reads_more: "reads G n k s k1 \<Longrightarrow> length s < n \<Longrightarrow> G (of_nat (n - length s)) k1 = (ret, errno, bytes, k2) \<Longrightarrow>
     0 \<le> ret \<Longrightarrow> reads G n k (s @ bytes) k2"

text \<open>A request succeeds with exactly its bytes, or ends at a read that failed.\<close>

definition request_filled :: "'k getrandom \<Rightarrow> nat \<Rightarrow> 'k \<Rightarrow> byte list \<Rightarrow> 'k \<Rightarrow> bool" where
  "request_filled G n k s k' \<longleftrightarrow> reads G n k s k' \<and> length s = n"

definition request_failed :: "'k getrandom \<Rightarrow> nat \<Rightarrow> 'k \<Rightarrow> int \<Rightarrow> bool" where
  "request_failed G n k errno \<longleftrightarrow> (\<exists>s k1 ret bytes k2. reads G n k s k1 \<and> length s < n \<and>
     G (of_nat (n - length s)) k1 = (ret, errno, bytes, k2) \<and> ret < 0)"

definition fill_result :: "'k getrandom \<Rightarrow> host \<Rightarrow> nat \<Rightarrow> byte list \<Rightarrow> 'k \<Rightarrow> (byte list \<times> 'k) cres \<Rightarrow> bool" where
  "fill_result G H n buf k r \<longleftrightarrow>
    (case r of
       Ret (buf', k') \<Rightarrow> \<exists>s. request_filled G n k s k' \<and> buf' = s @ drop n buf
     | Raise e \<Rightarrow> \<exists>errno. request_failed G n k errno \<and> e = RuntimeError (strerror H errno)
     | Undef u \<Rightarrow> False)"

lemma reads_drawn: "reads G n k s k' \<Longrightarrow> getrandom_documented drawn G \<Longrightarrow> n < 2 ^ 31 \<Longrightarrow> drawn k' = drawn k @ s"
proof (induction rule: reads.induct)
  case (reads_more s k1 ret errno bytes k2)
  define left where "left = int (n - length s)"
  have "0 < left" "left < 2 ^ 31" using reads_more by (simp_all add: left_def)
  moreover have "G (word_of_int left) k1 = (ret, errno, bytes, k2)" using reads_more(3) by (simp add: left_def)
  ultimately have "drawn k2 = drawn k1 @ bytes"
    using getrandom_documentedD [OF reads_more.prems(1)] reads_more(4) by blast
  with reads_more show ?case by simp
qed simp

lemma getrandom_loop_fills:
  assumes doc: "getrandom_documented drawn G" and n: "n < 2 ^ 31" "n \<le> length buf0"
  shows "reads G n k s k1 \<Longrightarrow> length s < n \<Longrightarrow> buf = s @ drop (length s) buf0 \<Longrightarrow>
    \<exists>r. getrandom_loop H G (int (length s)) (int (n - length s)) buf k1 = Some r \<and> fill_result G H n buf0 k r"
proof (induction "n - length s" arbitrary: s buf k1 rule: less_induct)
  case less
  define left where "left = int (n - length s)"
  have left: "0 < left" "left < 2 ^ 31" using less.prems(2) n(1) by (simp_all add: left_def)
  obtain ret errno bytes k2 where G: "G (word_of_int left) k1 = (ret, errno, bytes, k2)" by (rule prod_cases4)
  then have G': "G (of_nat (n - length s)) k1 = (ret, errno, bytes, k2)" by (simp add: left_def)
  note D = getrandom_documentedD [OF doc left G]
  then have cast: "cast_int ret = ret" using left by (intro cast_int_id) auto
  show ?case
  proof (cases "0 \<le> ret")
    case False
    then have "ret < 0" by simp
    with less.prems(1,2) G' have "request_failed G n k errno" unfolding request_failed_def by blast
    with False G cast show ?thesis
      by (auto simp: getrandom_loop.simps fill_result_def left_def [symmetric])
  next
    case True
    define m where "m = length bytes"
    have m: "ret = int m" "0 < m" "m \<le> n - length s" using D True by (auto simp: m_def left_def)
    have reads: "reads G n k (s @ bytes) k2" using reads_more [OF less.prems(1,2) G' True] .
    have w: "mem_write buf (int (length s)) bytes = Ret ((s @ bytes) @ drop (length (s @ bytes)) buf0)"
      using m n(2) less.prems by (simp add: mem_write_def m_def add.commute)
    show ?thesis
    proof (cases "m = n - length s")
      case full: True
      then have "request_filled G n k (s @ bytes) k2" using reads less.prems(2) by (simp add: request_filled_def m_def)
      moreover have "length s + m = n" using full less.prems(2) by simp
      moreover have "left = ret" using full m(1) by (simp add: left_def)
      ultimately show ?thesis using True G w cast left
        by (auto simp: getrandom_loop.simps fill_result_def left_def [symmetric] m_def [symmetric])
    next
      case False
      have rest: "n - length (s @ bytes) < n - length s" "length (s @ bytes) < n"
        using m(2,3) False less.prems(2) unfolding length_append m_def [symmetric] by linarith+
      have "left - ret = int (n - length (s @ bytes))" "int (length s) + ret = int (length (s @ bytes))"
        using m rest by (simp_all add: left_def m_def)
      with G w cast True rest(2) have "getrandom_loop H G (int (length s)) left buf k1 =
          getrandom_loop H G (int (length (s @ bytes))) (int (n - length (s @ bytes)))
            ((s @ bytes) @ drop (length (s @ bytes)) buf0) k2"
        by (subst getrandom_loop.simps) (simp del: length_append of_nat_diff)
      with less.hyps [OF rest(1) reads rest(2) refl] show ?thesis by (simp add: left_def)
    qed
  qed
qed

lemma Lrandom_fill:
  assumes "luaL_checkinteger H L 1 = Ret (int n)" and "0 < n" and "n < 2 ^ 64"
    and "SMALLBUFSIZ < n \<Longrightarrow> alloc n"
    and "fill (of_nat n) (junk (if n > SMALLBUFSIZ then n else SMALLBUFSIZ)) k = Some r"
  shows "Lrandom H alloc fill junk L k =
    Some (cbind r (\<lambda>(buf, k). cbind (mem_slice buf 0 n) (\<lambda>s. Ret ([LString s], k))))"
proof -
  have len: "unat (of_nat n :: size_t) = n" using assms(3) by (intro unat_of_nat_small) simp
  have nz: "(of_nat n :: size_t) \<noteq> 0" using len assms(2) by (metis unat_0 less_irrefl)
  have w: "(word_of_int (int n) :: size_t) = of_nat n" by simp
  show ?thesis
    unfolding Lrandom_def assms(1) cres.case Let_def w len using nz assms(4,5) by auto
qed

text \<open>C17: a request for fewer than \<open>2 ^ 31\<close> bytes in the \<open>getrandom\<close> build returns, however the source
  splits it into short reads. It returns exactly the requested number of bytes, namely the ones that
  successful reads delivered, each for what was still missing, all of them drawn from the source in
  this call and none twice; or it raises the error of a read that failed after successful ones; or it
  raises an error because a buffer larger than the small one could not be allocated. No byte outside
  the buffer is touched.\<close>

theorem crand_exact:
  assumes "getrandom_documented drawn G" and "0 < n" and "n < 2 ^ 31" and "\<forall>i. length (junk i) = i"
  shows "\<exists>r. Lrandom H alloc (fill_getrandom H G) junk [LNumber (of_nat n)] k = Some r \<and>
    (if 32 < n \<and> \<not> alloc n then r = Raise OutOfMemory
     else (\<exists>s k'. r = Ret ([LString s], k') \<and> length s = n \<and> reads G n k s k' \<and> drawn k' = drawn k @ s) \<or>
       (\<exists>s k1 ret errno bytes k2. r = Raise (RuntimeError (strerror H errno)) \<and> reads G n k s k1 \<and> length s < n \<and>
          G (of_nat (n - length s)) k1 = (ret, errno, bytes, k2) \<and> ret < 0))"
proof (cases "SMALLBUFSIZ < n \<and> \<not> alloc n")
  case True
  have len: "unat (of_nat n :: size_t) = n" using assms(3) by (intro unat_of_nat_small) simp
  have "(of_nat n :: size_t) \<noteq> 0" using len assms(2) by (metis unat_0 less_irrefl)
  with True len assms(3) show ?thesis by (simp add: Lrandom_def lua_api SMALLBUFSIZ_def)
next
  case False
  define B where "B = junk (if n > SMALLBUFSIZ then n else SMALLBUFSIZ)"
  have B: "n \<le> length B" using assms(4) by (simp add: B_def)
  have len: "unat (of_nat n :: size_t) = n" using assms(3) by (intro unat_of_nat_small) simp
  then have ulen: "uint (of_nat n :: size_t) = int n" by (simp add: uint_nat)
  have cast: "cast_int (int n) = int n" using assms(3) by (rule cast_int_of_nat)
  obtain r where r: "fill_getrandom H G (of_nat n) B k = Some r" "fill_result G H n B k r"
    using getrandom_loop_fills [OF assms(1,3) B reads_none, of B H] assms(2) by (auto simp: fill_getrandom_def ulen cast)
  have run: "Lrandom H alloc (fill_getrandom H G) junk [LNumber (of_nat n)] k =
      Some (cbind r (\<lambda>(buf, k). cbind (mem_slice buf 0 n) (\<lambda>s. Ret ([LString s], k))))"
    using r(1) assms(2,3) False by (intro Lrandom_fill) (simp_all add: lua_api B_def)
  show ?thesis
  proof (cases r)
    case (Ret x)
    with r(2) obtain s k' where "r = Ret (s @ drop n B, k')" "reads G n k s k'" "length s = n"
      by (cases x) (auto simp: fill_result_def request_filled_def)
    with run B reads_drawn [OF this(2) assms(1,3)] False show ?thesis by (auto simp: mem_slice_def SMALLBUFSIZ_def)
  next
    case (Raise e)
    from r(2) Raise obtain errno where e: "request_failed G n k errno" "r = Raise (RuntimeError (strerror H errno))"
      by (auto simp: fill_result_def)
    have "\<exists>s k1 ret errno' bytes k2. (Raise (RuntimeError (strerror H errno)) :: (lua_value list \<times> 'a) cres) =
        Raise (RuntimeError (strerror H errno')) \<and> reads G n k s k1 \<and> length s < n \<and>
        G (of_nat (n - length s)) k1 = (ret, errno', bytes, k2) \<and> ret < 0"
      using e unfolding request_failed_def by blast
    moreover have "Lrandom H alloc (fill_getrandom H G) junk [LNumber (of_nat n)] k =
        Some (Raise (RuntimeError (strerror H errno)))"
      using run e(2) by simp
    ultimately show ?thesis using False unfolding SMALLBUFSIZ_def if_not_P [OF False [unfolded SMALLBUFSIZ_def]] by blast
  next
    case (Undef u)
    with r(2) show ?thesis by (simp add: fill_result_def)
  qed
qed

text \<open>A source for concrete runs that gives at most two bytes per call, and never fails.\<close>

definition short_source :: "byte list getrandom" where
  "short_source n k = (let m = min 2 (unat n) in (int m, 0, replicate m 7, k @ replicate m 7))"

lemma short_source_documented: "getrandom_documented (\<lambda>k. k) short_source"
proof -
  have "0 < unat n" if "0 < n" for n :: size_t using that by (simp add: word_less_nat_alt)
  then show ?thesis by (auto simp: getrandom_documented_def short_source_def Let_def min_def)
      (metis of_nat_le_iff of_nat_numeral uint_nat)
qed

lemma short_source_never_fails: "short_source n k = (ret, errno, bytes, k') \<Longrightarrow> \<not> ret < 0"
  by (auto simp: short_source_def Let_def)

theorem crand_exact_witness:
  "\<exists>s. Lrandom plain_host (\<lambda>i. False) (fill_getrandom plain_host short_source) (\<lambda>i. replicate i 0) [LNumber (of_nat 5)] [] =
    Some (Ret ([LString s], s)) \<and> length s = 5"
  using crand_exact [OF short_source_documented, of 5 "\<lambda>i. replicate i 0" plain_host "\<lambda>i. False" "[]"] short_source_never_fails
  by (simp, metis)

lemma cast_int_wraps: "n < 2 ^ 31 \<Longrightarrow> cast_int (2 ^ 32 + int n) = int n"
proof -
  assume n: "n < 2 ^ 31"
  have "take_bit 32 (2 ^ 32 + int n) = take_bit 32 (int n)" by (simp add: take_bit_eq_mod)
  then have "signed_take_bit 31 (2 ^ 32 + int n) = signed_take_bit 31 (int n)"
    unfolding signed_take_bit_eq_iff_take_bit_eq by (simp only: Suc_numeral) simp
  then show ?thesis using cast_int_of_nat [OF n] by (simp add: cast_int_def)
qed

text \<open>C30: the number of bytes left is kept in an \<open>int\<close>: when the buffer of \<open>2 ^ 32 + n\<close> bytes can be
  allocated, a request for that many draws \<open>n\<close> bytes and returns them with the rest of the buffer as
  it was allocated; only a read that failed makes it raise an error.\<close>

theorem crand_truncates:
  assumes "getrandom_documented drawn G" and "0 < n" and "n < 2 ^ 31" and "\<forall>i. length (junk i) = i"
    and "alloc (2 ^ 32 + n)"
  shows "\<exists>r. Lrandom H alloc (fill_getrandom H G) junk [LNumber (of_nat (2 ^ 32 + n))] k = Some r \<and>
    ((\<exists>s k'. r = Ret ([LString (s @ drop n (junk (2 ^ 32 + n)))], k') \<and> length s = n \<and> reads G n k s k' \<and>
        drawn k' = drawn k @ s) \<or>
     (\<exists>s k1 ret errno bytes k2. r = Raise (RuntimeError (strerror H errno)) \<and> reads G n k s k1 \<and> length s < n \<and>
        G (of_nat (n - length s)) k1 = (ret, errno, bytes, k2) \<and> ret < 0))"
proof -
  let ?l = "2 ^ 32 + n :: nat"
  let ?w = "of_nat ?l :: size_t"
  have len: "unat ?w = ?l" using assms(3) by (intro unat_of_nat_small) simp
  then have ulen: "uint ?w = 2 ^ 32 + int n" by (simp only: uint_nat) simp
  have B: "n \<le> length (junk ?l)" using assms(4) by simp
  obtain r where r: "fill_getrandom H G ?w (junk ?l) k = Some r" "fill_result G H n (junk ?l) k r"
    using getrandom_loop_fills [OF assms(1,3) B reads_none, of "junk ?l" H] assms(2)
    unfolding fill_getrandom_def ulen cast_int_wraps [OF assms(3)] by auto
  have int: "luaL_checkinteger H [LNumber (of_nat ?l)] 1 = Ret (int ?l)"
    using assms(3) by (simp add: lua_api del: of_nat_add of_nat_power)
  have run: "Lrandom H alloc (fill_getrandom H G) junk [LNumber (of_nat ?l)] k =
      Some (cbind r (\<lambda>(buf, k). cbind (mem_slice buf 0 ?l) (\<lambda>s. Ret ([LString s], k))))"
    by (rule Lrandom_fill [OF int]) (use assms(3,5) r(1) in \<open>simp_all add: SMALLBUFSIZ_def\<close>)
  show ?thesis
  proof (cases r)
    case (Ret x)
    with r(2) obtain s k' where "r = Ret (s @ drop n (junk ?l), k')" "reads G n k s k'" "length s = n"
      by (cases x) (auto simp: fill_result_def request_filled_def)
    with run assms(4) reads_drawn [OF this(2) assms(1,3)] show ?thesis by (auto simp: mem_slice_def)
  next
    case (Raise e)
    from r(2) Raise obtain errno where e: "request_failed G n k errno" "r = Raise (RuntimeError (strerror H errno))"
      by (auto simp: fill_result_def)
    have "\<exists>s k1 ret errno' bytes k2. (Raise (RuntimeError (strerror H errno)) :: (lua_value list \<times> 'a) cres) =
        Raise (RuntimeError (strerror H errno')) \<and> reads G n k s k1 \<and> length s < n \<and>
        G (of_nat (n - length s)) k1 = (ret, errno', bytes, k2) \<and> ret < 0"
      using e unfolding request_failed_def by blast
    moreover have "Lrandom H alloc (fill_getrandom H G) junk [LNumber (of_nat ?l)] k =
        Some (Raise (RuntimeError (strerror H errno)))"
      using run e(2) by simp
    ultimately show ?thesis by blast
  next
    case (Undef u)
    with r(2) show ?thesis by (simp add: fill_result_def)
  qed
qed

theorem crand_truncates_witness:
  "\<exists>s. Lrandom plain_host (\<lambda>i. True) (fill_getrandom plain_host short_source) (\<lambda>i. replicate i 0)
      [LNumber (of_nat (2 ^ 32 + 1))] [] = Some (Ret ([LString (s @ replicate (2 ^ 32) 0)], s)) \<and> length s = 1"
  using crand_truncates [OF short_source_documented, of 1 "\<lambda>i. replicate i 0" "\<lambda>i. True" plain_host "[]"] short_source_never_fails
  by (simp del: of_nat_add, metis)

end
