(* ===== verification/Net.thy ===== *)
theory Net
  imports LuaApi
begin

text \<open>
  \<open>util-src/net.c\<close>: the local addresses of the machine and the conversion of addresses between
  text and bytes. The list of interfaces is an argument, in the order of \<open>getifaddrs\<close>; addresses are
  their bytes in network order. \<open>inet_ntop\<close> and \<open>inet_pton\<close> are parameters.
\<close>

section \<open>Data\<close>

datatype sockaddr =
    Inet "byte list"      \<comment> \<open>\<open>AF_INET\<close>: four bytes\<close>
  | Inet6 "byte list"     \<comment> \<open>\<open>AF_INET6\<close>: sixteen bytes\<close>
  | OtherFamily int

record ifaddr =
  ifa_addr :: "sockaddr option"    \<comment> \<open>\<open>None\<close> is the null pointer\<close>
  ifa_loopback :: bool             \<comment> \<open>\<open>ifa_flags & IFF_LOOPBACK\<close>\<close>

datatype family = AF_INET | AF_INET6

record inet =
  inet_ntop :: "family \<Rightarrow> byte list \<Rightarrow> byte list option \<times> int"   \<comment> \<open>text or failure, and \<open>errno\<close>\<close>
  inet_pton :: "family \<Rightarrow> byte list \<Rightarrow> int \<times> byte list \<times> int"    \<comment> \<open>result, bytes, \<open>errno\<close>\<close>

definition type_strings :: "string list" where
  "type_strings = [''both'', ''ipv4'', ''ipv6'']"

section \<open>Address classes\<close>

text \<open>\<open>sin_addr.s_addr\<close> holds the bytes in memory order; \<open>htonl\<close> swaps on a little-endian machine.\<close>

definition htonl :: "uint32 \<Rightarrow> uint32" where
  "htonl w = (case bytes_of_quad w of [a, b, c, d] \<Rightarrow> quad_of_bytes d c b a | _ \<Rightarrow> 0)"

definition s_addr :: "byte list \<Rightarrow> uint32" where
  "s_addr a = quad_of_bytes (a ! 0) (a ! 1) (a ! 2) (a ! 3)"

definition ip4_linklocal :: uint32 where "ip4_linklocal = htonl 0xa9fe0000"
definition ip4_mask :: uint32 where "ip4_mask = htonl 0xffff0000"

definition is_ip4_linklocal :: "byte list \<Rightarrow> bool" where
  "is_ip4_linklocal a \<longleftrightarrow> s_addr a AND ip4_mask = ip4_linklocal"

definition in6_linklocal :: "byte list \<Rightarrow> bool" where
  "in6_linklocal a \<longleftrightarrow> a ! 0 = 0xfe \<and> a ! 1 AND 0xc0 = 0x80"

definition in6_v4mapped :: "byte list \<Rightarrow> bool" where
  "in6_v4mapped a \<longleftrightarrow> take 10 a = replicate 10 0 \<and> a ! 10 = 0xff \<and> a ! 11 = 0xff"

definition in6_v4compat :: "byte list \<Rightarrow> bool" where
  "in6_v4compat a \<longleftrightarrow> take 12 a = replicate 12 0 \<and>
     htonl (quad_of_bytes (a ! 12) (a ! 13) (a ! 14) (a ! 15)) > 1"

section \<open>Local addresses\<close>

text \<open>One round of the loop: the text pushed for an interface, if any.\<close>

definition ifaddr_text :: "inet \<Rightarrow> bool \<Rightarrow> bool \<Rightarrow> bool \<Rightarrow> ifaddr \<Rightarrow> byte list option" where
  "ifaddr_text I ipv4 ipv6 link_local a =
    (case ifa_addr a of
       None \<Rightarrow> None
     | Some addr \<Rightarrow>
         if ifa_loopback a then None
         else case addr of
           Inet b \<Rightarrow>
             if ipv4 then
               if \<not> link_local \<and> is_ip4_linklocal b then None
               else fst (inet_ntop I AF_INET b)
             else None
         | Inet6 b \<Rightarrow>
             if ipv6 then
               if \<not> link_local \<and> in6_linklocal b then None
               else if in6_v4mapped b \<or> in6_v4compat b then None
               else fst (inet_ntop I AF_INET6 b)
             else None
         | OtherFamily f \<Rightarrow> None)"

fun ifaddr_loop :: "inet \<Rightarrow> bool \<Rightarrow> bool \<Rightarrow> bool \<Rightarrow> ifaddr list \<Rightarrow> nat \<Rightarrow>
    (lua_value \<times> lua_value) list \<Rightarrow> (lua_value \<times> lua_value) list" where
  "ifaddr_loop I ipv4 ipv6 link_local [] n t = t"
| "ifaddr_loop I ipv4 ipv6 link_local (a # as) n t =
     (case ifaddr_text I ipv4 ipv6 link_local a of
        Some tmp \<Rightarrow> ifaddr_loop I ipv4 ipv6 link_local as (n + 1) (t @ [(LNumber (of_nat n), LString tmp)])
      | None \<Rightarrow> ifaddr_loop I ipv4 ipv6 link_local as n t)"

text \<open>\<open>ifs\<close> is the result of \<open>getifaddrs\<close>: the interfaces, or \<open>errno\<close>. Its message is formatted
  with the number of the error.\<close>

definition lc_local_addresses :: "host \<Rightarrow> inet \<Rightarrow> int + ifaddr list \<Rightarrow> lua_args \<Rightarrow> lua_value list cres" where
  "lc_local_addresses H I ifs L =
    cbind (luaL_checkoption H L 1 ''both'' type_strings) (\<lambda>type.
      let link_local = lua_toboolean (lua_arg L 2);
          ipv4 = (type = 0 \<or> type = 1);
          ipv6 = (type = 0 \<or> type = 2)
      in case ifs of
           Inl errno \<Rightarrow> Ret [LNil, LString (bs ''getifaddrs failed ('' @ num2str H (of_int errno) @ bs ''): '' @ strerror H errno)]
         | Inr addrs \<Rightarrow> Ret [LTable (ifaddr_loop I ipv4 ipv6 link_local addrs 1 [])])"

text \<open>The Windows build does not ask the system: it answers with the wildcard addresses.\<close>

definition lc_local_addresses_win32 :: "host \<Rightarrow> lua_args \<Rightarrow> lua_value list cres" where
  "lc_local_addresses_win32 H L =
    cbind (luaL_checkoption H L 1 ''both'' type_strings) (\<lambda>type.
      let ipv4 = (type = 0 \<or> type = 1);
          ipv6 = (type = 0 \<or> type = 2);
          n = (1 :: nat);
          (t, n) = (if ipv4 then ([(LNumber (of_nat n), LString (bs ''0.0.0.0''))], n + 1) else ([], n));
          t = (if ipv6 then t @ [(LNumber (of_nat n), LString (bs ''::''))] else t)
      in Ret [LTable t])"

section \<open>Text and bytes\<close>

definition lc_pton :: "host \<Rightarrow> inet \<Rightarrow> lua_args \<Rightarrow> lua_value list cres" where
  "lc_pton H I L =
    cbind (luaL_checkstring H L 1) (\<lambda>ipaddr.
      let family = (if 0x3a \<in> set ipaddr then AF_INET6 else AF_INET);
          (ret, buf, errno) = inet_pton I family ipaddr
      in if ret = 1 then cbind (mem_slice buf 0 (if family = AF_INET6 then 16 else 4)) (\<lambda>s. Ret [LString s])
         else if ret = - 1 then Ret (push_errno H errno)
         else Ret (push_errno H EINVAL))"

definition lc_ntop :: "host \<Rightarrow> inet \<Rightarrow> lua_args \<Rightarrow> lua_value list cres" where
  "lc_ntop H I L =
    cbind (luaL_checklstring H L 1) (\<lambda>ipaddr.
      if length ipaddr = 16 \<or> length ipaddr = 4 then
        let family = (if length ipaddr = 16 then AF_INET6 else AF_INET) in
        case inet_ntop I family ipaddr of
          (None, errno) \<Rightarrow> Ret (push_errno H errno)
        | (Some text, errno) \<Rightarrow> Ret [LString text]
      else Ret (push_errno H EAFNOSUPPORT))"

section \<open>Reference\<close>

text \<open>The ranges the code means: 169.254.0.0/16 and fe80::/10 are link-local, ::ffff:0:0/96 is
  IPv4-mapped and ::/96 without :: and ::1 is IPv4-compatible.\<close>

definition fe80_10 :: "byte list \<Rightarrow> bool" where
  "fe80_10 b \<longleftrightarrow> (256 * unat (b ! 0) + unat (b ! 1)) div 64 = 0xfe80 div 64"

fun listed :: "string \<Rightarrow> bool \<Rightarrow> sockaddr \<Rightarrow> bool" where
  "listed t link_local (Inet b) \<longleftrightarrow> t \<in> {''both'', ''ipv4''} \<and> (link_local \<or> take 2 b \<noteq> [169, 254])"
| "listed t link_local (Inet6 b) \<longleftrightarrow> t \<in> {''both'', ''ipv6''} \<and> (link_local \<or> \<not> fe80_10 b) \<and>
     take 12 b \<noteq> replicate 10 0 @ [0xff, 0xff] \<and>
     (take 12 b = replicate 12 0 \<longrightarrow> drop 12 b \<in> {[0, 0, 0, 0], [0, 0, 0, 1]})"
| "listed t link_local (OtherFamily f) \<longleftrightarrow> False"

fun addr_ok :: "sockaddr \<Rightarrow> bool" where
  "addr_ok (Inet b) \<longleftrightarrow> length b = 4"
| "addr_ok (Inet6 b) \<longleftrightarrow> length b = 16"
| "addr_ok (OtherFamily f) \<longleftrightarrow> True"

fun addr_text :: "inet \<Rightarrow> sockaddr \<Rightarrow> byte list option" where
  "addr_text I (Inet b) = fst (inet_ntop I AF_INET b)"
| "addr_text I (Inet6 b) = fst (inet_ntop I AF_INET6 b)"
| "addr_text I (OtherFamily f) = None"

text \<open>The addresses of interfaces that are up for listing, in order.\<close>

definition candidates :: "ifaddr list \<Rightarrow> sockaddr list" where
  "candidates as = map (\<lambda>a. the (ifa_addr a)) (filter (\<lambda>a. ifa_addr a \<noteq> None \<and> \<not> ifa_loopback a) as)"

definition listed_texts :: "inet \<Rightarrow> string \<Rightarrow> bool \<Rightarrow> ifaddr list \<Rightarrow> byte list list" where
  "listed_texts I t link_local as =
     concat (map (\<lambda>x. case addr_text I x of Some s \<Rightarrow> [s] | None \<Rightarrow> []) (filter (listed t link_local) (candidates as)))"

definition lua_array :: "byte list list \<Rightarrow> lua_value" where
  "lua_array xs = LTable (zip (map (\<lambda>i. LNumber (of_nat i)) [1..<Suc (length xs)]) (map LString xs))"

section \<open>Address classes\<close>

lemma bytes_htonl: "htonl (quad_of_bytes a b c d) = quad_of_bytes d c b a"
  by (simp add: htonl_def bytes_of_quad_of_bytes)

lemma ip4_constants: "ip4_linklocal = quad_of_bytes 169 254 0 0" "ip4_mask = quad_of_bytes 0xff 0xff 0 0"
proof -
  have e: "(0xa9fe0000 :: uint32) = quad_of_bytes 0 0 254 169" "(0xffff0000 :: uint32) = quad_of_bytes 0 0 0xff 0xff"
    by (simp_all add: quad_of_bytes_def)
  show "ip4_linklocal = quad_of_bytes 169 254 0 0" unfolding ip4_linklocal_def e(1) bytes_htonl by (rule refl)
  show "ip4_mask = quad_of_bytes 0xff 0xff 0 0" unfolding ip4_mask_def e(2) bytes_htonl by (rule refl)
qed

lemma quad_inject: "quad_of_bytes a b c d = quad_of_bytes a' b' c' d' \<longleftrightarrow> a = a' \<and> b = b' \<and> c = c' \<and> d = d'"
proof
  assume "quad_of_bytes a b c d = quad_of_bytes a' b' c' d'"
  then have "bytes_of_quad (quad_of_bytes a b c d) = bytes_of_quad (quad_of_bytes a' b' c' d')" by (rule arg_cong)
  then show "a = a' \<and> b = b' \<and> c = c' \<and> d = d'" unfolding bytes_of_quad_of_bytes by simp
qed simp

lemma quad_and:
  "quad_of_bytes a b c d AND quad_of_bytes a' b' c' d' =
    quad_of_bytes (a AND a') (b AND b') (c AND c') (d AND d')"
  by (rule bit_word_eqI) (simp add: bit_quad_of_bytes bit_and_iff)

lemma and_0xff: "(a :: byte) AND 0xff = a"
proof -
  have "(0xff :: byte) = - 1" by simp
  then show ?thesis by (simp only: and.right_neutral)
qed

lemma is_ip4_linklocal_iff: "length b = 4 \<Longrightarrow> is_ip4_linklocal b \<longleftrightarrow> take 2 b = [169, 254]"
  unfolding is_ip4_linklocal_def s_addr_def ip4_constants quad_and quad_inject and_0xff
  by (auto simp: take_Suc_conv_app_nth numeral_2_eq_2)

lemma in6_v4mapped_iff: "length b = 16 \<Longrightarrow> in6_v4mapped b \<longleftrightarrow> take 12 b = replicate 10 0 @ [0xff, 0xff]"
proof -
  assume "length b = 16"
  then have "take 12 b = take 10 b @ [b ! 10, b ! 11]"
    by (simp add: take_Suc_conv_app_nth numeral_eq_Suc)
  then show ?thesis by (auto simp: in6_v4mapped_def)
qed

lemma quad_le_1: "quad_of_bytes d c b a > 1 \<longleftrightarrow> \<not> (a = 0 \<and> b = 0 \<and> c = 0 \<and> (d = 0 \<or> d = 1))"
proof -
  have z: "(0 :: uint32) = quad_of_bytes 0 0 0 0" and i: "(1 :: uint32) = quad_of_bytes 1 0 0 0"
    by (simp_all add: quad_of_bytes_def)
  have "quad_of_bytes d c b a = 0 \<longleftrightarrow> a = 0 \<and> b = 0 \<and> c = 0 \<and> d = 0" unfolding z quad_inject by blast
  moreover have "quad_of_bytes d c b a = 1 \<longleftrightarrow> a = 0 \<and> b = 0 \<and> c = 0 \<and> d = 1" unfolding i quad_inject by blast
  moreover have "w > 1 \<longleftrightarrow> \<not> (w = 0 \<or> w = 1)" for w :: uint32
  proof -
    have "unat w > 1 \<longleftrightarrow> \<not> (unat w = 0 \<or> unat w = 1)" by linarith
    then show ?thesis by (simp add: word_less_nat_alt word_unat_eq_iff)
  qed
  ultimately show ?thesis by blast
qed

lemma in6_v4compat_iff:
  assumes "length b = 16"
  shows "in6_v4compat b \<longleftrightarrow> take 12 b = replicate 12 0 \<and> drop 12 b \<notin> {[0, 0, 0, 0], [0, 0, 0, 1]}"
proof -
  have "drop 12 b = [b ! 12, b ! 13, b ! 14, b ! 15]"
    using assms by (simp flip: Cons_nth_drop_Suc)
  then show ?thesis by (auto simp: in6_v4compat_def bytes_htonl quad_le_1)
qed

lemma in6_linklocal_iff: "in6_linklocal b \<longleftrightarrow> fe80_10 b"
proof -
  have c0: "x AND 0xc0 = push_bit 6 (drop_bit 6 x)" for x :: byte
  proof -
    have m: "(0xc0 :: byte) = push_bit 6 (mask 2)" by (simp add: mask_eq_exp_minus_1)
    show ?thesis unfolding m by (intro bit_word_eqI) (auto simp: bit_simps dest: bit_imp_le_length)
  qed
  have "unat (push_bit 6 (drop_bit 6 x)) = unat x div 64 * 64" for x :: byte
  proof -
    have "unat x div 64 < 4" using unat_byte [of x] by (simp add: div_less_iff_less_mult del: unat_byte)
    then show ?thesis by (subst unat_push_bit) (simp_all add: unat_drop_bit)
  qed
  then have "x AND 0xc0 = 0x80 \<longleftrightarrow> unat x div 64 = 2" for x :: byte
    by (auto simp: c0 word_unat_eq_iff)
  moreover have "a = 0xfe \<longleftrightarrow> unat a = 254" for a :: byte by (simp add: word_unat_eq_iff)
  moreover have "(256 * x + y) div 64 = 1018 \<longleftrightarrow> x = 254 \<and> y div 64 = 2" if "y < 256" for x y :: nat
  proof -
    have "(256 * x + y) div 64 = 4 * x + y div 64" by simp
    moreover have "y div 64 < 4" using that by (simp add: div_less_iff_less_mult)
    moreover have "4 * x + d = 1018 \<longleftrightarrow> x = 254 \<and> d = 2" if "d < 4" for d :: nat using that by presburger
    ultimately show ?thesis by simp
  qed
  ultimately show ?thesis by (simp add: in6_linklocal_def fe80_10_def)
qed

section \<open>Listing\<close>

lemma ifaddr_text_listed:
  assumes "ifa_addr a = Some x" and "\<not> ifa_loopback a" and "addr_ok x" and "i < 3"
  shows "ifaddr_text I (i = 0 \<or> i = 1) (i = 0 \<or> i = 2) link_local a =
    (if listed (type_strings ! i) link_local x then addr_text I x else None)"
proof -
  from assms(4) consider "i = 0" | "i = 1" | "i = 2" by linarith
  then show ?thesis
    using assms(1-3)
    by cases (cases x; simp add: ifaddr_text_def type_strings_def is_ip4_linklocal_iff in6_linklocal_iff
        in6_v4mapped_iff in6_v4compat_iff; blast)+
qed

lemma ifaddr_text_skipped: "ifa_addr a = None \<or> ifa_loopback a \<Longrightarrow> ifaddr_text I v4 v6 l a = None"
  by (auto simp: ifaddr_text_def split: option.splits)

lemma ifaddr_loop_texts:
  "ifaddr_loop I v4 v6 l as n t =
    t @ zip (map (\<lambda>i. LNumber (of_nat i)) [n..<n + length (List.map_filter (ifaddr_text I v4 v6 l) as)])
      (map LString (List.map_filter (ifaddr_text I v4 v6 l) as))"
proof (induction as arbitrary: n t)
  case (Cons a as)
  then show ?case
    by (cases "ifaddr_text I v4 v6 l a") (simp_all add: upt_conv_Cons del: upt_Suc)
qed simp

lemma map_filter_listed:
  assumes "\<forall>a \<in> set as. \<forall>x. ifa_addr a = Some x \<longrightarrow> addr_ok x" and "i < 3"
  shows "List.map_filter (ifaddr_text I (i = 0 \<or> i = 1) (i = 0 \<or> i = 2) link_local) as =
    listed_texts I (type_strings ! i) link_local as"
  using assms(1)
proof (induction as)
  case (Cons a as)
  show ?case
  proof (cases "ifa_addr a = None \<or> ifa_loopback a")
    case True
    with Cons show ?thesis by (auto simp: ifaddr_text_skipped listed_texts_def candidates_def)
  next
    case False
    then obtain x where x: "ifa_addr a = Some x" "\<not> ifa_loopback a" by auto
    with Cons.prems have "addr_ok x" by auto
    from ifaddr_text_listed [OF x this assms(2)] x Cons show ?thesis
      by (auto simp: listed_texts_def candidates_def split: option.splits)
  qed
qed (simp add: listed_texts_def candidates_def)

text \<open>C20: \<open>local_addresses\<close> returns an array, numbered from 1 without gaps, of the texts of exactly the
  addresses asked for, in the order of the interfaces: not those of loopback interfaces, not the
  link-local ranges unless asked for, and no IPv4-mapped or IPv4-compatible IPv6 addresses.\<close>

theorem local_addresses_listed:
  assumes "i < 3" and "\<forall>a \<in> set as. \<forall>x. ifa_addr a = Some x \<longrightarrow> addr_ok x"
  shows "lc_local_addresses H I (Inr as) [LString (bs (type_strings ! i)), LBool link_local] =
    Ret [lua_array (listed_texts I (type_strings ! i) link_local as)]"
proof -
  have opt: "luaL_checkoption H [LString (bs (type_strings ! i)), LBool link_local] 1 ''both'' type_strings = Ret i"
  proof (rule checkoption_named)
    show "CHR 0x00 \<notin> set (type_strings ! i)"
      using assms(1) nth_mem [of i type_strings] by (auto simp: type_strings_def)
  qed (use assms(1) in \<open>simp_all add: type_strings_def lua_arg_def\<close>)
  have ll: "lua_toboolean (lua_arg [LString (bs (type_strings ! i)), LBool link_local] 2) = link_local"
    by (simp add: lua_arg_def)
  show ?thesis
    unfolding lc_local_addresses_def opt cbind.simps Let_def ll sum.case ifaddr_loop_texts
      map_filter_listed [OF assms(2,1)] lua_array_def by simp
qed

text \<open>An address converted to text by \<open>ntop\<close> is converted back to the same bytes by \<open>pton\<close>,
  which finds the family again from the colon, given that \<open>inet_pton\<close> reads what \<open>inet_ntop\<close> wrote.\<close>

theorem ntop_pton:
  assumes "length b = 4 \<or> length b = 16"
    and "inet_ntop I (if length b = 16 then AF_INET6 else AF_INET) b = (Some t, e)"
    and "0 \<notin> set t" and "0x3a \<in> set t \<longleftrightarrow> length b = 16"
    and "inet_pton I (if length b = 16 then AF_INET6 else AF_INET) t = (1, b, e')"
  shows "cbind (lc_ntop H I [LString b]) (lc_pton H I) = Ret [LString b]"
  using assms by (auto simp: lc_ntop_def lc_pton_def lua_api cstr_id mem_slice_def)

text \<open>An example of the conversions, for one address of each family.\<close>

definition example_inet :: inet where
  "example_inet = \<lparr>
     inet_ntop = (\<lambda>f b. (Some (if f = AF_INET6 then bs ''fe80::1'' else bs ''192.0.2.1''), 0)),
     inet_pton = (\<lambda>f t. (1, (if f = AF_INET6 then [0xfe, 0x80] @ replicate 13 0 @ [1] else [192, 0, 2, 1]), 0))\<rparr>"

theorem ntop_pton_witness:
  "cbind (lc_ntop plain_host example_inet [LString [192, 0, 2, 1]]) (lc_pton plain_host example_inet) =
    Ret [LString [192, 0, 2, 1]]"
  using ntop_pton [of "[192, 0, 2, 1]" example_inet "bs ''192.0.2.1''" 0 0 plain_host]
  by (simp add: example_inet_def bs_def)

theorem local_addresses_listed_witness:
  "lc_local_addresses plain_host example_inet
     (Inr [\<lparr>ifa_addr = Some (Inet [127, 0, 0, 1]), ifa_loopback = True\<rparr>,
           \<lparr>ifa_addr = Some (Inet [169, 254, 3, 4]), ifa_loopback = False\<rparr>,
           \<lparr>ifa_addr = Some (Inet [192, 0, 2, 1]), ifa_loopback = False\<rparr>])
     [LString (bs (type_strings ! 0)), LBool False] = Ret [LTable [(LNumber 1, LString (bs ''192.0.2.1''))]]"
  using local_addresses_listed [of 0
     "[\<lparr>ifa_addr = Some (Inet [127, 0, 0, 1]), ifa_loopback = True\<rparr>,
       \<lparr>ifa_addr = Some (Inet [169, 254, 3, 4]), ifa_loopback = False\<rparr>,
       \<lparr>ifa_addr = Some (Inet [192, 0, 2, 1]), ifa_loopback = False\<rparr>]" plain_host example_inet False]
  by (simp add: type_strings_def listed_texts_def candidates_def example_inet_def lua_array_def)

text \<open>On Windows the array has one wildcard address for each family asked for.\<close>

lemma local_addresses_win32:
  assumes "type \<in> {''both'', ''ipv4'', ''ipv6''}"
  shows "lc_local_addresses_win32 H [LString (bs type)] =
    Ret [lua_array (if type = ''both'' then [bs ''0.0.0.0'', bs ''::''] else if type = ''ipv4'' then [bs ''0.0.0.0''] else [bs ''::''])]"
proof -
  obtain i where i: "i < length type_strings" "type = type_strings ! i"
    using assms by (auto simp: type_strings_def intro: that [of 0] that [of 1] that [of 2])
  then have "luaL_checkoption H [LString (bs type)] 1 ''both'' type_strings = Ret i"
    by (intro checkoption_named) (auto simp: type_strings_def lua_arg_def less_Suc_eq nth_Cons' split: if_splits)
  moreover have "i = 0 \<or> i = 1 \<or> i = 2" using i(1) by (auto simp: type_strings_def)
  ultimately show ?thesis
    using i(2) by (auto simp: lc_local_addresses_win32_def type_strings_def lua_array_def)
qed

end
