(* ===== verification/PposixSyslog.thy ===== *)
theory PposixSyslog
  imports LuaApi
begin

text \<open>
  The syslog functions of \<open>util-src/pposix.c\<close>. The C library keeps the pointer to the identity
  string that \<open>openlog\<close> was given, so the module owns a copy whose lifetime matters: copies live in
  a heap of addresses, and reading a released one is undefined. The log is the list of messages that
  pass the mask.
\<close>

section \<open>Tables\<close>

definition facility_strings :: "string list" where
  "facility_strings = [''auth'', ''authpriv'', ''cron'', ''daemon'', ''ftp'', ''kern'', ''local0'', ''local1'',
    ''local2'', ''local3'', ''local4'', ''local5'', ''local6'', ''local7'', ''lpr'', ''mail'', ''syslog'',
    ''user'', ''uucp'']"

text \<open>The facilities of \<open>syslog.h\<close> by name.\<close>

definition LOG_KERN :: int where "LOG_KERN = 0 * 8"
definition LOG_USER :: int where "LOG_USER = 1 * 8"
definition LOG_MAIL :: int where "LOG_MAIL = 2 * 8"
definition LOG_DAEMON :: int where "LOG_DAEMON = 3 * 8"
definition LOG_AUTH :: int where "LOG_AUTH = 4 * 8"
definition LOG_SYSLOG :: int where "LOG_SYSLOG = 5 * 8"
definition LOG_LPR :: int where "LOG_LPR = 6 * 8"
definition LOG_NEWS :: int where "LOG_NEWS = 7 * 8"
definition LOG_UUCP :: int where "LOG_UUCP = 8 * 8"
definition LOG_CRON :: int where "LOG_CRON = 9 * 8"
definition LOG_AUTHPRIV :: int where "LOG_AUTHPRIV = 10 * 8"
definition LOG_FTP :: int where "LOG_FTP = 11 * 8"
definition LOG_LOCAL :: "nat \<Rightarrow> int" where "LOG_LOCAL i = (16 + int i) * 8"

lemmas facility_defs = LOG_KERN_def LOG_USER_def LOG_MAIL_def LOG_DAEMON_def LOG_AUTH_def LOG_SYSLOG_def
  LOG_LPR_def LOG_NEWS_def LOG_UUCP_def LOG_CRON_def LOG_AUTHPRIV_def LOG_FTP_def LOG_LOCAL_def

definition facility_constants :: "int list" where
  "facility_constants = [LOG_AUTH, LOG_AUTHPRIV, LOG_CRON, LOG_DAEMON, LOG_FTP, LOG_KERN, LOG_LOCAL 0, LOG_LOCAL 1,
    LOG_LOCAL 2, LOG_LOCAL 3, LOG_LOCAL 4, LOG_LOCAL 5, LOG_LOCAL 6, LOG_LOCAL 7, LOG_LPR, LOG_MAIL, LOG_NEWS,
    LOG_SYSLOG, LOG_USER, LOG_UUCP, - 1]"

definition level_strings :: "string list" where
  "level_strings = [''debug'', ''info'', ''notice'', ''warn'', ''error'']"

definition LOG_CRIT :: int where "LOG_CRIT = 2"
definition LOG_WARNING :: int where "LOG_WARNING = 4"
definition LOG_NOTICE :: int where "LOG_NOTICE = 5"
definition LOG_INFO :: int where "LOG_INFO = 6"
definition LOG_DEBUG :: int where "LOG_DEBUG = 7"

lemmas level_defs = LOG_CRIT_def LOG_WARNING_def LOG_NOTICE_def LOG_INFO_def LOG_DEBUG_def

definition level_constants :: "int list" where
  "level_constants = [LOG_DEBUG, LOG_INFO, LOG_NOTICE, LOG_WARNING, LOG_CRIT, - 1]"

section \<open>State\<close>

text \<open>\<open>syslog_ident\<close> is the module's global, \<open>log_tag\<close> the pointer the C library holds; \<open>heap\<close> maps
  live addresses to their strings and \<open>fresh\<close> is the next address.\<close>

record syslog_message =
  msg_level :: int
  msg_facility :: int
  msg_tag :: "byte list option"    \<comment> \<open>\<open>None\<close>: the name of the program\<close>
  msg_text :: "byte list"

record syslog_state =
  syslog_ident :: "nat option"
  log_tag :: "nat option"
  log_facility :: int
  log_mask :: int
  heap :: "nat \<rightharpoonup> byte list"
  fresh :: nat
  log_sent :: "syslog_message list"

definition syslog_initial :: syslog_state where
  "syslog_initial = \<lparr>syslog_ident = None, log_tag = None, log_facility = LOG_USER, log_mask = 255,
     heap = Map.empty, fresh = 1, log_sent = []\<rparr>"

section \<open>Calls that change the state and may fail\<close>

text \<open>A call returns its outcome and the state it leaves behind, which the program goes on with also
  after an error that it caught.\<close>

type_synonym 'a sys_call = "syslog_state \<Rightarrow> 'a cres \<times> syslog_state"

definition sbind :: "'a sys_call \<Rightarrow> ('a \<Rightarrow> 'b sys_call) \<Rightarrow> 'b sys_call" where
  "sbind m f s = (case m s of
     (Ret x, s') \<Rightarrow> f x s'
   | (Raise e, s') \<Rightarrow> (Raise e, s')
   | (Undef u, s') \<Rightarrow> (Undef u, s'))"

definition slift :: "'a cres \<Rightarrow> 'a sys_call" where
  "slift c s = (c, s)"

text \<open>\<open>free\<close>, and \<open>strdup\<close>, which returns a null pointer when it gets no memory.\<close>

definition c_free :: "nat \<Rightarrow> unit sys_call" where
  "c_free p s = (if heap s p = None then (Undef UseAfterFree, s) else (Ret (), s\<lparr>heap := (heap s)(p := None)\<rparr>))"

definition c_strdup :: "bool \<Rightarrow> byte list \<Rightarrow> nat option sys_call" where
  "c_strdup alloc t s =
    (if alloc then (Ret (Some (fresh s)), s\<lparr>heap := (heap s)(fresh s \<mapsto> t), fresh := fresh s + 1\<rparr>)
     else (Ret None, s))"

text \<open>\<open>syslog(3)\<close>: the message is sent with the tag the library holds, if the mask has its level.\<close>

definition c_syslog :: "int \<Rightarrow> byte list \<Rightarrow> unit sys_call" where
  "c_syslog level text s =
    (if bit (log_mask s) (nat level) then
       sbind (slift (case log_tag s of
           None \<Rightarrow> Ret None
         | Some p \<Rightarrow> (case heap s p of None \<Rightarrow> Undef UseAfterFree | Some t \<Rightarrow> Ret (Some t)))) (\<lambda>tag s.
         (Ret (), s\<lparr>log_sent := log_sent s @
           [\<lparr>msg_level = level, msg_facility = log_facility s, msg_tag = tag, msg_text = text\<rparr>]\<rparr>)) s
     else (Ret (), s))"

section \<open>Operations\<close>

text \<open>\<open>alloc\<close> tells whether \<open>strdup\<close> gets its memory.\<close>

definition lc_syslog_open :: "host \<Rightarrow> bool \<Rightarrow> lua_args \<Rightarrow> lua_value list sys_call" where
  "lc_syslog_open H alloc L =
    sbind (slift (luaL_checkoption H L 2 ''daemon'' facility_strings)) (\<lambda>facility.
    sbind (slift (mem_at facility_constants facility)) (\<lambda>facility.
    sbind (slift (luaL_checkstring H L 1)) (\<lambda>ident.
    sbind (\<lambda>s. case syslog_ident s of None \<Rightarrow> (Ret (), s) | Some p \<Rightarrow> c_free p s) (\<lambda>_.
    sbind (c_strdup alloc ident) (\<lambda>p s.
      let s = s\<lparr>syslog_ident := p\<rparr>;
          s = s\<lparr>log_tag := p, log_facility := facility\<rparr>
      in (Ret [], s))))))"

definition lc_syslog_log :: "host \<Rightarrow> lua_args \<Rightarrow> lua_value list sys_call" where
  "lc_syslog_log H L =
    sbind (slift (luaL_checkoption H L 1 ''notice'' level_strings)) (\<lambda>i.
    sbind (slift (mem_at level_constants i)) (\<lambda>level.
      if length L = 3 then
        sbind (slift (luaL_checkstring H L 2)) (\<lambda>a.
        sbind (slift (luaL_checkstring H L 3)) (\<lambda>b.
        sbind (c_syslog level (a @ bs '': '' @ b)) (\<lambda>_. slift (Ret []))))
      else
        (case lua_tostring H (lua_arg L 2) of
           None \<Rightarrow> slift (Undef NullDeref)
         | Some t \<Rightarrow> sbind (c_syslog level (cstr t)) (\<lambda>_. slift (Ret [])))))"

definition lc_syslog_close :: "lua_value list sys_call" where
  "lc_syslog_close s =
    (let s = s\<lparr>log_tag := None\<rparr> in
     case syslog_ident s of
       None \<Rightarrow> (Ret [], s)
     | Some p \<Rightarrow> sbind (c_free p) (\<lambda>_ s. (Ret [], s\<lparr>syslog_ident := None\<rparr>)) s)"

text \<open>The loop of \<open>lc_syslog_setmask\<close>: \<open>LOG_MASK(l)\<close> is \<open>1 << l\<close>.\<close>

function mask_loop :: "nat \<Rightarrow> int \<Rightarrow> int cres" where
  "mask_loop level_idx m =
    cbind (mem_at level_constants level_idx) (\<lambda>l.
    cbind (if l < 0 \<or> 31 < l then Undef BadShift else Ret (m OR push_bit (nat l) 1)) (\<lambda>m.
      if level_idx + 1 \<le> 4 then mask_loop (level_idx + 1) m else Ret m))"
  by pat_completeness auto
termination
  by (relation "measure (\<lambda>(i, m). 5 - i)") auto

declare mask_loop.simps [simp del]

definition lc_syslog_setmask :: "host \<Rightarrow> lua_args \<Rightarrow> lua_value list sys_call" where
  "lc_syslog_setmask H L =
    sbind (slift (luaL_checkoption H L 1 ''notice'' level_strings)) (\<lambda>level_idx.
    sbind (slift (mask_loop level_idx 0)) (\<lambda>mask s.
      (Ret [], if mask = 0 then s else s\<lparr>log_mask := mask\<rparr>)))"

section \<open>Lifetime of the identity\<close>

datatype syslog_op = SysOpen bool lua_args | SysLog lua_args | SysClose | SysMask lua_args

fun syslog_step :: "host \<Rightarrow> syslog_op \<Rightarrow> lua_value list sys_call" where
  "syslog_step H (SysOpen alloc L) = lc_syslog_open H alloc L"
| "syslog_step H (SysLog L) = lc_syslog_log H L"
| "syslog_step H SysClose = lc_syslog_close"
| "syslog_step H (SysMask L) = lc_syslog_setmask H L"

text \<open>Calls in a program that catches every error and goes on; undefined behaviour ends it.\<close>

fun syslog_run :: "host \<Rightarrow> syslog_op list \<Rightarrow> syslog_state \<Rightarrow> lua_value list cres list \<times> syslog_state" where
  "syslog_run H [] s = ([], s)"
| "syslog_run H (x # xs) s =
    (case syslog_step H x s of
       (Undef u, s') \<Rightarrow> ([Undef u], s')
     | (r, s') \<Rightarrow> (case syslog_run H xs s' of (rs, s'') \<Rightarrow> (r # rs, s'')))"

text \<open>The library's tag is the module's identity, which is live; addresses from \<open>fresh\<close> on are
  unused.\<close>

definition syslog_wf :: "syslog_state \<Rightarrow> bool" where
  "syslog_wf s \<longleftrightarrow> log_tag s = syslog_ident s \<and>
     dom (heap s) = (case syslog_ident s of None \<Rightarrow> {} | Some p \<Rightarrow> {p}) \<and> (\<forall>p \<in> dom (heap s). p < fresh s)"

lemma syslog_initial_wf: "syslog_wf syslog_initial"
  by (simp add: syslog_wf_def syslog_initial_def)

text \<open>A call that starts in a state with \<open>P\<close> ends well-formed, also after an error, and in a state with
  \<open>Q\<close> when it returns; its only undefined behaviour is a null pointer.\<close>

definition keeps :: "(syslog_state \<Rightarrow> bool) \<Rightarrow> 'a sys_call \<Rightarrow> ('a \<Rightarrow> syslog_state \<Rightarrow> bool) \<Rightarrow> bool" where
  "keeps P m Q \<longleftrightarrow> (\<forall>s. P s \<longrightarrow> (case m s of
     (Ret x, s') \<Rightarrow> Q x s' | (Raise e, s') \<Rightarrow> syslog_wf s' | (Undef u, s') \<Rightarrow> syslog_wf s' \<and> u = NullDeref))"

lemma keeps_bind: "keeps P m Q \<Longrightarrow> (\<And>x. keeps (Q x) (f x) R) \<Longrightarrow> keeps P (sbind m f) R"
  unfolding keeps_def
proof (intro allI impI)
  fix s
  assume m: "\<forall>s. P s \<longrightarrow> (case m s of (Ret x, s') \<Rightarrow> Q x s' | (Raise e, s') \<Rightarrow> syslog_wf s'
      | (Undef u, s') \<Rightarrow> syslog_wf s' \<and> u = NullDeref)"
    and f: "\<And>x. \<forall>s. Q x s \<longrightarrow> (case f x s of (Ret x, s') \<Rightarrow> R x s' | (Raise e, s') \<Rightarrow> syslog_wf s'
      | (Undef u, s') \<Rightarrow> syslog_wf s' \<and> u = NullDeref)"
    and "P s"
  obtain r s' where r: "m s = (r, s')" by fastforce
  with m \<open>P s\<close> have "case r of Ret x \<Rightarrow> Q x s' | Raise e \<Rightarrow> syslog_wf s' | Undef u \<Rightarrow> syslog_wf s' \<and> u = NullDeref"
    by fastforce
  with f r show "case sbind m f s of (Ret x, s') \<Rightarrow> R x s' | (Raise e, s') \<Rightarrow> syslog_wf s'
      | (Undef u, s') \<Rightarrow> syslog_wf s' \<and> u = NullDeref"
    by (cases r) (simp_all add: sbind_def)
qed

lemma keeps_slift:
  assumes "outcome Q (\<lambda>u. u = NullDeref) c"
  shows "keeps syslog_wf (slift c) (\<lambda>x s. syslog_wf s \<and> Q x)"
  using assms by (cases c) (simp_all add: keeps_def slift_def)

lemma keeps_when: "(c \<Longrightarrow> keeps P m Q) \<Longrightarrow> keeps (\<lambda>s. P s \<and> c) m Q"
  by (auto simp: keeps_def)

lemma keeps_check:
  assumes "outcome V (\<lambda>u. u = NullDeref) c" and "\<And>x. V x \<Longrightarrow> keeps syslog_wf (f x) R"
  shows "keeps syslog_wf (sbind (slift c) f) R"
  by (rule keeps_bind [OF keeps_slift [OF assms(1)]], rule keeps_when, rule assms(2))

lemma mask_loop_range:
  "i \<le> 4 \<Longrightarrow> outcome (\<lambda>_. True) (\<lambda>_. False) (mask_loop i m)"
proof (induction i m rule: mask_loop.induct)
  case (1 i m)
  have i: "i = 0 \<or> i = 1 \<or> i = 2 \<or> i = 3 \<or> i = 4" using 1 by linarith
  then have l: "i < length level_constants" "0 \<le> level_constants ! i" "level_constants ! i \<le> 31"
    by (auto simp: level_constants_def level_defs)
  then show ?case
    using 1 by (subst mask_loop.simps) (simp add: mem_at_def l not_less [symmetric])
qed

lemma free_only:
  assumes "dom h = {p}"
  shows "h(p := None) = Map.empty" "\<exists>t. h p = Some t"
proof -
  have "dom (h(p := None)) = {}" using assms by simp
  then show "h(p := None) = Map.empty" by (simp only: dom_eq_empty_conv)
  show "\<exists>t. h p = Some t" using assms by (auto simp: dom_def)
qed

lemma keeps_free:
  "keeps syslog_wf (\<lambda>s. case syslog_ident s of None \<Rightarrow> (Ret (), s) | Some p \<Rightarrow> c_free p s) (\<lambda>_ s. heap s = Map.empty)"
  unfolding keeps_def
proof (intro allI impI)
  fix s assume wf: "syslog_wf s"
  show "case (case syslog_ident s of None \<Rightarrow> (Ret (), s) | Some p \<Rightarrow> c_free p s) of
      (Ret x, s') \<Rightarrow> heap s' = Map.empty | (Raise e, s') \<Rightarrow> syslog_wf s' | (Undef u, s') \<Rightarrow> syslog_wf s' \<and> u = NullDeref"
  proof (cases "syslog_ident s")
    case (Some p)
    with wf have "dom (heap s) = {p}" by (simp add: syslog_wf_def)
    from free_only [OF this] Some show ?thesis by (auto simp: c_free_def)
  qed (use wf in \<open>simp add: syslog_wf_def\<close>)
qed

lemma keeps_open: "keeps syslog_wf (lc_syslog_open H alloc L) (\<lambda>_. syslog_wf)"
  unfolding lc_syslog_open_def
proof (rule keeps_check [OF outcome_checkoption])
  fix i assume "i < length facility_strings"
  then have "i < length facility_constants" by (simp add: facility_strings_def facility_constants_def)
  then show "keeps syslog_wf (sbind (slift (mem_at facility_constants i)) (\<lambda>facility.
      sbind (slift (luaL_checkstring H L 1)) (\<lambda>ident.
      sbind (\<lambda>s. case syslog_ident s of None \<Rightarrow> (Ret (), s) | Some p \<Rightarrow> c_free p s) (\<lambda>_.
      sbind (c_strdup alloc ident) (\<lambda>p s. let s = s\<lparr>syslog_ident := p\<rparr>;
        s = s\<lparr>log_tag := p, log_facility := facility\<rparr> in (Ret [], s)))))) (\<lambda>_. syslog_wf)"
    by (intro keeps_check [OF outcome_mem_at [where Q = "\<lambda>_. True"]] keeps_check [OF outcome_checkstring [where Q = "\<lambda>_. True"]] keeps_bind [OF keeps_free])
      (auto simp: keeps_def sbind_def c_strdup_def syslog_wf_def Let_def)
qed assumption

lemma keeps_c_syslog: "keeps syslog_wf (c_syslog level msg) (\<lambda>_. syslog_wf)"
  unfolding keeps_def
proof (intro allI impI)
  fix s assume wf: "syslog_wf s"
  have "heap s p \<noteq> None" if "log_tag s = Some p" for p
  proof -
    have "syslog_ident s = Some p" using wf that by (simp add: syslog_wf_def)
    with wf have "dom (heap s) = {p}" by (simp add: syslog_wf_def)
    then show ?thesis by auto
  qed
  then show "case c_syslog level msg s of (Ret x, s') \<Rightarrow> syslog_wf s' | (Raise e, s') \<Rightarrow> syslog_wf s'
      | (Undef u, s') \<Rightarrow> syslog_wf s' \<and> u = NullDeref"
    using wf by (auto simp: c_syslog_def sbind_def slift_def syslog_wf_def split: option.splits)
qed

lemma keeps_send: "keeps syslog_wf (sbind (c_syslog level msg) (\<lambda>_. slift (Ret []))) (\<lambda>_. syslog_wf)"
  by (rule keeps_bind [OF keeps_c_syslog]) (simp add: keeps_def slift_def)

lemma keeps_log: "keeps syslog_wf (lc_syslog_log H L) (\<lambda>_. syslog_wf)"
  unfolding lc_syslog_log_def
proof (rule keeps_check [OF outcome_checkoption])
  fix i assume "i < length level_strings"
  then have "i < length level_constants" by (simp add: level_strings_def level_constants_def)
  moreover have "keeps syslog_wf (slift (Undef NullDeref)) (\<lambda>_. syslog_wf)" by (simp add: keeps_def slift_def)
  ultimately show "keeps syslog_wf (sbind (slift (mem_at level_constants i)) (\<lambda>level.
      if length L = 3 then
        sbind (slift (luaL_checkstring H L 2)) (\<lambda>a. sbind (slift (luaL_checkstring H L 3)) (\<lambda>b.
        sbind (c_syslog level (a @ bs '': '' @ b)) (\<lambda>_. slift (Ret []))))
      else (case lua_tostring H (lua_arg L 2) of
           None \<Rightarrow> slift (Undef NullDeref)
         | Some t \<Rightarrow> sbind (c_syslog level (cstr t)) (\<lambda>_. slift (Ret []))))) (\<lambda>_. syslog_wf)"
    by (cases "length L = 3"; cases "lua_tostring H (lua_arg L 2)")
      (auto intro!: keeps_check [OF outcome_mem_at [where Q = "\<lambda>_. True"]] keeps_check [OF outcome_checkstring [where Q = "\<lambda>_. True"]] keeps_send)
qed assumption

lemma keeps_setmask: "keeps syslog_wf (lc_syslog_setmask H L) (\<lambda>_. syslog_wf)"
  unfolding lc_syslog_setmask_def
proof (rule keeps_check [OF outcome_checkoption])
  fix i assume "i < length level_strings"
  then have "i \<le> 4" by (simp add: level_strings_def)
  from mask_loop_range [OF this, of 0]
  have "outcome (\<lambda>_. True) (\<lambda>u. u = NullDeref) (mask_loop i 0)" by (cases "mask_loop i 0") simp_all
  then show "keeps syslog_wf (sbind (slift (mask_loop i 0)) (\<lambda>mask s.
      (Ret [], if mask = 0 then s else s\<lparr>log_mask := mask\<rparr>))) (\<lambda>_. syslog_wf)"
    by (rule keeps_check) (simp add: keeps_def syslog_wf_def)
qed assumption

lemma keeps_close: "keeps syslog_wf lc_syslog_close (\<lambda>_. syslog_wf)"
  unfolding keeps_def
proof (intro allI impI)
  fix s assume wf: "syslog_wf s"
  show "case lc_syslog_close s of (Ret x, s') \<Rightarrow> syslog_wf s' | (Raise e, s') \<Rightarrow> syslog_wf s'
      | (Undef u, s') \<Rightarrow> syslog_wf s' \<and> u = NullDeref"
  proof (cases "syslog_ident s")
    case (Some p)
    with wf have "dom (heap s) = {p}" by (simp add: syslog_wf_def)
    from free_only [OF this] Some show ?thesis
      by (auto simp: lc_syslog_close_def c_free_def sbind_def syslog_wf_def Let_def)
  qed (use wf in \<open>simp add: lc_syslog_close_def syslog_wf_def Let_def\<close>)
qed

lemma keeps_step: "keeps syslog_wf (syslog_step H x) (\<lambda>_. syslog_wf)"
  by (cases x) (simp_all add: keeps_open keeps_log keeps_close keeps_setmask)

lemma step_wf:
  assumes "syslog_wf s" and "syslog_step H x s = (r, s')"
  shows "syslog_wf s'" "r = Undef u \<Longrightarrow> u = NullDeref"
  using keeps_step [of H x, unfolded keeps_def, rule_format, OF assms(1)] unfolding assms(2) by (cases r; simp)+

lemma syslog_run_wf:
  "syslog_wf s \<Longrightarrow> syslog_wf (snd (syslog_run H xs s)) \<and> (\<forall>u. Undef u \<in> set (fst (syslog_run H xs s)) \<longrightarrow> u = NullDeref)"
proof (induction xs arbitrary: s)
  case (Cons x xs)
  obtain r s' where step: "syslog_step H x s = (r, s')" by fastforce
  note wf = step_wf [OF Cons.prems step]
  show ?case
  proof (cases r)
    case (Undef u)
    with step wf show ?thesis by simp
  next
    case (Ret v)
    with step Cons.IH [OF wf(1)] show ?thesis by (simp add: case_prod_beta)
  next
    case (Raise e)
    with step Cons.IH [OF wf(1)] show ?thesis by (simp add: case_prod_beta)
  qed
qed simp

lemma syslog_wfD: "syslog_wf s \<Longrightarrow> log_tag s = syslog_ident s \<and> dom (heap s) = set_option (syslog_ident s)"
  by (cases "syslog_ident s") (simp_all add: syslog_wf_def)


section \<open>Levels\<close>

lemma level_cases: "i < 5 \<Longrightarrow> i = 0 \<or> i = 1 \<or> i = 2 \<or> i = 3 \<or> i = (4 :: nat)"
  by linarith

lemma level_strings_ok:
  "distinct level_strings" "length level_strings = 5" "i < 5 \<Longrightarrow> CHR 0x00 \<notin> set (level_strings ! i)"
  using level_cases [of i] by (auto simp: level_strings_def)

text \<open>The mask that the loop computes from each level on.\<close>

lemma mask_loop_values:
  "mask_loop 0 0 = Ret 0xf4" "mask_loop 1 0 = Ret 0x74" "mask_loop 2 0 = Ret 0x34"
  "mask_loop 3 0 = Ret 0x14" "mask_loop 4 0 = Ret 0x04"
  by (simp_all add: mask_loop.simps mem_at_def level_constants_def level_defs)

definition level_mask :: "nat \<Rightarrow> int" where
  "level_mask i = [0xf4, 0x74, 0x34, 0x14, 0x04] ! i"

lemma mask_loop_level: "i < 5 \<Longrightarrow> mask_loop i 0 = Ret (level_mask i)"
  using level_cases [of i] mask_loop_values by (auto simp: level_mask_def)

lemma level_mask_bit: "i < 5 \<Longrightarrow> j < 5 \<Longrightarrow> bit (level_mask i) (nat (level_constants ! j)) \<longleftrightarrow> i \<le> j"
proof -
  have "\<forall>i \<in> set [0..<5]. \<forall>j \<in> set [0..<5]. bit (level_mask i) (nat (level_constants ! j)) \<longleftrightarrow> i \<le> j"
    by code_simp
  then show "i < 5 \<Longrightarrow> j < 5 \<Longrightarrow> ?thesis" by simp
qed

text \<open>C39: in every state that calls of the syslog functions lead to, after \<open>syslog_setminlevel\<close> with a level,
  \<open>syslog_log\<close> sends exactly the messages of that level and of the more severe ones, with the
  identity and the facility of the last \<open>syslog_open\<close> that was not closed.\<close>

theorem syslog_minlevel:
  assumes "i < 5" and "j < 5" and "syslog_run H xs syslog_initial = (rs, s)"
  shows "\<exists>s'. sbind (lc_syslog_setmask H [LString (bs (level_strings ! i))])
        (\<lambda>_. lc_syslog_log H [LString (bs (level_strings ! j)), LString t]) s = (Ret [], s') \<and>
    log_sent s' = log_sent s @
      (if i \<le> j then [\<lparr>msg_level = level_constants ! j, msg_facility = log_facility s,
         msg_tag = (case syslog_ident s of None \<Rightarrow> None | Some p \<Rightarrow> heap s p), msg_text = cstr t\<rparr>]
       else [])"
proof -
  have opt: "luaL_checkoption H (LString (bs (level_strings ! k)) # L) 1 ''notice'' level_strings = Ret k" if "k < 5" for k L
    using that level_strings_ok by (intro checkoption_named) (simp_all add: lua_arg_def)
  have "level_mask i \<noteq> 0" using level_cases [OF assms(1)] by (auto simp: level_mask_def)
  moreover have "mem_at level_constants j = Ret (level_constants ! j)"
    using assms(2) by (simp add: mem_at_def level_constants_def)
  moreover have "syslog_wf s" using syslog_run_wf [OF syslog_initial_wf, of H xs] assms(3) by simp
  from syslog_wfD [OF this] have "log_tag s = syslog_ident s" "dom (heap s) = set_option (syslog_ident s)" by simp_all
  moreover from this(2) have "\<exists>t. heap s p = Some t" if "syslog_ident s = Some p" for p using that by auto
  ultimately show ?thesis
    using assms level_mask_bit [OF assms(1,2)] opt [OF assms(1)] opt [OF assms(2)] mask_loop_level [OF assms(1)]
    by (cases "syslog_ident s")
      (auto simp: lc_syslog_setmask_def lc_syslog_log_def lua_arg_def c_syslog_def sbind_def slift_def)
qed

theorem syslog_minlevel_witness:
  "\<exists>rs s s'. syslog_run plain_host [SysOpen True [LString (bs ''prosody'')]] syslog_initial = (rs, s) \<and>
    syslog_ident s = Some 1 \<and>
    sbind (lc_syslog_setmask plain_host [LString (bs (level_strings ! 3))])
        (\<lambda>_. lc_syslog_log plain_host [LString (bs (level_strings ! 1)), LString (bs ''x'')]) s = (Ret [], s') \<and>
    log_sent s' = []"
proof -
  obtain rs s where run: "syslog_run plain_host [SysOpen True [LString (bs ''prosody'')]] syslog_initial = (rs, s)"
    by fastforce
  moreover have "option_index facility_strings (bs ''daemon'') 0 = Some 3"
    using option_index_nth [of facility_strings 3 0] by (simp add: facility_strings_def)
  ultimately have "syslog_ident s = Some 1" "log_sent s = []"
    by (auto simp: lc_syslog_open_def sbind_def slift_def lua_api mem_at_def c_strdup_def syslog_initial_def
        facility_constants_def)
  with run syslog_minlevel [OF _ _ run, of 3 1 "bs ''x''"] show ?thesis by auto
qed

section \<open>Facilities\<close>

text \<open>Reference: the facility that each name means.\<close>

definition named_facility :: "string \<rightharpoonup> int" where
  "named_facility = map_of
    [(''auth'', LOG_AUTH), (''authpriv'', LOG_AUTHPRIV), (''cron'', LOG_CRON), (''daemon'', LOG_DAEMON),
     (''ftp'', LOG_FTP), (''kern'', LOG_KERN), (''local0'', LOG_LOCAL 0), (''local1'', LOG_LOCAL 1),
     (''local2'', LOG_LOCAL 2), (''local3'', LOG_LOCAL 3), (''local4'', LOG_LOCAL 4), (''local5'', LOG_LOCAL 5),
     (''local6'', LOG_LOCAL 6), (''local7'', LOG_LOCAL 7), (''lpr'', LOG_LPR), (''mail'', LOG_MAIL),
     (''news'', LOG_NEWS), (''syslog'', LOG_SYSLOG), (''user'', LOG_USER), (''uucp'', LOG_UUCP)]"

lemma facility_strings_ok:
  "distinct facility_strings" "length facility_strings = 19" "\<forall>s \<in> set facility_strings. CHR 0x00 \<notin> set s"
  by (simp_all add: facility_strings_def)

lemma facility_table:
  "\<forall>i \<in> set [0..<19]. (Some (facility_constants ! i) = named_facility (facility_strings ! i) \<longleftrightarrow> i < 16)"
  by code_simp

text \<open>C40: \<open>syslog_open\<close> selects the facility that was named for the first 16 names; for the last three
  (syslog, user and uucp) it selects another one, because the table of constants has an entry for
  news that the table of names lacks.\<close>

theorem syslog_facility:
  assumes "i < 19" and "\<And>p. syslog_ident s = Some p \<Longrightarrow> heap s p \<noteq> None"
  shows "\<exists>s'. lc_syslog_open H alloc [LString ident, LString (bs (facility_strings ! i))] s = (Ret [], s') \<and>
    (Some (log_facility s') = named_facility (facility_strings ! i) \<longleftrightarrow> i < 16)"
proof -
  have "luaL_checkoption H [LString ident, LString (bs (facility_strings ! i))] 2 ''daemon'' facility_strings = Ret i"
    using assms(1) facility_strings_ok by (intro checkoption_named) (simp_all add: lua_arg_def)
  moreover have "mem_at facility_constants i = Ret (facility_constants ! i)"
    using assms(1) by (simp add: mem_at_def facility_constants_def)
  moreover have "Some (facility_constants ! i) = named_facility (facility_strings ! i) \<longleftrightarrow> i < 16"
    using facility_table assms(1) by simp
  ultimately show ?thesis
    using assms(2) by (cases "syslog_ident s"; cases alloc)
      (auto simp: lc_syslog_open_def luaL_checkstring_def luaL_checklstring_def lua_arg_def c_strdup_def sbind_def
        slift_def c_free_def Let_def)
qed

theorem syslog_facility_witness:
  "\<exists>s'. lc_syslog_open plain_host True [LString (bs ''prosody''), LString (bs (facility_strings ! 17))] syslog_initial = (Ret [], s') \<and>
    Some (log_facility s') \<noteq> named_facility (facility_strings ! 17)"
  using syslog_facility [of 17 syslog_initial plain_host True "bs ''prosody''"] by (auto simp: syslog_initial_def)

text \<open>\<open>syslog_log\<close> with a level alone passes a null pointer as the message.\<close>

theorem syslog_log_null_message:
  "lc_syslog_log H [LString (bs ''notice'')] s = (Undef NullDeref, s)"
proof -
  have "luaL_checkoption H [LString (bs ''notice'')] 1 ''notice'' level_strings = Ret 2"
    using checkoption_named [OF level_strings_ok(1), of 2 "[LString (bs ''notice'')]" 1 H "''notice''"]
    by (simp add: level_strings_def lua_arg_def)
  then show ?thesis by (simp add: lc_syslog_log_def mem_at_def level_constants_def lua_arg_def sbind_def slift_def)
qed

end
