(* ===== verification/PposixProcess.thy ===== *)
theory PposixProcess
  imports LuaApi
begin

text \<open>
  The process functions of \<open>util-src/pposix.c\<close>: daemonizing, user and group identities, the file mode
  mask, directories, resource limits, the environment and the reports on the system. System calls
  and the user database are parameters; the process that calls \<open>daemonize\<close> and the ones it forks
  are the elements of a list.
\<close>

section \<open>Daemonizing\<close>

text \<open>A process: its identifiers, its session and its standard streams 0 to 2. The stream of a failed
  \<open>freopen\<close> is closed.\<close>

datatype stream = Inherited | Reopened string string | Closed

record process =
  p_pid :: int
  p_ppid :: int
  p_sid :: int
  p_stdio :: "nat \<Rightarrow> stream"

text \<open>The answers of the system: what the two calls of \<open>fork\<close> return in the process that made them,
  whether \<open>setsid\<close> succeeds, and which streams \<open>freopen\<close> can open.\<close>

record daemon_os =
  os_fork1 :: int
  os_fork2 :: int
  os_setsid :: bool
  os_freopen :: "nat \<Rightarrow> bool"

datatype call_end = Returns "lua_value list" | Exits int | Aborts

text \<open>\<open>fork\<close>: the processes that return from it, each with its result.\<close>

definition fork :: "int \<Rightarrow> process \<Rightarrow> (int \<times> process) list" where
  "fork answer p = (if answer < 0 then [(- 1, p)] else [(answer, p), (0, p\<lparr>p_pid := answer, p_ppid := p_pid p\<rparr>)])"

definition setsid :: "daemon_os \<Rightarrow> process \<Rightarrow> int \<times> process" where
  "setsid E p = (if os_setsid E then (p_pid p, p\<lparr>p_sid := p_pid p\<rparr>) else (- 1, p))"

definition freopen :: "daemon_os \<Rightarrow> string \<Rightarrow> string \<Rightarrow> nat \<Rightarrow> process \<Rightarrow> process" where
  "freopen E path mode i p =
    p\<lparr>p_stdio := (p_stdio p)(i := (if os_freopen E i then Reopened path mode else Closed))\<rparr>"

text \<open>\<open>lc_daemonize\<close> from the first \<open>fork\<close> on in the child, and the whole function: the processes that
  run it and how the call ends in each.\<close>

definition daemonize_child :: "daemon_os \<Rightarrow> process \<Rightarrow> (process \<times> call_end) list" where
  "daemonize_child E p =
    (let (sid, p) = setsid E p in
     if sid = - 1 then [(p, Returns [LBool False, LString (bs ''setsid-failed'')])]
     else
       let p = freopen E ''/dev/null'' ''r'' 0 p;
           p = freopen E ''/dev/null'' ''w'' 1 p;
           p = freopen E ''/dev/null'' ''w'' 2 p
       in map (\<lambda>(r, p). (p, if r \<noteq> 0 then Exits 0 else Returns [LBool True, LNil])) (fork (os_fork2 E) p))"

definition lc_daemonize :: "daemon_os \<Rightarrow> process \<Rightarrow> (process \<times> call_end) list" where
  "lc_daemonize E p =
    (if p_ppid p = 1 then [(p, Returns [LBool False, LString (bs ''already-daemonized'')])]
     else
       concat (map (\<lambda>(pid, p).
         if pid < 0 then [(p, Returns [LBool False, LString (bs ''fork-failed'')])]
         else if pid \<noteq> 0 then [(p, Returns [LBool True, LNumber (of_int pid)])]
         else daemonize_child E p) (fork (os_fork1 E) p)))"

definition lc_abort :: call_end where
  "lc_abort = Aborts"

section \<open>Identities\<close>

record passwd =
  pw_uid :: uint32
  pw_gid :: uint32

text \<open>The user and group databases, and the calls that change identity: 0 or an \<open>errno\<close>.\<close>

record id_os =
  os_getpwnam :: "byte list \<Rightarrow> passwd option"
  os_getgrnam :: "byte list \<Rightarrow> uint32 option"
  os_setuid :: "int \<Rightarrow> int"
  os_setgid :: "int \<Rightarrow> int"
  os_initgroups :: "byte list \<Rightarrow> uint32 \<Rightarrow> int"
  os_getpid :: int
  os_getuid :: uint32
  os_getgid :: uint32

definition lc_getpid :: "id_os \<Rightarrow> lua_value list" where
  "lc_getpid E = [LNumber (of_int (os_getpid E))]"

definition lc_getuid :: "id_os \<Rightarrow> lua_value list" where
  "lc_getuid E = [LNumber (of_nat (unat (os_getuid E)))]"

definition lc_getgid :: "id_os \<Rightarrow> lua_value list" where
  "lc_getgid E = [LNumber (of_nat (unat (os_getgid E)))]"

definition fail_with :: "string \<Rightarrow> lua_value list" where
  "fail_with msg = [LBool False, LString (bs msg)]"

text \<open>The answer of \<open>setuid\<close> or \<open>setgid\<close> turned into results.\<close>

definition set_id_result :: "string \<Rightarrow> int \<Rightarrow> lua_value list" where
  "set_id_result invalid errno =
    (if errno = 0 then [LBool True]
     else if errno = EINVAL then fail_with invalid
     else if errno = EPERM then fail_with ''permission-denied''
     else fail_with ''unknown-error'')"

definition lc_setuid :: "host \<Rightarrow> id_os \<Rightarrow> lua_args \<Rightarrow> (lua_value list \<times> int option) cres" where
  "lc_setuid H E L =
    (if length L < 1 then Ret ([], None)
     else
       let v = lua_arg L 1;
           switch = (\<lambda>uid. if uid > - 1 then Ret (set_id_result ''invalid-uid'' (os_setuid E uid), Some uid)
                           else Ret (fail_with ''invalid-uid'', None))
       in case (if lua_isnumber H v then None else lua_tostring H v) of
            Some name \<Rightarrow>
              (case os_getpwnam E (cstr name) of
                 None \<Rightarrow> Ret (fail_with ''no-such-user'', None)
               | Some p \<Rightarrow> switch (cast_int (uint (pw_uid p))))
          | None \<Rightarrow> cbind (number_to_int (lua_tonumber H v)) switch)"

text \<open>The second component of the result is the identity that was asked of the system, if any.\<close>

definition lc_setgid :: "host \<Rightarrow> id_os \<Rightarrow> lua_args \<Rightarrow> (lua_value list \<times> int option) cres" where
  "lc_setgid H E L =
    (if length L < 1 then Ret ([], None)
     else
       let v = lua_arg L 1;
           switch = (\<lambda>gid. if gid > - 1 then Ret (set_id_result ''invalid-gid'' (os_setgid E gid), Some gid)
                           else Ret (fail_with ''invalid-gid'', None))
       in case (if lua_isnumber H v then None else lua_tostring H v) of
            Some name \<Rightarrow>
              (case os_getgrnam E (cstr name) of
                 None \<Rightarrow> Ret (fail_with ''no-such-group'', None)
               | Some g \<Rightarrow> switch (cast_int (uint g)))
          | None \<Rightarrow> cbind (number_to_int (lua_tonumber H v)) switch)"

definition lc_initgroups :: "host \<Rightarrow> id_os \<Rightarrow> lua_args \<Rightarrow> lua_value list cres" where
  "lc_initgroups H E L =
    (case lua_tostring H (lua_arg L 1) of
       None \<Rightarrow> Ret [LNil, LString (bs ''invalid-username'')]
     | Some name \<Rightarrow>
         (case os_getpwnam E (cstr name) of
            None \<Rightarrow> Ret [LNil, LString (bs ''no-such-user'')]
          | Some p \<Rightarrow>
              let finish = (\<lambda>gid.
                let errno = os_initgroups E (cstr name) gid in
                if errno = 0 then Ret [LBool True, LNil]
                else if errno = ENOMEM then Ret [LNil, LString (bs ''no-memory'')]
                else if errno = EPERM then Ret [LNil, LString (bs ''permission-denied'')]
                else Ret [LNil, LString (bs ''unknown-error'')])
              in case lua_arg L 2 of
                   None \<Rightarrow> finish (pw_gid p)
                 | Some LNil \<Rightarrow> finish (pw_gid p)
                 | Some (LNumber q) \<Rightarrow> cbind (number_to_integer q) (\<lambda>n. finish (word_of_int n))
                 | Some _ \<Rightarrow> Ret [LNil, LString (bs ''invalid-gid'')]))"

section \<open>File modes and directories\<close>

text \<open>\<open>strtoul(s, NULL, 8)\<close>: blanks, a sign, and octal digits; too large a value saturates.\<close>

definition is_blank :: "byte \<Rightarrow> bool" where
  "is_blank c \<longleftrightarrow> c = 0x20 \<or> (9 \<le> c \<and> c \<le> 13)"

definition is_octal :: "byte \<Rightarrow> bool" where
  "is_octal c \<longleftrightarrow> 0x30 \<le> c \<and> c \<le> 0x37"

definition octal_value :: "byte list \<Rightarrow> nat" where
  "octal_value ds = foldl (\<lambda>v c. v * 8 + unat (c - 0x30)) 0 ds"

definition strtoul8 :: "byte list \<Rightarrow> size_t" where
  "strtoul8 s =
    (let t = dropWhile is_blank s;
         (neg, ds) = (case t of
             c # r \<Rightarrow> if c = 0x2d then (True, r) else if c = 0x2b then (False, r) else (False, t)
           | [] \<Rightarrow> (False, []));
         v = octal_value (takeWhile is_octal ds)
     in if v \<ge> 2 ^ 64 then - 1 else if neg then - of_nat v else of_nat v)"

text \<open>\<open>%03o\<close> into a buffer of 7 bytes.\<close>

fun octal_digits :: "nat \<Rightarrow> byte list" where
  "octal_digits n = (if n < 8 then [of_nat (0x30 + n)] else octal_digits (n div 8) @ [of_nat (0x30 + n mod 8)])"

declare octal_digits.simps [simp del]

definition mode_string :: "uint32 \<Rightarrow> byte list" where
  "mode_string m = (let ds = octal_digits (unat m) in take 6 (replicate (3 - length ds) 0x30 @ ds))"

text \<open>The mask of the process is the state; \<open>umask(2)\<close> keeps the nine permission bits.\<close>

definition lc_umask :: "host \<Rightarrow> lua_args \<Rightarrow> uint32 \<Rightarrow> (lua_value list \<times> uint32) cres" where
  "lc_umask H L old_mode =
    cbind (luaL_checkstring H L 1) (\<lambda>s.
      Ret ([LString (mode_string old_mode)], ucast (strtoul8 s) AND 0x1FF))"

text \<open>\<open>os_mkdir\<close> gets the path and the mode and returns 0 or an \<open>errno\<close>.\<close>

definition lc_mkdir :: "host \<Rightarrow> (byte list \<Rightarrow> uint32 \<Rightarrow> int) \<Rightarrow> lua_args \<Rightarrow> lua_value list cres" where
  "lc_mkdir H os_mkdir L =
    cbind (luaL_checkstring H L 1) (\<lambda>path.
      let errno = os_mkdir path (0x100 OR 0x80 OR 0x40 OR 0x20 OR 0x10 OR 0x8 OR 0x4 OR 0x1) in
      if errno \<noteq> 0 then Ret [LBool False, LString (strerror H errno)] else Ret [LBool True])"

section \<open>Resource limits\<close>

type_synonym rlim_t = size_t

definition RLIM_INFINITY :: rlim_t where "RLIM_INFINITY = - 1"

text \<open>The numbers of the resources on Linux.\<close>

definition resources :: "(string \<times> int) list" where
  "resources = [(''CORE'', 4), (''CPU'', 0), (''DATA'', 2), (''FSIZE'', 1), (''NOFILE'', 7), (''STACK'', 3),
     (''MEMLOCK'', 8), (''NPROC'', 6), (''RSS'', 5), (''NICE'', 13)]"

definition string2resource :: "byte list \<Rightarrow> int" where
  "string2resource s = (case map_of (map (\<lambda>(n, r). (bs n, r)) resources) s of Some r \<Rightarrow> r | None \<Rightarrow> - 1)"

definition arg_to_rlimit :: "lua_args \<Rightarrow> nat \<Rightarrow> rlim_t \<Rightarrow> rlim_t cres" where
  "arg_to_rlimit L idx current =
    (case lua_arg L idx of
       Some (LString s) \<Rightarrow>
         if cstr s = bs ''unlimited'' then Ret RLIM_INFINITY else Raise (ArgError idx ''unexpected type'')
     | Some (LNumber q) \<Rightarrow> cbind (number_to_integer q) (\<lambda>n. Ret (word_of_int n))
     | None \<Rightarrow> Ret current
     | Some LNil \<Rightarrow> Ret current
     | Some _ \<Rightarrow> Raise (ArgError idx ''unexpected type''))"

text \<open>The limits of the process belong to the state \<open>'k\<close> of the system: \<open>os_getrlimit\<close> reads the soft
  and hard limit, \<open>os_setrlimit\<close> changes them and tells whether it succeeded.\<close>

record 'k rlimit_os =
  os_getrlimit :: "int \<Rightarrow> 'k \<Rightarrow> (rlim_t \<times> rlim_t) option"
  os_setrlimit :: "int \<Rightarrow> rlim_t \<times> rlim_t \<Rightarrow> 'k \<Rightarrow> bool \<times> 'k"

definition lc_setrlimit :: "host \<Rightarrow> 'k rlimit_os \<Rightarrow> lua_args \<Rightarrow> 'k \<Rightarrow> (lua_value list \<times> 'k) cres" where
  "lc_setrlimit H E L k =
    (if length L < 1 \<or> length L > 3 then Ret (fail_with ''incorrect-arguments'', k)
     else
       cbind (luaL_checkstring H L 1) (\<lambda>s.
         let rid = string2resource s in
         if rid = - 1 then Ret (fail_with ''invalid-resource'', k)
         else case os_getrlimit E rid k of
           None \<Rightarrow> Ret (fail_with ''getrlimit-failed'', k)
         | Some (cur, mx) \<Rightarrow>
             cbind (arg_to_rlimit L 2 cur) (\<lambda>cur.
             cbind (arg_to_rlimit L 3 mx) (\<lambda>mx.
               let (ok, k) = os_setrlimit E rid (cur, mx) k in
               if ok then Ret ([LBool True], k) else Ret (fail_with ''setrlimit-failed'', k)))))"

definition push_limit :: "rlim_t \<Rightarrow> lua_value" where
  "push_limit w = (if w = RLIM_INFINITY then LString (bs ''unlimited'') else LNumber (of_nat (unat w)))"

definition lc_getrlimit :: "host \<Rightarrow> 'k rlimit_os \<Rightarrow> lua_args \<Rightarrow> 'k \<Rightarrow> lua_value list cres" where
  "lc_getrlimit H E L k =
    (if length L \<noteq> 1 then Ret (fail_with ''invalid-arguments'')
     else
       cbind (luaL_checkstring H L 1) (\<lambda>resource.
         let rid = string2resource resource in
         if rid \<noteq> - 1 then
           (case os_getrlimit E rid k of
              None \<Rightarrow> Ret (fail_with ''getrlimit-failed.'')
            | Some (cur, mx) \<Rightarrow> Ret [LBool True, push_limit cur, push_limit mx])
         else Ret (fail_with ''invalid-resource'')))"

section \<open>Environment\<close>

text \<open>\<open>setenv(3)\<close> and \<open>unsetenv(3)\<close> (no value) return 0 and change the environment, or fail with an
  \<open>errno\<close> and leave it alone; \<open>os_setenv\<close> is their answer.\<close>

definition lc_setenv :: "host \<Rightarrow> (byte list \<Rightarrow> byte list option \<Rightarrow> int) \<Rightarrow> lua_args \<Rightarrow> (byte list \<rightharpoonup> byte list) \<Rightarrow>
    (lua_value list \<times> (byte list \<rightharpoonup> byte list)) cres" where
  "lc_setenv H os_setenv L env =
    cbind (luaL_checkstring H L 1) (\<lambda>var.
      if lua_isnoneornil (lua_arg L 2) then
        let errno = os_setenv var None in
        if errno \<noteq> 0 then Ret ([LNil, LString (strerror H errno)], env)
        else Ret ([LBool True], env(var := None))
      else
        cbind (luaL_checkstring H L 2) (\<lambda>value.
          let errno = os_setenv var (Some value) in
          if errno \<noteq> 0 then Ret ([LNil, LString (strerror H errno)], env)
          else Ret ([LBool True], env(var \<mapsto> value))))"

section \<open>Reports\<close>

record utsname =
  sysname :: "byte list"
  nodename :: "byte list"
  u_release :: "byte list"
  u_version :: "byte list"
  machine :: "byte list"
  domainname :: "byte list"

definition field :: "string \<Rightarrow> lua_value \<Rightarrow> lua_value \<times> lua_value" where
  "field n v = (LString (bs n), v)"

definition lc_uname :: "host \<Rightarrow> int + utsname \<Rightarrow> lua_value list" where
  "lc_uname H r =
    (case r of
       Inl errno \<Rightarrow> [LNil, LString (strerror H errno)]
     | Inr u \<Rightarrow> [LTable [field ''sysname'' (LString (sysname u)), field ''nodename'' (LString (nodename u)),
         field ''release'' (LString (u_release u)), field ''version'' (LString (u_version u)),
         field ''machine'' (LString (machine u)), field ''domainname'' (LString (domainname u))]])"

record mallinfo =
  arena :: int
  hblkhd :: int
  uordblks :: int
  fordblks :: int
  keepcost :: int

definition lc_meminfo :: "mallinfo \<Rightarrow> lua_value list" where
  "lc_meminfo info = [LTable [field ''allocated'' (LNumber (of_int (arena info))),
     field ''allocated_mmap'' (LNumber (of_int (hblkhd info))), field ''used'' (LNumber (of_int (uordblks info))),
     field ''unused'' (LNumber (of_int (fordblks info))), field ''returnable'' (LNumber (of_int (keepcost info)))]]"

section \<open>Who survives daemonizing\<close>

definition session_leader :: "process \<Rightarrow> bool" where
  "session_leader p \<longleftrightarrow> p_sid p = p_pid p"

text \<open>The processes that go on in Lua, with the results they get, and the ones that end.\<close>

definition continuing :: "(process \<times> call_end) list \<Rightarrow> (process \<times> lua_value list) list" where
  "continuing ps = concat (map (\<lambda>(p, e). case e of Returns r \<Rightarrow> [(p, r)] | _ \<Rightarrow> []) ps)"

definition ended :: "(process \<times> call_end) list \<Rightarrow> (int \<times> call_end) list" where
  "ended ps = concat (map (\<lambda>(p, e). case e of Returns r \<Rightarrow> [] | _ \<Rightarrow> [(p_pid p, e)]) ps)"

text \<open>C35: when the first fork and \<open>setsid\<close> succeed, the caller, unchanged, gets true and the identifier of
  its child, and the child, which made a session of its own, exits with status 0. If the second fork
  succeeds too, one more process goes on in Lua, with true and nil: it is in the session of the child
  without being its leader, so it cannot get a terminal, and each of its standard streams is
  \<open>/dev/null\<close> or, where \<open>freopen\<close> failed, closed. If the second fork fails, no other process goes on,
  and the caller has still got true.\<close>

theorem daemonize_processes:
  assumes "p_ppid p \<noteq> 1" and "0 < os_fork1 E" and "os_setsid E"
    and "os_fork2 E \<noteq> 0" and "os_fork2 E \<noteq> os_fork1 E"
  shows "\<exists>rest. continuing (lc_daemonize E p) = (p, [LBool True, LNumber (of_int (os_fork1 E))]) # rest \<and>
    ended (lc_daemonize E p) = [(os_fork1 E, Exits 0)] \<and>
    (if 0 < os_fork2 E then \<exists>d. rest = [(d, [LBool True, LNil])] \<and> p_pid d = os_fork2 E \<and> p_ppid d = os_fork1 E \<and>
        p_sid d = os_fork1 E \<and> \<not> session_leader d \<and>
        map (p_stdio d) [0, 1, 2] = map (\<lambda>(i, mode). if os_freopen E i then Reopened ''/dev/null'' mode else Closed)
          [(0, ''r''), (1, ''w''), (2, ''w'')]
     else rest = [])"
  using assms
  by (cases "0 < os_fork2 E")
    (auto simp: lc_daemonize_def daemonize_child_def fork_def setsid_def freopen_def continuing_def ended_def
      session_leader_def Let_def)

definition shell_child :: process where
  "shell_child = \<lparr>p_pid = 7, p_ppid = 6, p_sid = 6, p_stdio = (\<lambda>_. Inherited)\<rparr>"

theorem daemonize_processes_witness:
  "\<exists>d. continuing (lc_daemonize \<lparr>os_fork1 = 42, os_fork2 = 43, os_setsid = True, os_freopen = (\<lambda>_. True)\<rparr> shell_child) =
      [(shell_child, [LBool True, LNumber 42]), (d, [LBool True, LNil])] \<and> \<not> session_leader d \<and>
    map (p_stdio d) [0, 1, 2] = [Reopened ''/dev/null'' ''r'', Reopened ''/dev/null'' ''w'', Reopened ''/dev/null'' ''w'']"
proof -
  have "p_ppid shell_child \<noteq> 1" by (simp add: shell_child_def)
  from daemonize_processes [OF this, of "\<lparr>os_fork1 = 42, os_fork2 = 43, os_setsid = True, os_freopen = (\<lambda>_. True)\<rparr>"]
  show ?thesis by auto
qed

section \<open>Changing identity\<close>

text \<open>Reference: the identity an argument means.\<close>

fun meant_uid :: "host \<Rightarrow> id_os \<Rightarrow> lua_value \<Rightarrow> int option" where
  "meant_uid H E (LNumber q) = Some (truncate_number q)"
| "meant_uid H E (LString s) =
     (case str2num H s of
        Some q \<Rightarrow> Some (truncate_number q)
      | None \<Rightarrow> map_option (\<lambda>p. uint (pw_uid p)) (os_getpwnam E (cstr s)))"
| "meant_uid H E v = None"

lemma set_id_result_cases:
  "set_id_result i e = [LBool True] \<longleftrightarrow> e = 0"
  "set_id_result ''invalid-uid'' e = [LBool False, LString (bs ''invalid-uid'')] \<longleftrightarrow> e = EINVAL"
  "set_id_result ''invalid-uid'' e = [LBool False, LString (bs ''permission-denied'')] \<longleftrightarrow> e = EPERM"
  "set_id_result ''invalid-uid'' e = [LBool False, LString (bs ''unknown-error'')] \<longleftrightarrow> e \<notin> {0, EINVAL, EPERM}"
  by (auto simp: set_id_result_def fail_with_def errno_defs)

lemma cast_int_high: "2 ^ 31 \<le> n \<Longrightarrow> n < 2 ^ 32 \<Longrightarrow> cast_int n < 0"
proof -
  assume n: "2 ^ 31 \<le> n" "n < 2 ^ 32"
  then have "n div 2 ^ 31 = 1" by auto
  then show ?thesis by (simp add: cast_int_def bit_iff_odd)
qed

text \<open>C37: \<open>setuid\<close>, with a number or the name of a user, returns true exactly when it asked the system for
  the identity that the argument means and the system accepted it. It asks for no other identity, and
  for none outside the range of a non-negative \<open>int\<close>, which it reports as invalid; a refusal of the
  system is reported by its reason. A name that is no user is not asked for at all.\<close>

theorem setuid_identity:
  assumes "v = LNumber q \<or> v = LString s" and "meant_uid H E v = m"
    and "\<And>uid. m = Some uid \<Longrightarrow> - (2 ^ 31) \<le> uid \<and> uid < (if v = LString s \<and> str2num H s = None then 2 ^ 32 else 2 ^ 31)"
  shows "case m of
      None \<Rightarrow> lc_setuid H E [v] = Ret ([LBool False, LString (bs ''no-such-user'')], None)
    | Some uid \<Rightarrow> \<exists>r. lc_setuid H E [v] = Ret (r, if 0 \<le> uid \<and> uid < 2 ^ 31 then Some uid else None) \<and>
        (r = [LBool True] \<longleftrightarrow> 0 \<le> uid \<and> uid < 2 ^ 31 \<and> os_setuid E uid = 0) \<and>
        (r = [LBool False, LString (bs ''invalid-uid'')] \<longleftrightarrow> uid < 0 \<or> 2 ^ 31 \<le> uid \<or> os_setuid E uid = EINVAL) \<and>
        (r = [LBool False, LString (bs ''permission-denied'')] \<longleftrightarrow> 0 \<le> uid \<and> uid < 2 ^ 31 \<and> os_setuid E uid = EPERM) \<and>
        (r = [LBool False, LString (bs ''unknown-error'')] \<longleftrightarrow>
           0 \<le> uid \<and> uid < 2 ^ 31 \<and> os_setuid E uid \<notin> {0, EINVAL, EPERM})"
proof (cases m)
  case None
  then show ?thesis using assms(1,2)
    by (auto simp: lc_setuid_def lua_api fail_with_def split: option.splits)
next
  case (Some uid)
  have run: "lc_setuid H E [v] =
      (if cast_int uid > - 1 then Ret (set_id_result ''invalid-uid'' (os_setuid E (cast_int uid)), Some (cast_int uid))
       else Ret (fail_with ''invalid-uid'', None))"
    using assms Some by (auto simp: lc_setuid_def lua_api Let_def cast_int_id split: option.splits if_splits)
  show ?thesis
  proof (cases "uid < 2 ^ 31")
    case True
    then have "cast_int uid = uid" using assms(3) [OF Some] by (intro cast_int_id) auto
    then show ?thesis using run True Some
      by (auto simp: set_id_result_cases) (auto simp: fail_with_def)
  next
    case False
    then have "cast_int uid < 0" using assms(3) [OF Some] by (intro cast_int_high) (auto split: if_splits)
    with run Some False show ?thesis by (auto simp: fail_with_def)
  qed
qed

text \<open>A system for concrete runs: the user prosody has identity 101, and only 101 is accepted.\<close>

definition example_ids :: id_os where
  "example_ids = \<lparr>os_getpwnam = (\<lambda>n. if n = bs ''prosody'' then Some \<lparr>pw_uid = 101, pw_gid = 102\<rparr> else None),
     os_getgrnam = (\<lambda>n. if n = bs ''prosody'' then Some 102 else None),
     os_setuid = (\<lambda>u. if u = 101 then 0 else EPERM), os_setgid = (\<lambda>g. if g = 102 then 0 else EPERM),
     os_initgroups = (\<lambda>n g. 0), os_getpid = 1, os_getuid = 0, os_getgid = 0\<rparr>"

lemma cstr_prosody: "cstr (bs ''prosody'') = bs ''prosody''"
  by (rule cstr_id, rule zero_notin_bs) simp

theorem setuid_identity_witness:
  "lc_setuid plain_host example_ids [LString (bs ''prosody'')] = Ret ([LBool True], Some 101)"
proof -
  have "meant_uid plain_host example_ids (LString (bs ''prosody'')) = Some 101"
    by (simp add: plain_host_def cstr_prosody example_ids_def)
  from setuid_identity [OF _ this, of 0 "bs ''prosody''"] show ?thesis
    by (auto simp: example_ids_def)
qed

text \<open>An argument that is neither a string nor a number, such as \<open>nil\<close> or a table, counts as the
  number 0: \<open>setuid\<close> and \<open>setgid\<close> ask the system for the identity of root and report success if the
  process still has the right to it.\<close>

theorem setuid_non_number_is_root:
  assumes "v = LNil \<or> v = LBool b \<or> v = LTable t \<or> lua_isfunction v"
  shows "lc_setuid H E [v] = Ret (set_id_result ''invalid-uid'' (os_setuid E 0), Some 0) \<and>
    lc_setgid H E [v] = Ret (set_id_result ''invalid-gid'' (os_setgid E 0), Some 0)"
  using assms by (cases v) (auto simp: lc_setuid_def lc_setgid_def lua_api)

theorem setuid_non_number_is_root_witness:
  "lc_setuid plain_host (example_ids\<lparr>os_setuid := \<lambda>_. 0\<rparr>) [LNil] = Ret ([LBool True], Some 0)"
  using setuid_non_number_is_root [of LNil True "[]" plain_host "example_ids\<lparr>os_setuid := \<lambda>_. 0\<rparr>"]
  by (simp add: set_id_result_def)

section \<open>File mode mask\<close>

lemma octal_digit: "d < 8 \<Longrightarrow> is_octal (of_nat (0x30 + d)) \<and> unat ((of_nat (0x30 + d) :: byte) - 0x30) = d"
proof -
  assume d: "d < 8"
  have "\<forall>d \<in> set [0..<8]. is_octal (of_nat (0x30 + d)) \<and> unat ((of_nat (0x30 + d) :: byte) - 0x30) = d"
    by code_simp
  with d show ?thesis by simp
qed

lemma octal_digits_value: "set (octal_digits n) \<subseteq> Collect is_octal \<and> octal_value (octal_digits n) = n"
proof (induction n rule: octal_digits.induct)
  case (1 n)
  show ?case
  proof (cases "n < 8")
    case True
    with octal_digit [of n] show ?thesis by (simp add: octal_digits.simps [of n] octal_value_def)
  next
    case False
    with 1 octal_digit [of "n mod 8"] show ?thesis
      by (simp add: octal_digits.simps [of n] octal_value_def)
  qed
qed

lemma octal_value_zeros: "octal_value (replicate k 0x30 @ ds) = octal_value ds"
proof -
  have "foldl (\<lambda>v c. v * 8 + unat (c - 0x30)) 0 (replicate k (0x30 :: byte)) = 0"
    by (induction k) simp_all
  then show ?thesis by (simp add: octal_value_def)
qed

lemma octal_digits_length: "n < 8 ^ Suc k \<Longrightarrow> length (octal_digits n) \<le> Suc k"
proof (induction k arbitrary: n)
  case (Suc k)
  then have "n div 8 < 8 ^ Suc k" by (simp add: div_less_iff_less_mult)
  from Suc.IH [OF this] show ?case by (simp add: octal_digits.simps [of n])
qed (simp add: octal_digits.simps)

lemma strtoul8_digits:
  assumes "set ds \<subseteq> Collect is_octal" and "octal_value ds < 2 ^ 64" and "ds \<noteq> []"
  shows "strtoul8 ds = of_nat (octal_value ds)"
proof -
  obtain c r where ds: "ds = c # r" using assms(3) by (cases ds) auto
  then have "is_octal c" using assms(1) by simp
  then have c: "\<not> is_blank c" "c \<noteq> 0x2d" "c \<noteq> 0x2b"
    by (auto simp: is_octal_def is_blank_def dest: order.trans [of 48 c 13])
  have "takeWhile is_octal ds = ds" using assms(1) by (auto simp: takeWhile_eq_all_conv)
  moreover have "dropWhile is_blank ds = ds" using c ds by simp
  ultimately show ?thesis using c ds assms(2) by (simp add: strtoul8_def)
qed

lemma strtoul8_mode_string:
  assumes "unat m < 512"
  shows "strtoul8 (mode_string m) = of_nat (unat m)" and "cstr (mode_string m) = mode_string m"
proof -
  let ?ds = "octal_digits (unat m)"
  have len: "length ?ds \<le> 3" using octal_digits_length [of "unat m" 2] assms by simp
  then have str: "mode_string m = replicate (3 - length ?ds) 0x30 @ ?ds"
    by (simp add: mode_string_def Let_def)
  have oct: "set (mode_string m) \<subseteq> Collect is_octal" "octal_value (mode_string m) = unat m"
    using octal_digits_value [of "unat m"] unfolding str by (auto simp: octal_value_zeros is_octal_def)
  have "mode_string m \<noteq> []" unfolding str by (simp add: octal_digits.simps [of "unat m"])
  from strtoul8_digits [OF oct(1) _ this] oct(2) assms show "strtoul8 (mode_string m) = of_nat (unat m)" by simp
  show "cstr (mode_string m) = mode_string m"
    using oct(1) by (intro cstr_id) (auto simp: is_octal_def)
qed

text \<open>\<open>umask\<close> returns the old mask in a form that \<open>umask\<close> reads back: calling it with what a first
  call returned restores the mask, whatever the first call was given.\<close>

theorem umask_roundtrip:
  assumes "unat m < 512"
  shows "\<exists>r. cbind (lc_umask H [LString s] m) (\<lambda>(r, m'). lc_umask H r m') = Ret (r, m)"
proof -
  have "m AND 0x1FF = m"
  proof -
    have "m AND 0x1FF = take_bit 9 m" by (simp add: take_bit_eq_mask mask_eq_exp_minus_1)
    moreover have "unat (take_bit 9 m) = unat m" using assms by (simp add: unat_take_bit)
    ultimately show ?thesis by (simp add: word_unat_eq_iff)
  qed
  moreover have "ucast (of_nat (unat m) :: size_t) = m"
    by (rule bit_word_eqI) (auto simp: bit_simps dest: bit_imp_le_length)
  ultimately show ?thesis
    using strtoul8_mode_string [OF assms] by (simp add: lc_umask_def lua_api)
qed

theorem umask_roundtrip_witness:
  "\<exists>r. cbind (lc_umask plain_host [LString (bs ''077'')] 18) (\<lambda>(r, m'). lc_umask plain_host r m') = Ret (r, 18)"
  using umask_roundtrip [of 18 plain_host "bs ''077''"] by simp

section \<open>Resource limits\<close>

lemma string2resource_name:
  assumes "(n, r) \<in> set resources"
  shows "string2resource (cstr (bs n)) = r" "r \<noteq> - 1"
proof -
  have "\<forall>(n, r) \<in> set resources. CHR 0x00 \<notin> set n \<and> r \<noteq> - 1" by (simp add: resources_def)
  with assms have n: "CHR 0x00 \<notin> set n" "r \<noteq> - 1" by auto
  have "distinct (map fst (map (\<lambda>(n, r). (bs n, r)) resources))" by (simp add: resources_def)
  moreover have "(bs n, r) \<in> set (map (\<lambda>(n, r). (bs n, r)) resources)" using assms by force
  ultimately have "map_of (map (\<lambda>(n, r). (bs n, r)) resources) (bs n) = Some r" by (rule map_of_is_SomeI)
  with n show "string2resource (cstr (bs n)) = r" "r \<noteq> - 1"
    by (simp_all add: string2resource_def cstr_id zero_notin_bs)
qed

text \<open>What \<open>getrlimit(2)\<close> and \<open>setrlimit(2)\<close> document: limits that were set are the ones read.\<close>

definition rlimit_documented :: "'k rlimit_os \<Rightarrow> bool" where
  "rlimit_documented E \<longleftrightarrow>
    (\<forall>rid lim k k'. os_setrlimit E rid lim k = (True, k') \<longrightarrow> os_getrlimit E rid k' = Some lim)"

text \<open>How a limit is given: a number of a \<open>lua_Integer\<close> or unlimited.\<close>

fun limit_arg :: "nat option \<Rightarrow> lua_value" where
  "limit_arg None = LString (bs ''unlimited'')"
| "limit_arg (Some n) = LNumber (of_nat n)"

lemma arg_to_rlimit_arg:
  assumes "lua_arg L i = Some (limit_arg x)" and "\<forall>n. x = Some n \<longrightarrow> n < 2 ^ 63"
  shows "\<exists>w. arg_to_rlimit L i c = Ret w \<and> push_limit w = limit_arg x"
proof (cases x)
  case None
  have "cstr (bs ''unlimited'') = bs ''unlimited''" by (rule cstr_id, rule zero_notin_bs) simp
  with None assms(1) show ?thesis by (simp add: arg_to_rlimit_def push_limit_def)
next
  case (Some n)
  then have n: "n < 2 ^ 63" using assms(2) by simp
  then have u: "unat (of_nat n :: rlim_t) = n" by (intro unat_of_nat_small) simp
  have "unat (- 1 :: rlim_t) = 2 ^ 64 - 1" by (simp add: unsigned_minus_1_eq_mask mask_eq_exp_minus_1)
  with u n have "(of_nat n :: rlim_t) \<noteq> - 1" by auto
  with Some u n assms(1) show ?thesis
    by (simp add: arg_to_rlimit_def number_to_integer_def push_limit_def RLIM_INFINITY_def)
qed

text \<open>C36: after a successful \<open>setrlimit\<close> of a resource, \<open>getrlimit\<close> returns the limits that were given,
  numbers and unlimited alike, for every resource name.\<close>

theorem rlimit_roundtrip:
  assumes "rlimit_documented E" and "(n, rid) \<in> set resources"
    and "\<forall>m. x = Some m \<longrightarrow> m < 2 ^ 63" and "\<forall>m. y = Some m \<longrightarrow> m < 2 ^ 63"
    and "lc_setrlimit H E [LString (bs n), limit_arg x, limit_arg y] k = Ret ([LBool True], k')"
  shows "lc_getrlimit H E [LString (bs n)] k' = Ret [LBool True, limit_arg x, limit_arg y]"
proof -
  let ?L = "[LString (bs n), limit_arg x, limit_arg y]"
  note rid = string2resource_name [OF assms(2)]
  obtain c m where cm: "os_getrlimit E rid k = Some (c, m)"
    using assms(5) rid by (cases "os_getrlimit E rid k")
      (auto simp: lc_setrlimit_def luaL_checkstring_def luaL_checklstring_def lua_arg_def fail_with_def)
  obtain wx where wx: "arg_to_rlimit ?L 2 c = Ret wx" "push_limit wx = limit_arg x"
    using arg_to_rlimit_arg [of ?L 2 x c] assms(3) by (auto simp: lua_arg_def)
  obtain wy where wy: "arg_to_rlimit ?L 3 m = Ret wy" "push_limit wy = limit_arg y"
    using arg_to_rlimit_arg [of ?L 3 y m] assms(4) by (auto simp: lua_arg_def)
  have "os_setrlimit E rid (wx, wy) k = (True, k')"
    using assms(5) rid cm wx(1) wy(1)
    by (auto simp: lc_setrlimit_def luaL_checkstring_def luaL_checklstring_def lua_arg_def fail_with_def Let_def
        split: prod.splits if_splits)
  with assms(1) have "os_getrlimit E rid k' = Some (wx, wy)" unfolding rlimit_documented_def by blast
  with rid wx(2) wy(2) show ?thesis
    by (simp add: lc_getrlimit_def luaL_checkstring_def luaL_checklstring_def lua_arg_def)
qed

text \<open>A system for concrete runs: the state maps resources to their limits and every change is
  accepted.\<close>

definition lax_rlimits :: "(int \<Rightarrow> rlim_t \<times> rlim_t) rlimit_os" where
  "lax_rlimits = \<lparr>os_getrlimit = (\<lambda>r k. Some (k r)), os_setrlimit = (\<lambda>r lim k. (True, k(r := lim)))\<rparr>"

lemma lax_rlimits_documented: "rlimit_documented lax_rlimits"
  by (simp add: rlimit_documented_def lax_rlimits_def)

lemma cstr_NOFILE: "string2resource (cstr (bs ''NOFILE'')) = 7"
  by (rule string2resource_name) (simp add: resources_def)

theorem rlimit_roundtrip_witness:
  "lc_getrlimit plain_host lax_rlimits [LString (bs ''NOFILE'')] ((\<lambda>_. (0, 0))(7 := (1000, - 1))) =
    Ret [LBool True, LNumber (of_nat 1000), LString (bs ''unlimited'')]"
proof -
  have "cstr (bs ''unlimited'') = bs ''unlimited''" by (rule cstr_id, rule zero_notin_bs) simp
  then have "lc_setrlimit plain_host lax_rlimits
      [LString (bs ''NOFILE''), limit_arg (Some 1000), limit_arg None] (\<lambda>_. (0, 0)) =
      Ret ([LBool True], (\<lambda>_. (0, 0))(7 := (1000, - 1)))"
    by (simp add: lc_setrlimit_def lua_api cstr_NOFILE lax_rlimits_def arg_to_rlimit_def RLIM_INFINITY_def)
  from rlimit_roundtrip [OF lax_rlimits_documented _ _ _ this, of 7] show ?thesis by (simp add: resources_def)
qed

text \<open>A negative limit does not stand for the current one: it is passed to the system as the very
  large unsigned number with the same bits, and the current limit is not used.\<close>

theorem rlimit_negative:
  assumes "(n, rid) \<in> set resources" and "os_getrlimit E rid k = Some (cur, mx)" and "0 < i" and "i \<le> 2 ^ 63"
  shows "lc_setrlimit H E [LString (bs n), LNumber (of_int (- i))] k =
    (case os_setrlimit E rid (of_int (- i), mx) k of
       (ok, k') \<Rightarrow> Ret (if ok then [LBool True] else fail_with ''setrlimit-failed'', k')) \<and>
    unat (of_int (- i) :: rlim_t) = nat (2 ^ 64 - i)"
proof
  have "- i < 2 ^ 63" using assms(3) by (smt (verit) zero_less_power)
  then have "number_to_integer (of_int (- i)) = Ret (- i)"
    using assms(4) unfolding number_to_integer_def truncate_of_int Let_def by simp
  then have "arg_to_rlimit [LString (bs n), LNumber (of_int (- i))] 2 cur = Ret (of_int (- i))"
    by (simp add: arg_to_rlimit_def lua_arg_def)
  moreover have "arg_to_rlimit [LString (bs n), LNumber (of_int (- i))] 3 mx = Ret mx"
    by (simp add: arg_to_rlimit_def lua_arg_def)
  ultimately show "lc_setrlimit H E [LString (bs n), LNumber (of_int (- i))] k =
    (case os_setrlimit E rid (of_int (- i), mx) k of
       (ok, k') \<Rightarrow> Ret (if ok then [LBool True] else fail_with ''setrlimit-failed'', k'))"
    using string2resource_name [OF assms(1)] assms(2)
    by (simp add: lc_setrlimit_def luaL_checkstring_def luaL_checklstring_def lua_arg_def case_prod_beta)
  have "(word_of_int (- i) :: rlim_t) = word_of_int (2 ^ 64 - i)" by (simp add: word_of_int_eq_iff take_bit_eq_mod mod_simps)
  moreover have "unat (word_of_int (2 ^ 64 - i) :: rlim_t) = nat (2 ^ 64 - i)"
    using assms(3,4) by (intro unat_word_of_int) auto
  ultimately show "unat (of_int (- i) :: rlim_t) = nat (2 ^ 64 - i)" by metis
qed

theorem rlimit_negative_witness:
  "lc_setrlimit plain_host lax_rlimits [LString (bs ''NOFILE''), LNumber (of_int (- 5))] (\<lambda>_. (10, 20)) =
    Ret ([LBool True], (\<lambda>_. (10, 20))(7 := (- 5, 20)))"
  using rlimit_negative [of "''NOFILE''" 7 lax_rlimits "\<lambda>_. (10, 20)" 10 20 5 plain_host]
  by (simp add: resources_def lax_rlimits_def)

section \<open>Environment\<close>

text \<open>\<open>setenv\<close> sets the variable, or removes it when the value is nil or missing, and leaves every other
  variable alone (name and value end at a NUL); when the system refuses, it returns nil with the
  message and changes nothing.\<close>

theorem setenv_updates:
  "lc_setenv H os_setenv (LString n # (case v of None \<Rightarrow> [] | Some t \<Rightarrow> [LString t])) env =
    (let errno = os_setenv (cstr n) (map_option cstr v) in
     if errno = 0 then Ret ([LBool True], env(cstr n := map_option cstr v))
     else Ret ([LNil, LString (strerror H errno)], env))"
  by (cases v) (simp_all add: lc_setenv_def lua_api Let_def)

end
