(* ===== verification/PposixFile.thy ===== *)
theory PposixFile
  imports LuaApi
begin

text \<open>
  \<open>lc_atomic_append\<close> of \<open>util-src/pposix.c\<close>: appending to an open file so that either all of the data
  or none of it is there afterwards. A \<open>FILE\<close> is the file on disk, the offset of its descriptor and
  the bytes that \<open>fwrite\<close> accepted and that were not written yet. The answers of the system are the
  fields of \<open>append_os\<close>: every call that writes tells how many of the waiting bytes reached the file.
\<close>

record stdio_file =
  f_content :: "byte list"
  f_off :: nat                \<comment> \<open>offset of the descriptor\<close>
  f_buf :: "byte list"        \<comment> \<open>accepted and not yet written\<close>

record append_os =
  os_fallocate :: "int \<times> int"         \<comment> \<open>result and \<open>errno\<close>\<close>
  os_fwrite :: "nat \<times> nat"            \<comment> \<open>bytes accepted at most, and bytes that reached the file\<close>
  os_ferror :: int
  os_fflush :: "int option \<times> nat"     \<comment> \<open>the \<open>errno\<close> of a failure, and bytes that reached the file then\<close>
  os_fseek :: "bool \<times> nat"            \<comment> \<open>success, and bytes that reached the file when it fails\<close>
  os_ftruncate :: "int option"         \<comment> \<open>the \<open>errno\<close> of a failure\<close>

text \<open>Bytes written at a position of a file; a gap is filled with zeros.\<close>

definition write_at :: "byte list \<Rightarrow> nat \<Rightarrow> byte list \<Rightarrow> byte list" where
  "write_at c p d = take p c @ replicate (p - length c) 0 @ d @ drop (p + length d) c"

definition truncate_at :: "byte list \<Rightarrow> nat \<Rightarrow> byte list" where
  "truncate_at c p = take p c @ replicate (p - length c) 0"

text \<open>The first \<open>w\<close> waiting bytes reach the file.\<close>

definition write_out :: "nat \<Rightarrow> stdio_file \<Rightarrow> stdio_file" where
  "write_out w f = \<lparr>f_content = write_at (f_content f) (f_off f) (take w (f_buf f)),
     f_off = f_off f + length (take w (f_buf f)), f_buf = drop w (f_buf f)\<rparr>"

section \<open>The calls of the C library\<close>

definition ftell :: "stdio_file \<Rightarrow> nat" where
  "ftell f = f_off f + length (f_buf f)"

text \<open>The number of bytes accepted, and the file.\<close>

definition fwrite :: "append_os \<Rightarrow> byte list \<Rightarrow> stdio_file \<Rightarrow> nat \<times> stdio_file" where
  "fwrite E data f = (let accepted = take (fst (os_fwrite E)) data in
     (length accepted, write_out (snd (os_fwrite E)) (f\<lparr>f_buf := f_buf f @ accepted\<rparr>)))"

definition fflush :: "append_os \<Rightarrow> stdio_file \<Rightarrow> int option \<times> stdio_file" where
  "fflush E f = (case os_fflush E of
     (None, _) \<Rightarrow> (None, write_out (length (f_buf f)) f)
   | (Some errno, w) \<Rightarrow> (Some errno, write_out w f))"

text \<open>\<open>fseek\<close> writes the waiting bytes first; when that fails they stay, and so does the offset behind
  the ones written.\<close>

definition fseek_set :: "append_os \<Rightarrow> nat \<Rightarrow> stdio_file \<Rightarrow> stdio_file" where
  "fseek_set E offset f = (case os_fseek E of
     (True, _) \<Rightarrow> (write_out (length (f_buf f)) f)\<lparr>f_off := offset\<rparr>
   | (False, w) \<Rightarrow> write_out w f)"

definition ftruncate :: "append_os \<Rightarrow> nat \<Rightarrow> stdio_file \<Rightarrow> int option \<times> stdio_file" where
  "ftruncate E offset f = (case os_ftruncate E of
     None \<Rightarrow> (None, f\<lparr>f_content := truncate_at (f_content f) offset\<rparr>)
   | Some errno \<Rightarrow> (Some errno, f))"

section \<open>\<open>lc_atomic_append\<close>\<close>

definition LUA_FILEHANDLE :: string where "LUA_FILEHANDLE = ''FILE*''"

text \<open>After the space was reserved: undoing a failed write, and writing. The file is part of the
  result also when the call raises an error.\<close>

definition append_undo :: "host \<Rightarrow> append_os \<Rightarrow> nat \<Rightarrow> int \<Rightarrow> stdio_file \<Rightarrow> lua_value list cres \<times> stdio_file" where
  "append_undo H E offset err f =
    (let f = fseek_set E offset f
     in case ftruncate E offset f of
          (Some errno, f) \<Rightarrow> (Raise (RuntimeError (bs ''atomic_append() failed in ftruncate(): '' @ strerror H errno)), f)
        | (None, f) \<Rightarrow> (Ret (push_errno H err), f))"

definition append_write :: "host \<Rightarrow> append_os \<Rightarrow> byte list \<Rightarrow> nat \<Rightarrow> stdio_file \<Rightarrow> lua_value list cres \<times> stdio_file" where
  "append_write H E data offset f =
    (case fwrite E data f of (n, f) \<Rightarrow>
     if n = length data then
       (case fflush E f of
          (None, f) \<Rightarrow> (Ret [LBool True], f)
        | (Some errno, f) \<Rightarrow> append_undo H E offset errno f)
     else append_undo H E offset (os_ferror E) f)"

definition lc_atomic_append :: "host \<Rightarrow> append_os \<Rightarrow> lua_args \<Rightarrow> stdio_file \<Rightarrow> lua_value list cres \<times> stdio_file" where
  "lc_atomic_append H E L f =
    (case cbind (luaL_checkudata L 1 LUA_FILEHANDLE) (\<lambda>_. luaL_checklstring H L 2) of
       Raise e \<Rightarrow> (Raise e, f)
     | Undef u \<Rightarrow> (Undef u, f)
     | Ret data \<Rightarrow>
         let offset = ftell f;
             (ret, errno) = os_fallocate E
         in if ret \<noteq> 0 then
              let err = (if errno \<noteq> 0 then errno else ret) in
              if err = ENOSYS \<or> err = EOPNOTSUPP then append_write H E data offset f
              else (Ret (push_errno H err), f)
            else append_write H E data offset f)"

section \<open>Atomicity\<close>

lemma truncate_write_at: "p \<le> q \<Longrightarrow> truncate_at (write_at c q d) p = truncate_at c p"
  by (cases "p \<le> length c") (auto simp: truncate_at_def write_at_def min_def)

lemma truncate_write_out: "p \<le> f_off f \<Longrightarrow> truncate_at (f_content (write_out w f)) p = truncate_at (f_content f) p"
  by (simp add: write_out_def truncate_write_at)

lemma f_off_write_out: "f_off f \<le> f_off (write_out w f)"
  by (simp add: write_out_def)

lemma take_min_drop [simp]: "take (min (length d) w) d @ drop w d = d"
  by (cases "w \<le> length d") (simp_all add: min_def)

lemma truncate_at_end [simp]: "truncate_at c (length c) = c"
  by (simp add: truncate_at_def)

text \<open>A file at whose end a prefix of the data was written and the next bytes of it wait.\<close>

definition appending :: "byte list \<Rightarrow> byte list \<Rightarrow> stdio_file \<Rightarrow> bool" where
  "appending c data f \<longleftrightarrow> (\<exists>k n. f_content f = c @ take k data \<and> f_off f = length (c @ take k data) \<and>
     f_buf f = take n (drop k data))"

lemma appending_write_out: "appending c data f \<Longrightarrow> appending c data (write_out w f)"
proof -
  assume "appending c data f"
  then obtain k n where f: "f_content f = c @ take k data" "f_off f = length (c @ take k data)"
    "f_buf f = take n (drop k data)" by (auto simp: appending_def)
  let ?m = "min w n"
  have "take k data @ take ?m (drop k data) = take (k + ?m) data" by (simp add: take_add)
  then have "f_content (write_out w f) = c @ take (k + ?m) data"
    "f_off (write_out w f) = length (c @ take (k + ?m) data)"
    using f by (auto simp: write_out_def write_at_def take_drop min_def)
  moreover have "f_buf (write_out w f) = take (n - w) (drop (k + ?m) data)"
    using f by (cases "w \<le> n") (simp_all add: write_out_def drop_take add.commute)
  ultimately show ?thesis by (auto simp: appending_def)
qed

lemma append_undo_content:
  assumes "offset \<le> f_off f" and "os_ftruncate E = None"
  shows "\<exists>f'. append_undo H E offset err f = (Ret (push_errno H err), f') \<and> f_content f' = truncate_at (f_content f) offset \<and>
    (fst (os_fseek E) \<longrightarrow> f' = \<lparr>f_content = truncate_at (f_content f) offset, f_off = offset, f_buf = []\<rparr>)"
  using assms truncate_write_at [OF assms(1)]
  by (cases "os_fseek E")
    (auto simp: append_undo_def fseek_set_def ftruncate_def Let_def write_out_def split: bool.splits)

lemma append_undo_raise:
  assumes "appending c data f" and "os_ftruncate E = Some errno"
  shows "\<exists>f' k. append_undo H E offset err f =
    (Raise (RuntimeError (bs ''atomic_append() failed in ftruncate(): '' @ strerror H errno)), f') \<and> f_content f' = c @ take k data"
  using assms(2) appending_write_out [OF assms(1)]
  by (cases "os_fseek E")
    (auto simp: append_undo_def fseek_set_def ftruncate_def Let_def appending_def split: bool.splits)

text \<open>The answers of \<open>fallocate\<close> that stop the call, and the error it returns then.\<close>

definition append_refused :: "append_os \<Rightarrow> int option" where
  "append_refused E = (case os_fallocate E of (ret, errno) \<Rightarrow>
     let err = (if errno \<noteq> 0 then errno else ret) in
     if ret = 0 \<or> err = ENOSYS \<or> err = EOPNOTSUPP then None else Some err)"

lemma lc_atomic_append_write:
  "lc_atomic_append H E [LUserdata LUA_FILEHANDLE p, LString data] f =
    (case append_refused E of None \<Rightarrow> append_write H E data (ftell f) f | Some err \<Rightarrow> (Ret (push_errno H err), f))"
  by (auto simp: lc_atomic_append_def append_refused_def lua_api Let_def split: prod.splits)

text \<open>The write failed: \<open>fwrite\<close> did not accept everything, or \<open>fflush\<close> did not write it.\<close>

definition append_failed :: "append_os \<Rightarrow> byte list \<Rightarrow> int option" where
  "append_failed E data =
    (if fst (os_fwrite E) < length data then Some (os_ferror E) else fst (os_fflush E))"

lemma append_write_failed:
  assumes "append_failed E data = Some err" and "f_buf f = []"
  shows "\<exists>f1. append_write H E data (ftell f) f = append_undo H E (ftell f) err f1 \<and> f_off f \<le> f_off f1 \<and>
    (\<forall>n. n \<le> f_off f \<longrightarrow> truncate_at (f_content f1) n = truncate_at (f_content f) n) \<and>
    (f_off f = length (f_content f) \<longrightarrow> appending (f_content f) data f1)"
proof -
  let ?f0 = "f\<lparr>f_buf := take (fst (os_fwrite E)) data\<rparr>"
  let ?f1 = "write_out (snd (os_fwrite E)) ?f0"
  have fw: "fwrite E data f = (length (take (fst (os_fwrite E)) data), ?f1)"
    using assms(2) by (simp add: fwrite_def Let_def)
  have 1: "f_off f \<le> f_off ?f1" "\<forall>n. n \<le> f_off f \<longrightarrow> truncate_at (f_content ?f1) n = truncate_at (f_content f) n"
    using f_off_write_out [of ?f0] truncate_write_out [of _ ?f0] by simp_all
  have 2: "appending (f_content f) data ?f1" if "f_off f = length (f_content f)"
  proof (rule appending_write_out)
    show "appending (f_content f) data ?f0" using that
      unfolding appending_def by (intro exI [of _ 0] exI [of _ "fst (os_fwrite E)"]) simp
  qed
  show ?thesis
  proof (cases "fst (os_fwrite E) < length data")
    case True
    with assms(1) fw 1 2 show ?thesis
      by (intro exI [of _ ?f1]) (auto simp: append_write_def append_failed_def min_def)
  next
    case False
    with assms(1) have ff: "fflush E ?f1 = (Some err, write_out (snd (os_fflush E)) ?f1)"
      by (cases "os_fflush E") (simp add: append_failed_def fflush_def)
    let ?f2 = "write_out (snd (os_fflush E)) ?f1"
    have "f_off f \<le> f_off ?f2" using 1(1) f_off_write_out le_trans by blast
    moreover have "\<forall>n. n \<le> f_off f \<longrightarrow> truncate_at (f_content ?f2) n = truncate_at (f_content f) n"
      using 1 truncate_write_out [of _ ?f1] by simp
    ultimately show ?thesis using False fw ff 2 appending_write_out
      by (intro exI [of _ ?f2]) (simp add: append_write_def)
  qed
qed

text \<open>C18: appending at the end of a file, with nothing waiting in the handle. When space cannot be
  reserved the call returns the error and does nothing. When the data is accepted and written, and
  only then, it returns true and the file has the data at its end, with nothing waiting. Otherwise
  it returns the error of the write and the file has its old content, with the handle as before if
  the position could be set back; only when the file cannot be cut back does the call raise an
  error, with a part of the data in the file.\<close>

theorem atomic_append_atomic:
  assumes "f_off f = length (f_content f)" and "f_buf f = []"
    and "lc_atomic_append H E [LUserdata LUA_FILEHANDLE p, LString data] f = (r, f')"
  shows "case append_refused E of
      Some err \<Rightarrow> r = Ret (push_errno H err) \<and> f' = f
    | None \<Rightarrow> (case append_failed E data of
        None \<Rightarrow> r = Ret [LBool True] \<and>
          f' = \<lparr>f_content = f_content f @ data, f_off = length (f_content f @ data), f_buf = []\<rparr>
      | Some err \<Rightarrow> (case os_ftruncate E of
          None \<Rightarrow> r = Ret (push_errno H err) \<and> f_content f' = f_content f \<and> (fst (os_fseek E) \<longrightarrow> f' = f)
        | Some errno \<Rightarrow>
            r = Raise (RuntimeError (bs ''atomic_append() failed in ftruncate(): '' @ strerror H errno)) \<and>
            (\<exists>k. f_content f' = f_content f @ take k data)))"
proof (cases "append_refused E")
  case None
  then have run: "append_write H E data (ftell f) f = (r, f')" using assms(3) by (simp add: lc_atomic_append_write)
  have tell: "ftell f = length (f_content f)" using assms(1,2) by (simp add: ftell_def)
  show ?thesis
  proof (cases "append_failed E data")
    case ok: None
    then have "length data \<le> fst (os_fwrite E)" "fst (os_fflush E) = None"
      by (auto simp: append_failed_def split: if_splits)
    with run assms(1,2) None ok show ?thesis
      by (cases "os_fflush E") (auto simp: append_write_def fwrite_def fflush_def write_out_def write_at_def Let_def)
  next
    case (Some err)
    from append_write_failed [OF this assms(2), of H] obtain f1 where f1:
      "append_undo H E (length (f_content f)) err f1 = (r, f')" "length (f_content f) \<le> f_off f1"
      "truncate_at (f_content f1) (length (f_content f)) = f_content f" "appending (f_content f) data f1"
      using run assms(1) tell by auto
    have f: "f = \<lparr>f_content = f_content f, f_off = length (f_content f), f_buf = []\<rparr>"
      using assms(1,2) by (cases f) simp
    show ?thesis
    proof (cases "os_ftruncate E")
      case cut: None
      from append_undo_content [OF f1(2) cut, of H err] f1 f None Some cut show ?thesis by auto
    next
      case raise: (Some errno)
      from append_undo_raise [OF f1(4) raise, of H "length (f_content f)" err] f1(1) None Some raise show ?thesis by auto
    qed
  qed
next
  case (Some err)
  with assms(3) show ?thesis by (simp add: lc_atomic_append_write)
qed

definition full_disk :: append_os where
  "full_disk = \<lparr>os_fallocate = (- 1, EOPNOTSUPP), os_fwrite = (2, 0), os_ferror = 0, os_fflush = (Some ENOSPC, 1),
     os_fseek = (True, 0), os_ftruncate = None\<rparr>"

theorem atomic_append_atomic_witness:
  "\<exists>f'. lc_atomic_append plain_host full_disk [LUserdata LUA_FILEHANDLE 0, LString [7, 8]]
      \<lparr>f_content = [1, 2], f_off = 2, f_buf = []\<rparr> = (Ret (push_errno plain_host ENOSPC), f') \<and>
    f' = \<lparr>f_content = [1, 2], f_off = 2, f_buf = []\<rparr>"
proof -
  let ?f = "\<lparr>f_content = [1, 2], f_off = 2, f_buf = []\<rparr> :: stdio_file"
  obtain r f' where run: "lc_atomic_append plain_host full_disk [LUserdata LUA_FILEHANDLE 0, LString [7, 8]] ?f = (r, f')"
    by fastforce
  have "append_refused full_disk = None" "append_failed full_disk [7, 8] = Some ENOSPC"
    by (simp_all add: append_refused_def append_failed_def full_disk_def errno_defs)
  with atomic_append_atomic [OF _ _ run] run show ?thesis by (simp add: full_disk_def)
qed

text \<open>The cut goes to the position of the handle, not to the original size of the file: when an
  append in the middle of a file fails, everything behind the position is lost.\<close>

theorem atomic_append_cuts:
  assumes "f_off f \<le> length (f_content f)" and "f_buf f = []" and "append_refused E = None"
    and "append_failed E data = Some err" and "os_ftruncate E = None"
  shows "\<exists>f'. lc_atomic_append H E [LUserdata LUA_FILEHANDLE p, LString data] f = (Ret (push_errno H err), f') \<and>
    f_content f' = take (f_off f) (f_content f)"
proof -
  from append_write_failed [OF assms(4,2), of H] obtain f1 where f1:
    "append_write H E data (ftell f) f = append_undo H E (ftell f) err f1" "f_off f \<le> f_off f1"
    "truncate_at (f_content f1) (f_off f) = truncate_at (f_content f) (f_off f)" by auto
  with append_undo_content [OF f1(2) assms(5), of H err] assms(1-3) show ?thesis
    by (auto simp: lc_atomic_append_write ftell_def truncate_at_def)
qed

theorem atomic_append_cuts_witness:
  "\<exists>f'. lc_atomic_append plain_host full_disk [LUserdata LUA_FILEHANDLE 0, LString [7, 8]]
      \<lparr>f_content = [1, 2, 3, 4], f_off = 2, f_buf = []\<rparr> = (Ret (push_errno plain_host ENOSPC), f') \<and> f_content f' = [1, 2]"
proof -
  have "append_refused full_disk = None" "append_failed full_disk [7, 8] = Some ENOSPC" "os_ftruncate full_disk = None"
    by (simp_all add: append_refused_def append_failed_def full_disk_def errno_defs)
  from atomic_append_cuts [of "\<lparr>f_content = [1, 2, 3, 4], f_off = 2, f_buf = []\<rparr>", OF _ _ this]
  show ?thesis by simp
qed



end
