(* ===== verification/SmallModules.thy ===== *)
theory SmallModules
  imports LuaApi
begin

text \<open>
  The small modules: \<open>util-src/table.c\<close>, \<open>util-src/compat.c\<close>, \<open>util-src/time.c\<close> and
  \<open>util-src/windows.c\<close>. The first two work on the Lua stack, which is a list with its top at the end;
  protected calls, clocks and the calls of Windows are parameters.
\<close>

section \<open>The stack\<close>

definition lua_pushvalue :: "nat \<Rightarrow> lua_value list \<Rightarrow> lua_value list" where
  "lua_pushvalue i st = st @ [st ! (i - 1)]"

definition lua_replace :: "nat \<Rightarrow> lua_value list \<Rightarrow> lua_value list" where
  "lua_replace i st = (butlast st)[i - 1 := last st]"

text \<open>Setting and reading a field of a table; \<open>nil\<close> removes it.\<close>

type_synonym lua_table = "(lua_value \<times> lua_value) list"

definition table_set :: "lua_table \<Rightarrow> lua_value \<Rightarrow> lua_value \<Rightarrow> lua_table" where
  "table_set t k v = (let t' = filter (\<lambda>(k', _). k' \<noteq> k) t in if v = LNil then t' else (k, v) # t')"

definition table_get :: "lua_table \<Rightarrow> lua_value \<Rightarrow> lua_value" where
  "table_get t k = (case map_of t k of Some v \<Rightarrow> v | None \<Rightarrow> LNil)"

lemma table_get_set: "table_get (table_set t k v) k' = (if k' = k then v else table_get t k')"
proof -
  have "map_of (filter (\<lambda>(x, _). x \<noteq> k) t) k' = (if k' = k then None else map_of t k')" for k'
    by (induction t) auto
  then show ?thesis by (simp add: table_get_def table_set_def Let_def)
qed

section \<open>Tables\<close>

definition Lcreate_table :: "host \<Rightarrow> lua_args \<Rightarrow> lua_value list cres" where
  "Lcreate_table H L =
    cbind (luaL_checkinteger H L 1) (\<lambda>narr.
    cbind (luaL_checkinteger H L 2) (\<lambda>nrec. Ret [LTable []]))"

text \<open>The loop of \<open>Lpack\<close>: \<open>arg\<close> counts down while the arguments are popped off the stack.\<close>

fun pack_loop :: "nat \<Rightarrow> lua_value list \<Rightarrow> lua_table \<Rightarrow> lua_table" where
  "pack_loop 0 st t = t"
| "pack_loop (Suc n) st t = pack_loop n (butlast st) (table_set t (LNumber (of_nat (Suc n))) (last st))"

definition Lpack :: "lua_args \<Rightarrow> lua_value list" where
  "Lpack L =
    (let n_args = length L;
         t = pack_loop n_args L []
     in [LTable (table_set t (LString (bs ''n'')) (LNumber (of_nat n_args)))])"

lemma pack_loop_get:
  "length st = n \<Longrightarrow> table_get (pack_loop n st t) k =
    (case k of
       LNumber q \<Rightarrow> if \<exists>i. 1 \<le> i \<and> i \<le> n \<and> q = of_nat i then st ! (nat \<lfloor>q\<rfloor> - 1) else table_get t k
     | _ \<Rightarrow> table_get t k)"
proof (induction n st t rule: pack_loop.induct)
  case (2 n st t)
  then have len: "length (butlast st) = n" "st \<noteq> []" by auto
  have nth: "butlast st ! i = st ! i" if "i < n" for i using that len by (simp add: nth_butlast)
  have top: "last st = st ! n" using 2(2) len by (simp add: last_conv_nth)
  show ?case
  proof (cases k)
    case (LNumber q)
    have split: "(\<exists>i. 1 \<le> i \<and> i \<le> Suc n \<and> q = rat_of_nat i) \<longleftrightarrow>
        q = rat_of_nat (Suc n) \<or> (\<exists>i. 1 \<le> i \<and> i \<le> n \<and> q = rat_of_nat i)"
      by (metis le_Suc_eq le_refl One_nat_def Suc_le_mono le0)
    show ?thesis
    proof (cases "\<exists>i. 1 \<le> i \<and> i \<le> n \<and> q = rat_of_nat i")
      case True
      then obtain i where i: "1 \<le> i" "i \<le> n" "q = rat_of_nat i" by blast
      then have "i - 1 < n" by simp
      with 2(1) [OF len(1)] LNumber True i nth split show ?thesis by (auto simp: split)
    next
      case False
      with 2(1) [OF len(1)] LNumber split top show ?thesis
        by (auto simp: table_get_set simp del: of_nat_Suc)
    qed
  qed (use 2(1) [OF len(1)] in \<open>simp_all add: table_get_set\<close>)
qed (simp split: lua_value.splits)

text \<open>\<open>pack\<close> returns a table that has the arguments at the keys from 1 to their number, holes
  included, their number at the key n, and nothing else.\<close>

theorem pack_get:
  "\<exists>t. Lpack L = [LTable t] \<and> table_get t (LString (bs ''n'')) = LNumber (of_nat (length L)) \<and>
    (\<forall>i. table_get t (LNumber (of_nat i)) = (if 1 \<le> i \<and> i \<le> length L then L ! (i - 1) else LNil)) \<and>
    (\<forall>k. k \<noteq> LString (bs ''n'') \<and> (\<forall>i. k \<noteq> LNumber (of_nat i)) \<longrightarrow> table_get t k = LNil)"
proof -
  have nil: "table_get [] k = LNil" for k by (simp add: table_get_def)
  show ?thesis
    by (auto simp: Lpack_def Let_def table_get_set pack_loop_get nil split: lua_value.splits)
qed

section \<open>Protected calls\<close>

text \<open>\<open>lua_pcall(L, nargs, LUA_MULTRET, errfunc)\<close>: the function and its arguments on top of the stack
  are replaced by the results, or by the one error value. The parameter \<open>pcall\<close> runs a function with
  a message handler: it returns whether the call succeeded, and the values.\<close>

definition lua_pcall :: "(lua_value \<Rightarrow> lua_value \<Rightarrow> lua_value list \<Rightarrow> bool \<times> lua_value list) \<Rightarrow> nat \<Rightarrow> nat \<Rightarrow>
    lua_value list \<Rightarrow> bool \<times> lua_value list" where
  "lua_pcall pcall nargs errfunc st =
    (let base = length st - nargs - 1;
         (ok, vs) = pcall (st ! base) (st ! (errfunc - 1)) (drop (base + 1) st)
     in (ok, take base st @ vs))"

definition lc_xpcall :: "(lua_value \<Rightarrow> lua_value \<Rightarrow> lua_value list \<Rightarrow> bool \<times> lua_value list) \<Rightarrow> lua_args \<Rightarrow>
    lua_value list cres" where
  "lc_xpcall pcall L =
    (let n_arg = length L in
     cbind (luaL_argcheck (n_arg \<ge> 2) 2 ''value expected'') (\<lambda>_.
       let st = lua_pushvalue 1 L;
           st = lua_pushvalue 2 st;
           st = lua_replace 1 st;
           st = lua_replace 2 st;
           (ok, st) = lua_pcall pcall (n_arg - 2) 1 st;
           st = st @ [LBool ok];
           st = lua_replace 1 st
       in Ret st))"

text \<open>\<open>xpcall\<close> calls its first argument with its second as the message handler and the others as
  arguments, and returns whether the call succeeded followed by all its results.\<close>

theorem xpcall_calls:
  "lc_xpcall pcall (f # msgh # args) =
    Ret (LBool (fst (pcall f msgh args)) # snd (pcall f msgh args))"
  by (simp add: lc_xpcall_def luaL_argcheck_def lua_pushvalue_def lua_replace_def lua_pcall_def
      case_prod_beta Let_def butlast_append)

section \<open>Clocks\<close>

record timespec =
  tv_sec :: int
  tv_nsec :: int

definition tv2number :: "timespec \<Rightarrow> rat" where
  "tv2number tv = of_int (tv_sec tv) + of_int (tv_nsec tv) * (1 / 10 ^ 9)"

definition lc_time_realtime :: "timespec \<Rightarrow> lua_value list" where
  "lc_time_realtime t = [LNumber (tv2number t)]"

definition lc_time_monotonic :: "timespec \<Rightarrow> lua_value list" where
  "lc_time_monotonic t = [LNumber (tv2number t)]"

text \<open>The numbers of the clocks keep the order of the time stamps: for nanoseconds below a second,
  an earlier time stamp gives a smaller number (in exact arithmetic).\<close>

theorem tv2number_mono:
  assumes "0 \<le> tv_nsec a" and "tv_nsec a < 10 ^ 9" and "0 \<le> tv_nsec b" and "tv_nsec b < 10 ^ 9"
  shows "tv2number a < tv2number b \<longleftrightarrow> tv_sec a < tv_sec b \<or> (tv_sec a = tv_sec b \<and> tv_nsec a < tv_nsec b)"
proof -
  have num: "tv2number t = of_int (tv_sec t * 10 ^ 9 + tv_nsec t) / 10 ^ 9" for t
    by (simp add: tv2number_def field_simps)
  have "tv2number a < tv2number b \<longleftrightarrow> tv_sec a * 10 ^ 9 + tv_nsec a < tv_sec b * 10 ^ 9 + tv_nsec b"
    unfolding num divide_less_cancel of_int_less_iff by simp
  with assms show ?thesis by auto
qed

theorem tv2number_mono_witness:
  "tv2number \<lparr>tv_sec = 1, tv_nsec = 999999999\<rparr> < tv2number \<lparr>tv_sec = 2, tv_nsec = 0\<rparr>"
  using tv2number_mono [of "\<lparr>tv_sec = 1, tv_nsec = 999999999\<rparr>" "\<lparr>tv_sec = 2, tv_nsec = 0\<rparr>"] by simp

section \<open>Windows\<close>

text \<open>\<open>%d\<close> of a small number, and the text of an address in \<open>ip_str[16]\<close>.\<close>

fun decimal :: "nat \<Rightarrow> byte list" where
  "decimal n = (if n < 10 then [of_nat (0x30 + n)] else decimal (n div 10) @ [of_nat (0x30 + n mod 10)])"

declare decimal.simps [simp del]

definition ip_str :: "uint32 \<Rightarrow> byte list cres" where
  "ip_str ip =
    (let dot = [0x2e];
         s = decimal (unat (drop_bit 0 ip AND 255)) @ dot @ decimal (unat (drop_bit 8 ip AND 255)) @ dot @
             decimal (unat (drop_bit 16 ip AND 255)) @ dot @ decimal (unat (drop_bit 24 ip AND 255))
     in if length s < 16 then Ret s else Undef OutOfBounds)"

fun nameserver_loop :: "uint32 list \<Rightarrow> nat \<Rightarrow> lua_table cres" where
  "nameserver_loop [] i = Ret []"
| "nameserver_loop (ip # ips) i =
     cbind (ip_str ip) (\<lambda>s. cbind (nameserver_loop ips (i + 1)) (\<lambda>t.
       Ret ((LNumber (of_nat (i + 1)), LString s) # t)))"

text \<open>The result of \<open>DnsQueryConfig\<close>: a status, or the addresses.\<close>

definition Lget_nameservers :: "host \<Rightarrow> int + uint32 list \<Rightarrow> lua_value list cres" where
  "Lget_nameservers H r =
    (case r of
       Inr ips \<Rightarrow> cbind (nameserver_loop ips 0) (\<lambda>t. Ret [LTable t])
     | Inl status \<Rightarrow> Ret [LNil, LString (bs ''DnsQueryConfig returned '' @ num2str H (of_int status))])"

record console =
  con_handle_ok :: bool
  con_info_ok :: bool
  con_attribute :: "16 word option"      \<comment> \<open>\<open>ReadConsoleOutputAttribute\<close>\<close>
  con_set :: "int \<Rightarrow> bool"              \<comment> \<open>\<open>SetConsoleTextAttribute\<close>\<close>
  con_error :: int                       \<comment> \<open>\<open>GetLastError\<close>\<close>

definition lerror :: "host \<Rightarrow> console \<Rightarrow> string \<Rightarrow> lua_value list" where
  "lerror H W s = [LNil, LString (bs s @ bs '': '' @ num2str H (of_int (con_error W)))]"

definition Lget_consolecolor :: "host \<Rightarrow> console \<Rightarrow> lua_value list" where
  "Lget_consolecolor H W =
    (if \<not> con_handle_ok W then lerror H W ''GetStdHandle''
     else if \<not> con_info_ok W then lerror H W ''GetConsoleScreenBufferInfo''
     else case con_attribute W of
       None \<Rightarrow> lerror H W ''ReadConsoleOutputAttribute''
     | Some color \<Rightarrow> [LNumber (of_nat (unat color))])"

definition Lset_consolecolor :: "host \<Rightarrow> console \<Rightarrow> lua_args \<Rightarrow> lua_value list cres" where
  "Lset_consolecolor H W L =
    cbind (luaL_checkinteger H L 1) (\<lambda>n.
      let color = cast_int n in
      if \<not> con_handle_ok W then Ret (lerror H W ''GetStdHandle'')
      else if \<not> con_set W color then Ret (lerror H W ''SetConsoleTextAttribute'')
      else Ret [LBool True])"

lemma length_decimal_byte: "n < 256 \<Longrightarrow> length (decimal n) \<le> 3"
  by (simp add: decimal.simps [of n] decimal.simps [of "n div 10"] decimal.simps [of "n div 10 div 10"])

lemma quad_byte:
  "drop_bit 0 (quad_of_bytes a b c d) AND 255 = ucast a" "drop_bit 8 (quad_of_bytes a b c d) AND 255 = ucast b"
  "drop_bit 16 (quad_of_bytes a b c d) AND 255 = ucast c" "drop_bit 24 (quad_of_bytes a b c d) AND 255 = ucast d"
proof -
  have m: "(255 :: uint32) = mask 8" by (simp add: mask_eq_exp_minus_1)
  show "drop_bit 0 (quad_of_bytes a b c d) AND 255 = ucast a" "drop_bit 8 (quad_of_bytes a b c d) AND 255 = ucast b"
    "drop_bit 16 (quad_of_bytes a b c d) AND 255 = ucast c" "drop_bit 24 (quad_of_bytes a b c d) AND 255 = ucast d"
    unfolding m by (auto intro!: bit_word_eqI simp: bit_and_iff bit_drop_bit_eq bit_quad_of_bytes bit_mask_iff
        bit_unsigned_iff) (metis byte_bit_high not_less)+
qed

text \<open>A name server is listed as its four bytes in decimal, in memory order, and the text fits the
  buffer of 16 bytes for every address.\<close>

theorem nameserver_text:
  "Lget_nameservers H (Inr [quad_of_bytes a b c d]) =
    Ret [LTable [(LNumber 1, LString (decimal (unat a) @ [0x2e] @ decimal (unat b) @ [0x2e] @
      decimal (unat c) @ [0x2e] @ decimal (unat d)))]]"
proof -
  have "length (decimal (unat x)) \<le> 3" for x :: byte by (rule length_decimal_byte) simp
  from this [of a] this [of b] this [of c] this [of d]
  have "length (decimal (unat a)) + length (decimal (unat b)) + length (decimal (unat c)) + length (decimal (unat d)) \<le> 12"
    by linarith
  then show ?thesis by (simp add: Lget_nameservers_def ip_str_def quad_byte unat_ucast_byte del: drop_bit_0)
qed

end
