(* ===== verification/LuaModules.thy ===== *)
theory LuaModules
  imports RingbufferSearch Base64 Stringprep Hashes PollEpoll PollSelect Signal Crand Net PposixSyslog
    PposixProcess PposixFile SmallModules
begin

text \<open>
  The \<open>luaopen\<close> functions of \<open>util-src\<close>: the table that each module returns and the metatables that it
  leaves in the registry. A C function in a table is its name in the sources; the functions of the two
  modules with objects, the ring buffer and the poller, are bound to their definitions, so that a
  method call of a Lua program runs the definition. Version checks of later Lua releases and the
  size hints of \<open>lua_createtable\<close> have no effect here.
\<close>

section \<open>Tables and the registry\<close>

type_synonym luaL_Reg = "(string \<times> string) list"

type_synonym registry = "string \<rightharpoonup> lua_table"

definition lua_setfield :: "lua_table \<Rightarrow> string \<Rightarrow> lua_value \<Rightarrow> lua_table" where
  "lua_setfield t k v = table_set t (LString (bs k)) v"

definition lua_getfield :: "lua_table \<Rightarrow> string \<Rightarrow> lua_value" where
  "lua_getfield t k = table_get t (LString (bs k))"

definition luaL_setfuncs :: "lua_table \<Rightarrow> luaL_Reg \<Rightarrow> lua_table" where
  "luaL_setfuncs t reg = fold (\<lambda>(name, f) t. lua_setfield t name (LCFunction f)) reg t"

text \<open>\<open>luaL_newmetatable\<close> tells whether the metatable is new; the functions after it set its fields.\<close>

definition luaL_newmetatable :: "registry \<Rightarrow> string \<Rightarrow> bool \<times> registry" where
  "luaL_newmetatable R mt = (case R mt of Some _ \<Rightarrow> (False, R) | None \<Rightarrow> (True, R(mt \<mapsto> [])))"

definition meta_setfield :: "registry \<Rightarrow> string \<Rightarrow> string \<Rightarrow> lua_value \<Rightarrow> registry" where
  "meta_setfield R mt k v = R(mt \<mapsto> lua_setfield (case R mt of Some t \<Rightarrow> t | None \<Rightarrow> []) k v)"

lemma getfield_setfield: "lua_getfield (lua_setfield t k v) k' = (if k' = k then v else lua_getfield t k')"
  by (simp add: lua_getfield_def lua_setfield_def table_get_set)

lemma getfield_empty: "lua_getfield [] k = LNil"
  by (simp add: lua_getfield_def table_get_def)

lemma getfield_setfuncs:
  "distinct (map fst reg) \<Longrightarrow> lua_getfield (luaL_setfuncs t reg) k =
    (case map_of reg k of Some f \<Rightarrow> LCFunction f | None \<Rightarrow> lua_getfield t k)"
proof (induction reg arbitrary: t)
  case (Cons x reg)
  obtain n f where x: "x = (n, f)" by force
  have "luaL_setfuncs t (x # reg) = luaL_setfuncs (lua_setfield t n (LCFunction f)) reg"
    by (simp add: luaL_setfuncs_def x)
  moreover have "map_of reg n = None" using Cons.prems x by (simp add: map_of_eq_None_iff)
  ultimately show ?case using Cons x by (auto simp: getfield_setfield split: option.splits)
qed (simp add: luaL_setfuncs_def)

lemmas fields = getfield_setfield getfield_empty getfield_setfuncs

section \<open>The modules without objects\<close>

definition luaopen_util_table :: lua_value where
  "luaopen_util_table =
    (let t = lua_setfield [] ''create'' (LCFunction ''Lcreate_table'');
         t = lua_setfield t ''pack'' (LCFunction ''Lpack'')
     in LTable t)"

definition luaopen_util_compat :: lua_value where
  "luaopen_util_compat = LTable (lua_setfield [] ''xpcall'' (LCFunction ''lc_xpcall''))"

definition luaopen_util_time :: lua_value where
  "luaopen_util_time =
    (let t = lua_setfield [] ''now'' (LCFunction ''lc_time_realtime'');
         t = lua_setfield t ''monotonic'' (LCFunction ''lc_time_monotonic'')
     in LTable t)"

definition Reg_windows :: luaL_Reg where
  "Reg_windows = [(''get_nameservers'', ''Lget_nameservers''), (''get_consolecolor'', ''Lget_consolecolor''),
     (''set_consolecolor'', ''Lset_consolecolor'')]"

definition luaopen_util_windows :: lua_value where
  "luaopen_util_windows =
    LTable (lua_setfield (luaL_setfuncs [] Reg_windows) ''version'' (LString (bs ''-3.14'')))"

definition Reg_hashes :: luaL_Reg where
  "Reg_hashes = [(''sha1'', ''Lsha1''), (''sha224'', ''Lsha224''), (''sha256'', ''Lsha256''), (''sha384'', ''Lsha384''),
     (''sha512'', ''Lsha512''), (''md5'', ''Lmd5''), (''hmac_sha1'', ''Lhmac_sha1''), (''hmac_sha256'', ''Lhmac_sha256''),
     (''hmac_sha512'', ''Lhmac_sha512''), (''hmac_md5'', ''Lhmac_md5''), (''scram_Hi_sha1'', ''LscramHi'')]"

definition luaopen_util_hashes :: lua_value where
  "luaopen_util_hashes =
    LTable (lua_setfield (luaL_setfuncs [] Reg_hashes) ''version'' (LString (bs ''-3.14'')))"

definition Reg_base64 :: luaL_Reg where
  "Reg_base64 = [(''encode'', ''Lbase64_encode''), (''decode'', ''Lbase64_decode'')]"

definition Reg_utf8 :: luaL_Reg where
  "Reg_utf8 = [(''valid'', ''Lutf8_valid''), (''length'', ''Lutf8_length'')]"

definition Reg_stringprep :: luaL_Reg where
  "Reg_stringprep = [(''nameprep'', ''Lstringprep_nameprep''), (''nodeprep'', ''Lstringprep_nodeprep''),
     (''resourceprep'', ''Lstringprep_resourceprep''), (''saslprep'', ''Lstringprep_saslprep'')]"

definition Reg_idna :: luaL_Reg where
  "Reg_idna = [(''to_ascii'', ''Lidna_to_ascii''), (''to_unicode'', ''Lidna_to_unicode'')]"

definition luaopen_util_encodings :: lua_value where
  "luaopen_util_encodings =
    (let t = lua_setfield [] ''base64'' (LTable (luaL_setfuncs [] Reg_base64));
         t = lua_setfield t ''stringprep'' (LTable (luaL_setfuncs [] Reg_stringprep));
         t = lua_setfield t ''idna'' (LTable (luaL_setfuncs [] Reg_idna));
         t = lua_setfield t ''utf8'' (LTable (luaL_setfuncs [] Reg_utf8));
         t = lua_setfield t ''version'' (LString (bs ''-3.14''))
     in LTable t)"

definition exports_net :: luaL_Reg where
  "exports_net = [(''local_addresses'', ''lc_local_addresses''), (''pton'', ''lc_pton''), (''ntop'', ''lc_ntop'')]"

definition luaopen_util_net :: lua_value where
  "luaopen_util_net = LTable (luaL_setfuncs [] exports_net)"

datatype crand_build = WITH_GETRANDOM | WITH_ARC4RANDOM | WITH_OPENSSL

definition luaopen_util_crand :: "crand_build \<Rightarrow> lua_value" where
  "luaopen_util_crand build =
    (let t = lua_setfield [] ''bytes'' (LCFunction ''Lrandom'');
         source = (case build of
             WITH_GETRANDOM \<Rightarrow> ''Linux'' | WITH_ARC4RANDOM \<Rightarrow> ''arc4random()'' | WITH_OPENSSL \<Rightarrow> ''OpenSSL'')
     in LTable (lua_setfield t ''_source'' (LString (bs source))))"

definition exports_pposix :: "bool \<Rightarrow> luaL_Reg" where
  "exports_pposix WITH_MALLINFO =
    [(''abort'', ''lc_abort''), (''daemonize'', ''lc_daemonize''), (''syslog_open'', ''lc_syslog_open''),
     (''syslog_close'', ''lc_syslog_close''), (''syslog_log'', ''lc_syslog_log''),
     (''syslog_setminlevel'', ''lc_syslog_setmask''), (''getpid'', ''lc_getpid''), (''getuid'', ''lc_getuid''),
     (''getgid'', ''lc_getgid''), (''setuid'', ''lc_setuid''), (''setgid'', ''lc_setgid''),
     (''initgroups'', ''lc_initgroups''), (''umask'', ''lc_umask''), (''mkdir'', ''lc_mkdir''),
     (''setrlimit'', ''lc_setrlimit''), (''getrlimit'', ''lc_getrlimit''), (''uname'', ''lc_uname''),
     (''setenv'', ''lc_setenv'')] @
    (if WITH_MALLINFO then [(''meminfo'', ''lc_meminfo'')] else []) @
    [(''atomic_append'', ''lc_atomic_append'')]"

definition MODULE_VERSION :: string where "MODULE_VERSION = ''0.4.0''"

definition luaopen_util_pposix :: "bool \<Rightarrow> lua_value" where
  "luaopen_util_pposix WITH_MALLINFO =
    (let t = luaL_setfuncs [] (exports_pposix WITH_MALLINFO);
         t = lua_setfield t ''ENOENT'' (LNumber (of_int ENOENT));
         t = lua_setfield t ''_NAME'' (LString (bs ''pposix''));
         t = lua_setfield t ''_VERSION'' (LString (bs MODULE_VERSION))
     in LTable t)"

text \<open>The library table of the signals; the loop that also fills the table of the registry is in
  \<open>Signal.luaopen_util_signal\<close>.\<close>

definition lsignal_lib :: luaL_Reg where
  "lsignal_lib = [(''signal'', ''l_signal''), (''raise'', ''l_raise''), (''kill'', ''l_kill'')]"

definition signal_library :: lua_value where
  "signal_library =
    LTable (fold (\<lambda>(name, sig) t. lua_setfield t name (LNumber (of_int sig))) lua_signals (luaL_setfuncs [] lsignal_lib))"

section \<open>The modules with objects\<close>

definition luaopen_util_ringbuffer :: "registry \<Rightarrow> lua_value \<times> registry" where
  "luaopen_util_ringbuffer R =
    (let (new, R) = luaL_newmetatable R ringbuffer_mt;
         R = (if new then
                let R = meta_setfield R ringbuffer_mt ''__tostring'' (LCFunction ''rb_tostring'');
                    R = meta_setfield R ringbuffer_mt ''__len'' (LCFunction ''rb_length'');
                    t = lua_setfield [] ''find'' (LCFunction ''rb_find'');
                    t = lua_setfield t ''discard'' (LCFunction ''rb_discard'');
                    t = lua_setfield t ''read'' (LCFunction ''rb_read'');
                    t = lua_setfield t ''readuntil'' (LCFunction ''rb_readuntil'');
                    t = lua_setfield t ''write'' (LCFunction ''rb_write'');
                    t = lua_setfield t ''size'' (LCFunction ''rb_size'');
                    t = lua_setfield t ''length'' (LCFunction ''rb_length'');
                    t = lua_setfield t ''free'' (LCFunction ''rb_free'')
                in meta_setfield R ringbuffer_mt ''__index'' (LTable t)
              else R)
     in (LTable (lua_setfield [] ''new'' (LCFunction ''rb_new'')), R))"

text \<open>\<open>USE_EPOLL\<close> selects the backend and with it \<open>STATE_MT\<close>.\<close>

definition luaopen_util_poll :: "bool \<Rightarrow> registry \<Rightarrow> lua_value \<times> registry" where
  "luaopen_util_poll USE_EPOLL R =
    (let STATE_MT = (if USE_EPOLL then EPOLL_MT else SELECT_MT);
         (new, R) = luaL_newmetatable R STATE_MT;
         R = meta_setfield R STATE_MT ''__name'' (LString (bs STATE_MT));
         R = meta_setfield R STATE_MT ''__tostring'' (LCFunction ''Ltos'');
         t = lua_setfield [] ''add'' (LCFunction ''Ladd'');
         t = lua_setfield t ''set'' (LCFunction ''Lset'');
         t = lua_setfield t ''del'' (LCFunction ''Ldel'');
         t = lua_setfield t ''wait'' (LCFunction ''Lwait'');
         t = (if USE_EPOLL then lua_setfield t ''getfd'' (LCFunction ''Lgetfd'') else t);
         R = meta_setfield R STATE_MT ''__index'' (LTable t);
         R = (if USE_EPOLL then meta_setfield R STATE_MT ''__gc'' (LCFunction ''Lgc'') else R);
         m = lua_setfield [] ''new'' (LCFunction ''Lnew'');
         m = lua_setfield m ''EEXIST'' (LNumber (of_int EEXIST));
         m = lua_setfield m ''ENOENT'' (LNumber (of_int ENOENT))
     in (LTable m, R))"

section \<open>Method calls\<close>

text \<open>A C function of a module with objects, on the state \<open>'s\<close> behind the object: \<open>None\<close> is a call that
  does not return. \<open>lua_index\<close> is the event \<open>index\<close> of Lua for the values these modules return, and
  \<open>call_method\<close> the call \<open>obj:name(args)\<close>.\<close>

type_synonym 's c_function = "lua_args \<Rightarrow> 's \<Rightarrow> (lua_value list \<times> 's) cres option"

definition no_index :: "byte list" where "no_index = bs ''attempt to index a userdata value''"
definition no_method :: "byte list" where "no_method = bs ''attempt to call a nil value''"

definition lua_index :: "registry \<Rightarrow> lua_value \<Rightarrow> string \<Rightarrow> lua_value cres" where
  "lua_index R obj k =
    (case obj of
       LTable t \<Rightarrow> Ret (lua_getfield t k)
     | LUserdata mt p \<Rightarrow>
         (case R mt of
            Some m \<Rightarrow> (case lua_getfield m ''__index'' of LTable t \<Rightarrow> Ret (lua_getfield t k) | _ \<Rightarrow> Raise (RuntimeError no_index))
          | None \<Rightarrow> Raise (RuntimeError no_index))
     | _ \<Rightarrow> Raise (RuntimeError no_index))"

definition call_method :: "registry \<Rightarrow> (string \<rightharpoonup> 's c_function) \<Rightarrow> lua_value \<Rightarrow> string \<Rightarrow> 's c_function" where
  "call_method R funs obj name args s =
    (case lua_index R obj name of
       Ret v \<Rightarrow>
         (case v of
            LCFunction f \<Rightarrow> (case funs f of Some op \<Rightarrow> op (obj # args) s | None \<Rightarrow> Some (Raise (RuntimeError no_method)))
          | _ \<Rightarrow> Some (Raise (RuntimeError no_method)))
     | Raise e \<Rightarrow> Some (Raise e)
     | Undef u \<Rightarrow> Some (Undef u))"

text \<open>The contract of a class of objects: every field of the table \<open>__index\<close> is one of its functions,
  and each of them refuses a first argument that is not an object of the class.\<close>

locale userdata_class =
  fixes R :: registry
    and mt :: string
    and methods :: luaL_Reg
    and funs :: "string \<rightharpoonup> 's c_function"
  assumes index: "lua_index R (LUserdata mt p) k =
      Ret (case map_of methods k of Some f \<Rightarrow> LCFunction f | None \<Rightarrow> LNil)"
    and bound: "map_of methods k = Some f \<Longrightarrow> funs f \<noteq> None"
    and checked: "funs f = Some op \<Longrightarrow> (\<And>p. lua_arg L 1 \<noteq> Some (LUserdata mt p)) \<Longrightarrow>
      op L s = Some (Raise (TypeError 1))"
begin

lemma method_bound: "map_of methods k = Some f \<Longrightarrow> funs f = Some op \<Longrightarrow>
    call_method R funs (LUserdata mt p) k args s = op (LUserdata mt p # args) s"
  by (simp add: call_method_def index)

lemma unknown_method: "map_of methods k = None \<Longrightarrow>
    call_method R funs (LUserdata mt p) k args s = Some (Raise (RuntimeError no_method))"
  by (simp add: call_method_def index)

text \<open>A function taken from an object of the class and called on anything else.\<close>

lemma foreign_object:
  assumes "map_of methods k = Some f" and "\<And>p. v \<noteq> LUserdata mt p"
  shows "\<exists>op. funs f = Some op \<and> op (v # args) s = Some (Raise (TypeError 1)) \<and> op [] s = Some (Raise (TypeError 1))"
  using bound [OF assms(1)] checked [of f] assms(2) by (fastforce simp: lua_arg_def)

end

section \<open>The classes\<close>

definition ringbuffer_methods :: luaL_Reg where
  "ringbuffer_methods = [(''find'', ''rb_find''), (''discard'', ''rb_discard''), (''read'', ''rb_read''),
     (''readuntil'', ''rb_readuntil''), (''write'', ''rb_write''), (''size'', ''rb_size''), (''length'', ''rb_length''),
     (''free'', ''rb_free'')]"

definition ringbuffer_functions :: "host \<Rightarrow> string \<rightharpoonup> ringbuffer c_function" where
  "ringbuffer_functions H = map_of
    [(''rb_find'', rb_find H), (''rb_readuntil'', rb_readuntil H),
     (''rb_discard'', \<lambda>L b. Some (rb_discard H L b)), (''rb_read'', \<lambda>L b. Some (rb_read H L b)),
     (''rb_write'', \<lambda>L b. Some (rb_write H L b)), (''rb_size'', \<lambda>L b. Some (rb_size L b)),
     (''rb_length'', \<lambda>L b. Some (rb_length L b)), (''rb_free'', \<lambda>L b. Some (rb_free L b)),
     (''rb_tostring'', \<lambda>L b. Some (rb_tostring H L b))]"

definition epoll_methods :: luaL_Reg where
  "epoll_methods = [(''add'', ''Ladd''), (''set'', ''Lset''), (''del'', ''Ldel''), (''wait'', ''Lwait''), (''getfd'', ''Lgetfd'')]"

definition epoll_functions :: "host \<Rightarrow> 'k epoll_os \<Rightarrow> string \<rightharpoonup> (epoll_state \<times> 'k) c_function" where
  "epoll_functions H E = map_of
    [(''Ladd'', \<lambda>L c. Some (Ladd H E L c)), (''Lset'', \<lambda>L c. Some (Lset H E L c)), (''Ldel'', \<lambda>L c. Some (Ldel H E L c)),
     (''Lwait'', \<lambda>L c. Some (Lwait H E L c)), (''Lgc'', \<lambda>L c. Some (Lgc H E L c)),
     (''Lgetfd'', \<lambda>L c. Some (cbind (Lgetfd L (fst c)) (\<lambda>r. Ret (r, c)))),
     (''Ltos'', \<lambda>L c. Some (cbind (Ltos H EPOLL_MT L) (\<lambda>r. Ret (r, c))))]"

definition select_methods :: luaL_Reg where
  "select_methods = [(''add'', ''Ladd''), (''set'', ''Lset''), (''del'', ''Ldel''), (''wait'', ''Lwait'')]"

definition select_functions :: "host \<Rightarrow> 'k select_os \<Rightarrow> string \<rightharpoonup> (select_state \<times> 'k) c_function" where
  "select_functions H E =
    (let on_state = (\<lambda>f L (s, k). Some (cbind (f L s) (\<lambda>(r, s'). Ret (r, s', k)))) in map_of
    [(''Ladd'', on_state (Ladd_select H)), (''Lset'', on_state (Lset_select H)), (''Ldel'', on_state (Ldel_select H)),
     (''Lwait'', \<lambda>L c. Some (Lwait_select H E L c)),
     (''Ltos'', \<lambda>L c. Some (cbind (Ltos H SELECT_MT L) (\<lambda>r. Ret (r, c))))])"

lemma checkudata_foreign: "(\<And>p. lua_arg L 1 \<noteq> Some (LUserdata mt p)) \<Longrightarrow> luaL_checkudata L 1 mt = Raise (TypeError 1)"
  by (auto simp: luaL_checkudata_def split: option.splits lua_value.splits)

lemma ringbuffer_checked:
  assumes "ringbuffer_functions H f = Some op" and "\<And>p. lua_arg L 1 \<noteq> Some (LUserdata ringbuffer_mt p)"
  shows "op L b = Some (Raise (TypeError 1))"
  using assms(1) checkudata_foreign [OF assms(2)]
  by (auto simp: ringbuffer_functions_def rb_find_def rb_readuntil_def rb_discard_def rb_read_def rb_write_def
      rb_size_def rb_length_def rb_free_def rb_tostring_def split: if_splits)

lemma epoll_checked:
  assumes "epoll_functions H E f = Some op" and "\<And>p. lua_arg L 1 \<noteq> Some (LUserdata EPOLL_MT p)"
  shows "op L c = Some (Raise (TypeError 1))"
  using assms(1) checkudata_foreign [OF assms(2)]
  by (auto simp: epoll_functions_def Ladd_def Lset_def Ldel_def Lwait_def Lgc_def Lgetfd_def Ltos_def case_prod_beta
      split: if_splits)

lemma select_checked:
  assumes "select_functions H E f = Some op" and "\<And>p. lua_arg L 1 \<noteq> Some (LUserdata SELECT_MT p)"
  shows "op L c = Some (Raise (TypeError 1))"
  using assms(1) checkudata_foreign [OF assms(2)]
  by (auto simp: select_functions_def Ladd_select_def Lset_select_def Ldel_select_def Lwait_select_def Ltos_def
      case_prod_beta split: if_splits)

definition opened_ringbuffer :: "registry \<Rightarrow> registry" where
  "opened_ringbuffer R = snd (luaopen_util_ringbuffer (R(ringbuffer_mt := None)))"

lemma ringbuffer_index:
  "lua_index (opened_ringbuffer R) (LUserdata ringbuffer_mt p) k =
    Ret (case map_of ringbuffer_methods k of Some f \<Rightarrow> LCFunction f | None \<Rightarrow> LNil)"
  unfolding opened_ringbuffer_def luaopen_util_ringbuffer_def luaL_newmetatable_def meta_setfield_def lua_index_def
    ringbuffer_methods_def Let_def
  by (simp add: fields)

lemma poll_index:
  "lua_index (snd (luaopen_util_poll True R)) (LUserdata EPOLL_MT p) k =
    Ret (case map_of epoll_methods k of Some f \<Rightarrow> LCFunction f | None \<Rightarrow> LNil)"
  "lua_index (snd (luaopen_util_poll False R)) (LUserdata SELECT_MT p) k =
    Ret (case map_of select_methods k of Some f \<Rightarrow> LCFunction f | None \<Rightarrow> LNil)"
  unfolding luaopen_util_poll_def luaL_newmetatable_def meta_setfield_def lua_index_def
    epoll_methods_def select_methods_def Let_def case_prod_beta
  by (simp_all add: fields)

lemma ringbuffer_bound: "map_of ringbuffer_methods k = Some f \<Longrightarrow> ringbuffer_functions H f \<noteq> None"
  by (simp add: ringbuffer_methods_def ringbuffer_functions_def split: if_splits)

lemma epoll_bound: "map_of epoll_methods k = Some f \<Longrightarrow> epoll_functions H E f \<noteq> None"
  by (simp add: epoll_methods_def epoll_functions_def split: if_splits)

lemma select_bound: "map_of select_methods k = Some f \<Longrightarrow> select_functions H E f \<noteq> None"
  by (simp add: select_methods_def select_functions_def Let_def split: if_splits)

interpretation ring_class: userdata_class "opened_ringbuffer R" ringbuffer_mt ringbuffer_methods "ringbuffer_functions H"
  for R :: registry and H :: host
  by (unfold_locales, fact ringbuffer_index, fact ringbuffer_bound, fact ringbuffer_checked)

interpretation epoll_class: userdata_class "snd (luaopen_util_poll True R)" EPOLL_MT epoll_methods "epoll_functions H E"
  for R :: registry and H :: host and E :: "'k epoll_os"
  by (unfold_locales, fact poll_index, fact epoll_bound, fact epoll_checked)

interpretation select_class: userdata_class "snd (luaopen_util_poll False R)" SELECT_MT select_methods "select_functions H E"
  for R :: registry and H :: host and E :: "'k select_os"
  by (unfold_locales, fact poll_index, fact select_bound, fact select_checked)

section \<open>Programs that call methods\<close>

fun run_methods :: "(string \<Rightarrow> 's c_function) \<Rightarrow> (string \<times> lua_args) list \<Rightarrow> 's \<Rightarrow> (lua_value list list \<times> 's) cres option" where
  "run_methods call [] s = Some (Ret ([], s))"
| "run_methods call ((name, args) # xs) s =
     (case call name args s of
        None \<Rightarrow> None
      | Some (Ret (r, s')) \<Rightarrow> map_option (\<lambda>q. cbind q (\<lambda>(rs, s''). Ret (r # rs, s''))) (run_methods call xs s')
      | Some (Raise e) \<Rightarrow> Some (Raise e)
      | Some (Undef u) \<Rightarrow> Some (Undef u))"

text \<open>Calls that run the steps of a machine run the machine.\<close>

lemma run_methods_lift:
  assumes "\<And>x s. call (fst (m x)) (snd (m x)) s = Some (step x s)"
  shows "run_methods call (map m xs) s = Some (run_ops step xs s)"
proof (induction xs arbitrary: s)
  case (Cons x xs)
  have "call (fst (m x)) (snd (m x)) s = Some (step x s)" by (rule assms)
  with Cons show ?case by (cases "m x"; cases "step x s") auto
qed simp

text \<open>The operations of a queue and the questions about its state, as method calls on the object.\<close>

datatype object_op = Queue queue_op | AskSize | AskLength | AskFree

fun object_method :: "object_op \<Rightarrow> string \<times> lua_args" where
  "object_method (Queue (QWrite s)) = (''write'', [LString s])"
| "object_method (Queue (QRead n peek)) = (''read'', [LNumber (of_nat n), LBool peek])"
| "object_method (Queue (QDiscard n)) = (''discard'', [LNumber (of_nat n)])"
| "object_method AskSize = (''size'', [])"
| "object_method AskLength = (''length'', [])"
| "object_method AskFree = (''free'', [])"

fun object_op_fits :: "object_op \<Rightarrow> bool" where
  "object_op_fits (Queue x) = queue_op_fits x"
| "object_op_fits x = True"

text \<open>What a bounded byte queue of size \<open>n\<close> answers.\<close>

fun object_spec :: "nat \<Rightarrow> object_op \<Rightarrow> byte list \<Rightarrow> lua_value list \<times> byte list" where
  "object_spec n (Queue x) q = queue_spec n x q"
| "object_spec n AskSize q = ([LNumber (of_nat n)], q)"
| "object_spec n AskLength q = ([LNumber (of_nat (length q))], q)"
| "object_spec n AskFree q = ([LNumber (of_nat (n - length q))], q)"

fun object_step :: "host \<Rightarrow> object_op \<Rightarrow> ringbuffer \<Rightarrow> (lua_value list \<times> ringbuffer) cres" where
  "object_step H (Queue x) b = rb_step H x b"
| "object_step H AskSize b = rb_size [LUserdata ringbuffer_mt 0] b"
| "object_step H AskLength b = rb_length [LUserdata ringbuffer_mt 0] b"
| "object_step H AskFree b = rb_free [LUserdata ringbuffer_mt 0] b"

lemma ring_method_call:
  assumes "map_of ringbuffer_methods k = Some f" and "ringbuffer_functions H f = Some op"
  shows "call_method (opened_ringbuffer R) (ringbuffer_functions H) (LUserdata ringbuffer_mt p) k args b =
    op (LUserdata ringbuffer_mt p # args) b"
  by (rule ring_class.method_bound [OF assms])

lemma object_method_step:
  "call_method (opened_ringbuffer R) (ringbuffer_functions H) (LUserdata ringbuffer_mt p)
     (fst (object_method x)) (snd (object_method x)) b = Some (object_step H x b)"
proof -
  have "map_of ringbuffer_methods ''write'' = Some ''rb_write''" "map_of ringbuffer_methods ''read'' = Some ''rb_read''"
    "map_of ringbuffer_methods ''discard'' = Some ''rb_discard''" "map_of ringbuffer_methods ''size'' = Some ''rb_size''"
    "map_of ringbuffer_methods ''length'' = Some ''rb_length''" "map_of ringbuffer_methods ''free'' = Some ''rb_free''"
    by (simp_all add: ringbuffer_methods_def)
  moreover have "ringbuffer_functions H ''rb_write'' = Some (\<lambda>L b. Some (rb_write H L b))"
    "ringbuffer_functions H ''rb_read'' = Some (\<lambda>L b. Some (rb_read H L b))"
    "ringbuffer_functions H ''rb_discard'' = Some (\<lambda>L b. Some (rb_discard H L b))"
    "ringbuffer_functions H ''rb_size'' = Some (\<lambda>L b. Some (rb_size L b))"
    "ringbuffer_functions H ''rb_length'' = Some (\<lambda>L b. Some (rb_length L b))"
    "ringbuffer_functions H ''rb_free'' = Some (\<lambda>L b. Some (rb_free L b))"
    by (simp_all add: ringbuffer_functions_def)
  ultimately have calls:
    "call_method (opened_ringbuffer R) (ringbuffer_functions H) (LUserdata ringbuffer_mt p) ''write'' args b =
       Some (rb_write H (LUserdata ringbuffer_mt p # args) b)"
    "call_method (opened_ringbuffer R) (ringbuffer_functions H) (LUserdata ringbuffer_mt p) ''read'' args b =
       Some (rb_read H (LUserdata ringbuffer_mt p # args) b)"
    "call_method (opened_ringbuffer R) (ringbuffer_functions H) (LUserdata ringbuffer_mt p) ''discard'' args b =
       Some (rb_discard H (LUserdata ringbuffer_mt p # args) b)"
    "call_method (opened_ringbuffer R) (ringbuffer_functions H) (LUserdata ringbuffer_mt p) ''size'' args b =
       Some (rb_size (LUserdata ringbuffer_mt p # args) b)"
    "call_method (opened_ringbuffer R) (ringbuffer_functions H) (LUserdata ringbuffer_mt p) ''length'' args b =
       Some (rb_length (LUserdata ringbuffer_mt p # args) b)"
    "call_method (opened_ringbuffer R) (ringbuffer_functions H) (LUserdata ringbuffer_mt p) ''free'' args b =
       Some (rb_free (LUserdata ringbuffer_mt p # args) b)" for args b
    by (simp_all only: ring_method_call)
  show ?thesis
    by (cases x rule: object_method.cases) (simp_all add: calls,
      simp_all add: rb_write_def rb_read_def rb_discard_def rb_size_def rb_length_def rb_free_def lua_api)
qed

lemma object_step_refines:
  assumes "rb_wf b \<and> rb_capacity b = n" and "object_op_fits x"
  shows "\<exists>b'. object_step H x b = Ret (fst (object_spec n x (rb_content b)), b') \<and>
    (rb_wf b' \<and> rb_capacity b' = n) \<and> rb_content b' = snd (object_spec n x (rb_content b))"
proof (cases x)
  case (Queue y)
  with assms ring.step_refines [of b y H] show ?thesis by auto
next
  case AskFree
  have le: "blen b \<le> alen b" using assms(1) by (simp add: rb_wf_def word_le_nat_alt)
  then have "unat (alen b - blen b) = unat (alen b) - unat (blen b)" by (rule unat_sub)
  moreover have "unat (alen b) < 2 ^ 63" using assms(1) by (simp add: rb_wf_def)
  ultimately show ?thesis using AskFree assms(1)
    by (simp add: rb_free_def lua_api size_to_integer_small rb_capacity_def rb_content_def)
next
  case AskLength
  have "unat (blen b) < 2 ^ 63" using assms(1) by (simp add: rb_wf_def)
  with AskLength assms(1) show ?thesis
    by (simp add: rb_length_def lua_api size_to_integer_small rb_content_def)
next
  case AskSize
  have "unat (alen b) < 2 ^ 63" using assms(1) by (simp add: rb_wf_def)
  with AskSize assms(1) show ?thesis
    by (simp add: rb_size_def lua_api size_to_integer_small rb_capacity_def)
qed

lemma wait_method_step:
  "call_method (snd (luaopen_util_poll True R)) (epoll_functions H E) (LUserdata EPOLL_MT p) ''wait'' L c =
    Some (epoll_waits (H, E, L) c)"
proof -
  have "map_of epoll_methods ''wait'' = Some ''Lwait''" by (simp add: epoll_methods_def)
  moreover have "epoll_functions H E ''Lwait'' = Some (\<lambda>L c. Some (Lwait H E L c))" by (simp add: epoll_functions_def)
  ultimately have "call_method (snd (luaopen_util_poll True R)) (epoll_functions H E) (LUserdata EPOLL_MT p) ''wait'' L c =
      Some (Lwait H E (LUserdata EPOLL_MT p # L) c)"
    by (simp add: epoll_class.method_bound)
  moreover have "Lwait H E (LUserdata EPOLL_MT p # L) c = Lwait H E (LUserdata EPOLL_MT 0 # L) c"
  proof -
    have ud: "luaL_checkudata (LUserdata EPOLL_MT q # L) 1 EPOLL_MT = Ret q" for q by (simp add: lua_api)
    have num: "luaL_checknumber H (LUserdata EPOLL_MT p # L) 2 = luaL_checknumber H (LUserdata EPOLL_MT 0 # L) 2"
      by (simp add: lua_api)
    show ?thesis unfolding Lwait_def ud num by simp
  qed
  ultimately show ?thesis by (simp add: epoll_waits_def)
qed

section \<open>Properties\<close>

text \<open>A program that opens the ring buffer module and calls its function \<open>new\<close> with a positive size gets
  an object, with the metatable of the class, on which the methods write, read, discard, size, length and
  free, called in any order, answer as a bounded byte queue of that size.\<close>

theorem ringbuffer_object_is_queue:
  assumes "luaL_optinteger H L 1 pagesize = Ret n" "0 < n" "n < 2 ^ 63" "alloc (32 + nat n)"
    and "\<forall>x \<in> set xs. object_op_fits x"
  shows "lua_index R (fst (luaopen_util_ringbuffer R)) ''new'' = Ret (LCFunction ''rb_new'') \<and>
    (\<exists>obj b b'. rb_new H pagesize alloc junk p L = Ret ([obj], b) \<and>
      run_methods (call_method (opened_ringbuffer R) (ringbuffer_functions H) obj) (map object_method xs) b =
        Some (Ret (fst (spec_run (object_spec (nat n)) xs []), b')) \<and>
      rb_content b' = snd (spec_run (object_spec (nat n)) xs []))"
proof -
  from rb_new_ok [where alloc = alloc and junk = junk and p = p, OF assms(1-4)] obtain b where
    b: "rb_new H pagesize alloc junk p L = Ret ([LUserdata ringbuffer_mt p], b)"
      "rb_wf b \<and> rb_capacity b = nat n" "rb_content b = []"
    by (auto simp: rb_capacity_def)
  have "run_methods (call_method (opened_ringbuffer R) (ringbuffer_functions H) (LUserdata ringbuffer_mt p))
      (map object_method xs) b = Some (run_ops (object_step H) xs b)"
    by (rule run_methods_lift) (rule object_method_step)
  moreover obtain b' where "run_ops (object_step H) xs b = Ret (fst (spec_run (object_spec (nat n)) xs []), b')"
    "rb_content b' = snd (spec_run (object_spec (nat n)) xs [])"
    using run_ops_simulation [where I = "\<lambda>b. rb_wf b \<and> rb_capacity b = nat n" and view = rb_content and
        P = object_op_fits and f = "object_step H" and g = "object_spec (nat n)", OF object_step_refines b(2) assms(5)] b(3) by auto
  moreover have "lua_index R (fst (luaopen_util_ringbuffer R)) ''new'' = Ret (LCFunction ''rb_new'')"
    by (simp add: luaopen_util_ringbuffer_def case_prod_beta Let_def lua_index_def fields)
  ultimately show ?thesis using b(1) by auto
qed

theorem ringbuffer_object_is_queue_witness:
  "\<exists>obj b b'. rb_new plain_host 4096 (\<lambda>_. True) (\<lambda>_. 0) 7 [LNumber 4] = Ret ([obj], b) \<and>
    run_methods (call_method (opened_ringbuffer Map.empty) (ringbuffer_functions plain_host) obj)
      [(''write'', [LString [1, 2, 3]]), (''read'', [LNumber 2, LBool False]), (''free'', []),
       (''write'', [LString [4, 5, 6, 7]])] b =
      Some (Ret ([[LNumber 3], [LString [1, 2]], [LNumber 3], [LNil]], b')) \<and> rb_content b' = [3]"
  using ringbuffer_object_is_queue [of plain_host "[LNumber 4]" 4096 4 "\<lambda>_. True"
      "[Queue (QWrite [1, 2, 3]), Queue (QRead 2 False), AskFree, Queue (QWrite [4, 5, 6, 7])]" Map.empty "\<lambda>_. 0" 7]
  by (simp add: lua_api c_sem plain_host_def fits_object_def)

text \<open>Calling \<open>wait\<close> on a poll object as often as it has fetched events reports all of them, in
  order and without asking the system, whatever the arguments of the calls are.\<close>

theorem epoll_object_waits:
  assumes "epoll_wf s" and "length argss = length (epoll_pending s)"
  shows "\<exists>s'. run_methods (call_method (snd (luaopen_util_poll True R)) (epoll_functions H E) (LUserdata EPOLL_MT p))
      (map (\<lambda>args. (''wait'', args)) argss) (s, k) = Some (Ret (map push_ready (epoll_pending s), s', k)) \<and>
    epoll_pending s' = []"
proof -
  have "run_methods (call_method (snd (luaopen_util_poll True R)) (epoll_functions H E) (LUserdata EPOLL_MT p))
      (map (\<lambda>args. (''wait'', args)) argss) (s, k) = Some (run_ops (\<lambda>L. epoll_waits (H, E, L)) argss (s, k))"
    by (rule run_methods_lift) (simp add: wait_method_step)
  moreover have "run_ops (\<lambda>L. epoll_waits (H, E, L)) argss c = run_ops epoll_waits (map (\<lambda>L. (H, E, L)) argss) c" for c
    by (induction argss arbitrary: c) auto
  ultimately show ?thesis
    using epoll.waits_drain [OF assms(1), of "map (\<lambda>L. (H, E, L)) argss" k] assms(2) by auto
qed

theorem epoll_object_waits_witness:
  "\<exists>s'. run_methods (call_method (snd (luaopen_util_poll True Map.empty)) (epoll_functions plain_host script_os)
      (LUserdata EPOLL_MT 0)) [(''wait'', [])] (idle_state\<lparr>processed := 1, events := (events idle_state)[0 := interest 5 True False]\<rparr>, []) =
    Some (Ret ([[LNumber 5, LBool True, LBool False]], s', []))"
proof -
  let ?s = "idle_state\<lparr>processed := 1, events := (events idle_state)[0 := interest 5 True False]\<rparr>"
  have wf: "epoll_wf ?s" by (simp add: epoll_wf_def idle_state_def MAX_EVENTS_def)
  have pending: "map push_ready (epoll_pending ?s) = [[LNumber 5, LBool True, LBool False]]"
  proof -
    have "take 1 ((replicate 64 (\<lparr>ev_events = 0, ev_fd = 0\<rparr> :: epoll_event))[0 := x]) = [x]" for x
      by (simp add: numeral_eq_Suc)
    then have "take (nat (processed ?s)) (events ?s) = [interest 5 True False]"
      by (simp add: idle_state_def MAX_EVENTS_def)
    then show ?thesis
      by (simp add: epoll_pending_def event_ready_def interest_def push_ready_def epoll_masks)
  qed
  then have "length (epoll_pending ?s) = 1" by (metis length_map length_Cons list.size(3) One_nat_def)
  with epoll_object_waits [OF wf, of "[[]]" Map.empty plain_host script_os 0 "[]"] pending show ?thesis by auto
qed

text \<open>C28: the methods of a class are type safe: a method taken from a ring buffer or from a poller of
  either backend and called on a value that is not an object of its class raises a type error for
  its first argument, and so does a call without arguments; a name that is not a method cannot be
  called.\<close>

theorem methods_type_safe:
  "(\<forall>k f v args b. map_of ringbuffer_methods k = Some f \<and> (\<forall>q. v \<noteq> LUserdata ringbuffer_mt q) \<longrightarrow>
      lua_index (opened_ringbuffer R) (LUserdata ringbuffer_mt p) k = Ret (LCFunction f) \<and>
      (\<exists>op. ringbuffer_functions H f = Some op \<and> op (v # args) b = Some (Raise (TypeError 1)) \<and> op [] b = Some (Raise (TypeError 1)))) \<and>
   (\<forall>k f v args c. map_of epoll_methods k = Some f \<and> (\<forall>q. v \<noteq> LUserdata EPOLL_MT q) \<longrightarrow>
      lua_index (snd (luaopen_util_poll True R)) (LUserdata EPOLL_MT p) k = Ret (LCFunction f) \<and>
      (\<exists>op. epoll_functions H E f = Some op \<and> op (v # args) c = Some (Raise (TypeError 1)) \<and> op [] c = Some (Raise (TypeError 1)))) \<and>
   (\<forall>k f v args c. map_of select_methods k = Some f \<and> (\<forall>q. v \<noteq> LUserdata SELECT_MT q) \<longrightarrow>
      lua_index (snd (luaopen_util_poll False R)) (LUserdata SELECT_MT p) k = Ret (LCFunction f) \<and>
      (\<exists>op. select_functions H E' f = Some op \<and> op (v # args) c = Some (Raise (TypeError 1)) \<and> op [] c = Some (Raise (TypeError 1)))) \<and>
   (\<forall>k args b. map_of ringbuffer_methods k = None \<longrightarrow>
      call_method (opened_ringbuffer R) (ringbuffer_functions H) (LUserdata ringbuffer_mt p) k args b =
        Some (Raise (RuntimeError no_method))) \<and>
   (\<forall>k args c. map_of epoll_methods k = None \<longrightarrow>
      call_method (snd (luaopen_util_poll True R)) (epoll_functions H E) (LUserdata EPOLL_MT p) k args c =
        Some (Raise (RuntimeError no_method))) \<and>
   (\<forall>k args c. map_of select_methods k = None \<longrightarrow>
      call_method (snd (luaopen_util_poll False R)) (select_functions H E') (LUserdata SELECT_MT p) k args c =
        Some (Raise (RuntimeError no_method)))"
proof (intro conjI allI impI; (elim conjE)?)
  fix k f v and args :: lua_args and b
  assume a: "map_of ringbuffer_methods k = Some f" "\<forall>q. v \<noteq> LUserdata ringbuffer_mt q"
  show "lua_index (opened_ringbuffer R) (LUserdata ringbuffer_mt p) k = Ret (LCFunction f)"
    by (simp add: ringbuffer_index a(1))
  show "\<exists>op. ringbuffer_functions H f = Some op \<and> op (v # args) b = Some (Raise (TypeError 1)) \<and> op [] b = Some (Raise (TypeError 1))"
    by (rule ring_class.foreign_object [OF a(1)]) (use a(2) in blast)
next
  fix k f v and args :: lua_args and c
  assume a: "map_of epoll_methods k = Some f" "\<forall>q. v \<noteq> LUserdata EPOLL_MT q"
  show "lua_index (snd (luaopen_util_poll True R)) (LUserdata EPOLL_MT p) k = Ret (LCFunction f)"
    by (simp add: poll_index a(1))
  show "\<exists>op. epoll_functions H E f = Some op \<and> op (v # args) c = Some (Raise (TypeError 1)) \<and> op [] c = Some (Raise (TypeError 1))"
    by (rule epoll_class.foreign_object [OF a(1)]) (use a(2) in blast)
next
  fix k f v and args :: lua_args and c
  assume a: "map_of select_methods k = Some f" "\<forall>q. v \<noteq> LUserdata SELECT_MT q"
  show "lua_index (snd (luaopen_util_poll False R)) (LUserdata SELECT_MT p) k = Ret (LCFunction f)"
    by (simp add: poll_index a(1))
  show "\<exists>op. select_functions H E' f = Some op \<and> op (v # args) c = Some (Raise (TypeError 1)) \<and> op [] c = Some (Raise (TypeError 1))"
    by (rule select_class.foreign_object [OF a(1)]) (use a(2) in blast)
qed (rule ring_class.unknown_method epoll_class.unknown_method select_class.unknown_method, assumption)+

theorem methods_type_safe_witness:
  "\<exists>op. ringbuffer_functions plain_host ''rb_read'' = Some op \<and>
     op [LUserdata EPOLL_MT 0, LNumber 1] full_ring = Some (Raise (TypeError 1))"
proof -
  have "map_of ringbuffer_methods ''read'' = Some ''rb_read''" "\<forall>q. LUserdata EPOLL_MT 0 \<noteq> LUserdata ringbuffer_mt q"
    by (simp_all add: ringbuffer_methods_def EPOLL_MT_def ringbuffer_mt_def)
  with methods_type_safe [of Map.empty 0 plain_host script_os script_select, THEN conjunct1, rule_format,
      of "''read''" "''rb_read''" "LUserdata EPOLL_MT 0"]
  show ?thesis by blast
qed

text \<open>Opening a module again leaves the objects made before usable: the ring buffer's metatable is
  kept, the poller's gets the same fields.\<close>

lemma luaopen_again:
  "snd (luaopen_util_ringbuffer (opened_ringbuffer R)) = opened_ringbuffer R"
  "lua_index (snd (luaopen_util_poll b (snd (luaopen_util_poll b R)))) (LUserdata (if b then EPOLL_MT else SELECT_MT) p) k =
    lua_index (snd (luaopen_util_poll b R)) (LUserdata (if b then EPOLL_MT else SELECT_MT) p) k"
proof -
  have "opened_ringbuffer R ringbuffer_mt \<noteq> None"
    by (simp add: opened_ringbuffer_def luaopen_util_ringbuffer_def luaL_newmetatable_def meta_setfield_def Let_def)
  then show "snd (luaopen_util_ringbuffer (opened_ringbuffer R)) = opened_ringbuffer R"
    by (auto simp: luaopen_util_ringbuffer_def luaL_newmetatable_def)
qed (cases b; simp add: poll_index)

text \<open>The names of the signals do not hide the functions of the signal module.\<close>

lemma fold_setfield:
  "distinct (map fst xs) \<Longrightarrow> lua_getfield (fold (\<lambda>(n, v) t. lua_setfield t n (f v)) xs t) k =
    (case map_of xs k of Some v \<Rightarrow> f v | None \<Rightarrow> lua_getfield t k)"
proof (induction xs arbitrary: t)
  case (Cons x xs)
  then have "map_of xs (fst x) = None" by (simp add: map_of_eq_None_iff)
  with Cons show ?case by (cases x) (auto simp: getfield_setfield split: option.splits)
qed simp

lemma signal_library_fields:
  "\<exists>t. signal_library = LTable t \<and>
    (\<forall>(n, f) \<in> set lsignal_lib. lua_getfield t n = LCFunction f) \<and>
    (\<forall>(n, v) \<in> set lua_signals. lua_getfield t n = LNumber (of_int v))"
proof -
  have d: "distinct (map fst lsignal_lib)" by (simp add: lsignal_lib_def)
  have "map_of lua_signals n = None \<and> map_of lsignal_lib n = Some f" if "(n, f) \<in> set lsignal_lib" for n f
    using that by (auto simp: lsignal_lib_def lua_signals_def)
  then show ?thesis
    using map_of_is_SomeI [OF distinct_signal_names]
    by (auto simp: signal_library_def fold_setfield [OF distinct_signal_names] getfield_setfuncs [OF d] split: option.splits)
qed

end
