(* ===== verification/SignalNested.thy ===== *)
theory SignalNested
  imports Signal
begin

text \<open>
  What goes wrong in \<open>util-src/signal.c\<close> when the handler \<open>handle\<close> is interrupted by the handler of
  another signal, in the state machine of the theory Signal.
\<close>

section \<open>Losing the hook of the program\<close>

text \<open>Once the signal hook is saved as the hook to restore, it stays the hook until the program sets one.\<close>

definition hook_lost :: "sig_config \<Rightarrow> bool" where
  "hook_lost = (\<lambda>(fs, p, s). lhook s = signal_hook \<and> Hsaved s = signal_hook)"

definition no_prog_hook :: "sig_label \<Rightarrow> bool" where
  "no_prog_hook l \<longleftrightarrow> (\<forall>g. l \<noteq> ProgHook g)"

lemma hook_lost_stmt:
  "handle_stmt sig pc s = Ret (x, s') \<Longrightarrow> lhook s = signal_hook \<Longrightarrow> Hsaved s = signal_hook \<Longrightarrow>
    lhook s' = signal_hook \<and> Hsaved s' = signal_hook"
  by (cases pc) (auto split: if_splits)

lemma hook_lost_step: "sig_step c l c' \<Longrightarrow> no_prog_hook l \<Longrightarrow> hook_lost c \<Longrightarrow> hook_lost c'"
proof (induction rule: sig_step.induct)
  case (set_handler p i H signal_ok L s r s')
  then show ?case using l_signal_fields [OF set_handler.hyps(2)] by (simp add: hook_lost_def)
qed (auto simp: hook_lost_def no_prog_hook_def sighook_start_def sighook_end_def dest: hook_lost_stmt split: if_splits)

text \<open>The interruption: signal \<open>b\<close> arrives in the handler of \<open>a\<close> after the hook was installed and
  before the first signal is stored.\<close>

lemma nested_save:
  assumes "sig_inv ([], p, s)" and "a \<in> handled s" and "b \<in> handled s" and "a \<noteq> b" and "nsig s = 0"
  shows "\<exists>ls s'. sig_run ([], p, s) ls ([], p, s') \<and> hook_lost ([], p, s') \<and> take (nsig s') (signals s') = [b, a]"
proof -
  have L: "Lsig s" and len: "length (signals s) = 32"
    using assms(1,2) by (auto simp: sig_inv_def MAX_PENDING_SIGNALS_def)
  define s1 where "s1 = s\<lparr>Hsaved := lhook s, lhook := signal_hook\<rparr>"
  have "sig_step ([], p, s) (Arrive a) ([(a, AtTest)], p, s)" by (rule arrive) (rule assms(2))
  moreover have "sig_step ([(a, AtTest)], p, s) Quiet ([(a, SaveHook)], p, s)" by (rule stmt) (simp add: assms)
  moreover have "sig_step ([(a, SaveHook)], p, s) Quiet ([(a, SaveMask)], p, s\<lparr>Hsaved := (Hsaved s)\<lparr>hk_fn := hk_fn (lhook s)\<rparr>\<rparr>)"
    by (rule stmt) (simp add: L)
  moreover have "sig_step ([(a, SaveMask)], p, s\<lparr>Hsaved := (Hsaved s)\<lparr>hk_fn := hk_fn (lhook s)\<rparr>\<rparr>) Quiet
      ([(a, SaveCount)], p, s\<lparr>Hsaved := (Hsaved s)\<lparr>hk_fn := hk_fn (lhook s), hk_mask := hk_mask (lhook s)\<rparr>\<rparr>)"
    by (rule stmt) simp
  moreover have "sig_step ([(a, SaveCount)], p, s\<lparr>Hsaved := (Hsaved s)\<lparr>hk_fn := hk_fn (lhook s), hk_mask := hk_mask (lhook s)\<rparr>\<rparr>)
      Quiet ([(a, SetHook)], p, s\<lparr>Hsaved := lhook s\<rparr>)"
    by (rule stmt) (simp add: save_hook_fields)
  moreover have "sig_step ([(a, SetHook)], p, s\<lparr>Hsaved := lhook s\<rparr>) Quiet ([(a, AtBound)], p, s1)"
    by (rule stmt) (simp add: s1_def)
  ultimately have to_s1: "\<exists>ls. sig_run ([], p, s) ls ([(a, AtBound)], p, s1)"
    by (meson run_one run_snoc)
  define s2 where "s2 = s1\<lparr>Hsaved := signal_hook, lhook := signal_hook, signals := (signals s)[0 := b], nsig := 1\<rparr>"
  have "handle b s1 = Ret (Some s2)"
    using L len assms(5) by (simp add: handle_result s1_def s2_def MAX_PENDING_SIGNALS_def)
  from handle_run [OF this, of "[(a, AtBound)]" p] assms(3,4)
  have to_s2: "\<exists>ls. sig_run ([(a, AtBound)], p, s1) ls ([(a, AtBound)], p, s2)" by (auto simp: s1_def)
  define s3 where "s3 = s2\<lparr>signals := (signals s2)[1 := a], nsig := 2\<rparr>"
  have "handle_stmts 2 a AtBound s2 = Ret (Some s3)"
    using len by (simp add: s3_def s2_def MAX_PENDING_SIGNALS_def numeral_2_eq_2)
  from stmts_run [OF this] have "\<exists>ls. sig_run ([(a, AtBound)], p, s2) ls ([], p, s3)" by blast
  with to_s1 to_s2 have "\<exists>ls. sig_run ([], p, s) ls ([], p, s3)" by (meson run_append)
  moreover have "hook_lost ([], p, s3)" by (simp add: hook_lost_def s3_def s2_def)
  moreover have "take (nsig s3) (signals s3) = [b, a]"
    using len by (cases "signals s"; cases "tl (signals s)") (auto simp: s3_def s2_def)
  ultimately show ?thesis by blast
qed

text \<open>The state of a program with handlers for the signals 15 and 10.\<close>

definition two_handlers :: sig_state where
  "two_handlers = with_handler\<lparr>sigtable := (sigtable with_handler)(LNumber (of_int 10) \<mapsto> LFunction 2), handled := {10, 15}\<rparr>"

lemma two_handlers_run: "sig_run (sig_init plain_hook) [Quiet, Quiet] ([], Running, two_handlers)"
proof -
  have "l_signal plain_host (\<lambda>_. True) [LNumber 10, LFunction 2] with_handler = Ret ([LBool True], two_handlers)"
    by (simp add: l_signal_def signal_arg_def lua_api two_handlers_def with_handler_def)
  then have "sig_step ([], Running, with_handler) Quiet ([], Running, two_handlers)"
    by (intro set_handler [of _ 0]) simp_all
  from run_snoc [OF run_one [OF example_handler_step] this] show ?thesis by simp
qed

lemma two_handlers_fields: "handled two_handlers = {10, 15}" "nsig two_handlers = 0"
  by (simp_all add: two_handlers_def example_defs)

text \<open>C32: in every reachable state with an empty queue and handlers for two signals, the two can arrive
  so that the program's debug hook is lost: the handler that is interrupted has installed the signal
  hook and not yet counted its signal, so the other one saves the signal hook as the hook to
  restore; the signal that arrived last is queued first. From then on, whatever happens, the signal
  hook stays installed until the program sets a hook itself.\<close>

theorem nested_hook_lost:
  assumes "sig_run (sig_init h) ls ([], p, s)"
    and "a \<in> handled s" and "b \<in> handled s" and "a \<noteq> b" and "nsig s = 0"
  shows "\<exists>ls1 s1. sig_run ([], p, s) ls1 ([], p, s1) \<and> take (nsig s1) (signals s1) = [b, a] \<and>
    (\<forall>ls2 fs q s2. sig_run ([], p, s1) ls2 (fs, q, s2) \<and> (\<forall>g. ProgHook g \<notin> set ls2) \<longrightarrow> lhook s2 = signal_hook)"
proof -
  from nested_save [OF sig_inv_reachable [OF assms(1)] assms(2-5)] obtain ls1 s1
    where s1: "sig_run ([], p, s) ls1 ([], p, s1)" "hook_lost ([], p, s1)" "take (nsig s1) (signals s1) = [b, a]" by blast
  have "lhook s2 = signal_hook"
    if "sig_run ([], p, s1) ls2 (fs, q, s2)" "\<forall>g. ProgHook g \<notin> set ls2" for ls2 fs q s2
  proof -
    have "\<forall>l \<in> set ls2. no_prog_hook l" using that(2) by (auto simp: no_prog_hook_def)
    then have "hook_lost (fs, q, s2)"
      using run_invariant [OF that(1), of no_prog_hook hook_lost] hook_lost_step s1(2) by blast
    then show ?thesis by (simp add: hook_lost_def)
  qed
  with s1(1,3) show ?thesis by blast
qed

theorem nested_hook_lost_witness:
  "\<exists>ls1 s1. sig_run ([], Running, two_handlers) ls1 ([], Running, s1) \<and> take (nsig s1) (signals s1) = [10, 15] \<and>
    lhook s1 = signal_hook"
proof -
  from nested_hook_lost [OF two_handlers_run, of 15 10] two_handlers_fields obtain ls1 s1
    where s1: "sig_run ([], Running, two_handlers) ls1 ([], Running, s1)" "take (nsig s1) (signals s1) = [10, 15]"
      and fut: "\<And>ls2 fs q s2. sig_run ([], Running, s1) ls2 (fs, q, s2) \<Longrightarrow> \<forall>g. ProgHook g \<notin> set ls2 \<Longrightarrow>
        lhook s2 = signal_hook" by auto
  from fut [OF run_nil] s1 show ?thesis by auto
qed

section \<open>Writing behind the array\<close>

text \<open>Queueing a signal again and again.\<close>

lemma fill_queue:
  assumes "sig_inv ([], p, s)" and "a \<in> handled s" and "nsig s + n \<le> 32"
  shows "\<exists>ls s'. sig_run ([], p, s) ls ([], p, s') \<and> handled s' = handled s \<and> nsig s' = nsig s + n"
  using assms
proof (induction n arbitrary: s)
  case 0
  then show ?case by (intro exI [of _ "[]"] exI [of _ s]) (simp add: run_nil)
next
  case (Suc n)
  have "Lsig s" "length (signals s) = MAX_PENDING_SIGNALS" using Suc.prems(1,2) by (auto simp: sig_inv_def)
  with Suc.prems(3) handle_result [of s a] obtain s1 where s1: "handle a s = Ret (Some s1)"
    "nsig s1 = nsig s + 1" "handled s1 = handled s"
    by (auto simp: Let_def MAX_PENDING_SIGNALS_def)
  from handle_run [OF s1(1) Suc.prems(2), of "[]" p] obtain ls1 where ls1: "sig_run ([], p, s) ls1 ([], p, s1)" by auto
  from Suc.IH [OF sig_inv_run [OF ls1 Suc.prems(1)]] s1 Suc.prems obtain ls2 s2 where
    "sig_run ([], p, s1) ls2 ([], p, s2)" "handled s2 = handled s1" "nsig s2 = nsig s1 + n" by auto
  with run_append [OF this(1) ls1] s1 show ?case by auto
qed

lemma nested_store:
  assumes "sig_inv ([], p, s)" and "a \<in> handled s" and "b \<in> handled s" and "a \<noteq> b" and "nsig s = 31"
  shows "\<exists>ls s'. sig_run ([], p, s) ls ([(a, Store)], p, s') \<and> handle_stmt a Store s' = Undef OutOfBounds"
proof -
  have "sig_step ([], p, s) (Arrive a) ([(a, AtTest)], p, s)" by (rule arrive) (rule assms(2))
  moreover have "sig_step ([(a, AtTest)], p, s) Quiet ([(a, AtBound)], p, s)" by (rule stmt) (simp add: assms)
  moreover have "sig_step ([(a, AtBound)], p, s) Quiet ([(a, Store)], p, s)"
    by (rule stmt) (simp add: assms MAX_PENDING_SIGNALS_def)
  ultimately obtain ls1 where run: "sig_run ([], p, s) ls1 ([(a, Store)], p, s)" by (meson run_one run_snoc)
  have "Lsig s" "length (signals s) = MAX_PENDING_SIGNALS" using assms(1,2) by (auto simp: sig_inv_def)
  with assms(5) handle_result [of s b] obtain s1 where
    s1: "handle b s = Ret (Some s1)" "nsig s1 = 32" "length (signals s1) = 32"
    by (auto simp: Let_def MAX_PENDING_SIGNALS_def)
  from handle_run [OF s1(1) assms(3), of "[(a, Store)]" p] assms(4) obtain ls2
    where "sig_run ([(a, Store)], p, s) ls2 ([(a, Store)], p, s1)" by auto
  from run_append [OF this run] s1 show ?thesis by (intro exI [of _ "ls1 @ ls2"] exI [of _ s1]) simp
qed

text \<open>C31: nested handlers can write past the array of pending signals: from every reachable state with a
  free slot and handlers for two signals, a run leads to a handler that has passed the test for a
  free slot, which the handler on top of it has filled.\<close>

theorem nested_overflow:
  assumes "sig_run (sig_init h) ls ([], p, s)"
    and "a \<in> handled s" and "b \<in> handled s" and "a \<noteq> b" and "nsig s < MAX_PENDING_SIGNALS"
  shows "\<exists>ls1 s1. sig_run ([], p, s) ls1 ([(a, Store)], p, s1) \<and> handle_stmt a Store s1 = Undef OutOfBounds"
proof -
  have inv: "sig_inv ([], p, s)" using sig_inv_reachable [OF assms(1)] .
  from fill_queue [OF inv assms(3), of "31 - nsig s"] assms(5) obtain ls0 s0 where s0:
    "sig_run ([], p, s) ls0 ([], p, s0)" "handled s0 = handled s" "nsig s0 = 31"
    by (auto simp: MAX_PENDING_SIGNALS_def)
  from nested_store [OF sig_inv_run [OF s0(1) inv] _ _ assms(4) s0(3)] assms(2,3) s0(2) obtain ls1 s1 where
    "sig_run ([], p, s0) ls1 ([(a, Store)], p, s1)" "handle_stmt a Store s1 = Undef OutOfBounds" by metis
  with run_append [OF this(1) s0(1)] show ?thesis by blast
qed

theorem nested_overflow_witness:
  "\<exists>ls1 s1. sig_run ([], Running, two_handlers) ls1 ([(15, Store)], Running, s1) \<and>
    handle_stmt 15 Store s1 = Undef OutOfBounds"
  using nested_overflow [OF two_handlers_run, of 15 10] two_handlers_fields
  by (simp add: MAX_PENDING_SIGNALS_def)

end
