(* ===== verification/Spec2Isabelle.thy ===== *)
theory Spec2Isabelle
  imports LuaModules SignalNested
begin

text \<open>
  Verification of the C modules of Prosody, an XMPP server written in Lua. The server core is Lua
  code; what it cannot do in Lua it does in the twelve extension modules of \<open>src/util-src\<close>, which this
  development models function by function. The modules share no state: a Lua program loads them
  (\<open>luaopen_util_*\<close>), calls their functions with Lua values and gets Lua values, nil with a message,
  or a Lua error back.

  \<^bold>\<open>How the code is modelled.\<close> A C function that Lua calls is a HOL function from the list of its
  arguments and the state it works on to an outcome \<open>cres\<close>: \<open>Ret\<close> with the pushed values and the new
  state, \<open>Raise\<close> with a Lua error that leaves the function, or \<open>Undef\<close> with the kind of undefined
  behaviour of C it ran into (an access out of bounds, a use of freed memory, a division by zero, an
  overflow, a shift by too much, a conversion out of range). Words have the width of the C types
  where wrap-around matters. A loop that may not end is a \<open>partial_function\<close> into \<open>option\<close>; the loops
  \<open>find_loop\<close> (ring buffer) and \<open>getrandom_loop\<close> (random bytes) are the only ones, and the theorems
  about them state that they return, or that they do not. All other loops are total functions. Fuel
  occurs once, in \<open>Signal.handle_stmts\<close>, where seven statements are proved enough. Code outside
  the sources (system calls, OpenSSL, libidn, ICU, the number conversions of Lua, Windows) is a
  parameter; what a theorem needs of it is a named hypothesis \<open>*_documented\<close> or \<open>computes_hash\<close>, and
  each such theorem has a witness with a concrete instance.

  \<^bold>\<open>The theories.\<close>

  \<^item> Prelude: machine types, the outcome monad \<open>cres\<close> with its rule \<open>outcome\<close>, memory accesses, byte
    strings, sequences of operations (\<open>run_ops\<close>) and their simulation by a specification.
  \<^item> LuaApi: Lua values, argument checks (\<open>luaL_check*\<close>) and conversions of Lua 5.1, error numbers.
  \<^item> Ringbuffer and RingbufferSearch (\<open>ringbuffer.c\<close>): the record of the C struct, every \<open>rb_*\<close> function.
    The locale \<open>bounded_queue\<close> is the contract of a bounded byte queue; the ring is an interpretation,
    so every sequence of writes, reads, peeks and discards refines the queue. Searching finds the
    first occurrence; it fails on a full ring and may not return for a needle longer than the
    content.
  \<^item> Base64, Utf8, Stringprep (\<open>encodings.c\<close>): the encoder equals RFC 4648 and the decoder undoes it;
    \<open>utf8_decode\<close> accepts exactly the encodings of scalar values of RFC 3629; the wrappers around
    libidn and ICU (both builds) hand on only what fits their buffers.
  \<^item> Hashes (\<open>hashes.c\<close>): hexadecimal output, HMAC against RFC 2104 and \<open>scram_Hi_sha1\<close> against PBKDF2,
    for an abstract digest; HMAC with SHA-512 uses the wrong block size.
  \<^item> Poll, PollEpoll, PollSelect (\<open>poll.c\<close>): the locales \<open>event_source\<close> and \<open>poller\<close> state what a caller
    of \<open>wait\<close> sees and are interpreted by both backends. Reachable states are inductive predicates;
    in them waits stay inside the array of events and the descriptor sets.
  \<^item> Signal and SignalNested (\<open>signal.c\<close>): the queue of pending signals, the Lua hook that delivers
    them and the functions \<open>signal\<close>, \<open>raise\<close> and \<open>kill\<close>, as one step relation. A configuration is the
    stack of C handlers that are active, each at its statement, over the phase of the hook and the
    state; the labels record what is stored, called and thrown away. The account of the signals holds
    however C handlers interrupt each other; that the array is not exceeded, that the program's own
    hook is kept and that a failing Lua handler ends delivery holds for runs in which they do not.
    SignalNested has the runs in which they do: there the array can be overrun and the hook of the
    program lost.
  \<^item> Crand (\<open>crand.c\<close>): the three builds; the loop around short reads of \<open>getrandom\<close> returns exactly the
    requested bytes below 2^31, or the error of a read that failed.
  \<^item> Net (\<open>net.c\<close>): the listing of local addresses in both builds, \<open>pton\<close> and \<open>ntop\<close>.
  \<^item> PposixSyslog, PposixProcess, PposixFile (\<open>pposix.c\<close>): syslog with the lifetime of its identity
    string, where every call leaves a state, also one that raises an error; daemonizing, as the
    processes that run the function with their sessions and streams; identities, file modes, resource
    limits, environment; and appending to a file atomically, over a \<open>FILE\<close> with the bytes that wait in
    its buffer.
  \<^item> SmallModules (\<open>table.c\<close>, \<open>compat.c\<close>, \<open>time.c\<close>, \<open>windows.c\<close>).
  \<^item> LuaModules: the \<open>luaopen\<close> functions, with the tables and metatables they build. The locale
    \<open>userdata_class\<close> is the contract of a class of objects, interpreted by ring buffers and by the
    pollers of both backends; method calls go through the metatables to the modelled functions, so
    a program that calls methods sees the queue and the pending events of the specifications.

  \<^bold>\<open>Abstractions.\<close> Lua numbers are exact rationals; infinities, NaN and rounding are left out. Userdata
  are named by metatable and address, and the state behind an address is an argument. Lua code that
  the modules call back is any program: a signal handler may return, fail or set handlers. There is
  one Lua thread, so one debug hook; a step of the signal machine is a statement of the C handler or
  one round of the hook. An allocation that fails is modelled where its size comes from an argument
  (\<open>rb_new\<close>, \<open>LscramHi\<close>, \<open>Lrandom\<close>, the copy in \<open>lc_syslog_open\<close>); the fixed-size state of a poller and the
  values that Lua itself allocates are taken to fit. Numbers of signals, errors, resources and log
  levels are those of Linux.

  \<^bold>\<open>Not modelled.\<close> The Lua code of the server (\<open>core\<close>, \<open>net\<close>, \<open>plugins\<close>, \<open>util\<close>) is outside the C
  modules. Of the C sources, the preprocessor's choices for other platforms and Lua releases
  (\<open>luaL_checkversion\<close>, the other clock and file calls), a failing \<open>ftell\<close>, the buffer of the name server
  query on Windows and data races of C below the level of statements are left out.
\<close>

end
